(* ===== verification/Rust_Prelude.thy ===== *)
theory Rust_Prelude
  imports Main "HOL-Library.Word"
begin

unbundle bit_operations_syntax

text \<open>
  Shared vocabulary of the development: the machine integers of the Rust sources, the type of a
  fallible computation, checked arithmetic, and the generic lemmas the component theories use.

  \<^item> \<open>u8\<close>, \<open>u16\<close>, \<open>u64\<close>, \<open>u128\<close> are words; the workspace is built with overflow checks on
    (\<^verbatim>\<open>overflow-checks = true\<close> in the release profile), so a plain \<^verbatim>\<open>+\<close> or \<^verbatim>\<open>-\<close> that leaves the
    range is a panic, written with \<open>plus_or_panic\<close> and \<open>minus_or_panic\<close>.
  \<^item> \<open>('a, 'e) result\<close> is Rust's \<^verbatim>\<open>Result\<close> with a third constructor for a panic (\<^verbatim>\<open>unwrap\<close>,
    \<^verbatim>\<open>expect\<close>, \<^verbatim>\<open>assert!\<close>, arithmetic overflow); \<open>and_then\<close> is both \<^verbatim>\<open>Result::and_then\<close> and the
    \<^verbatim>\<open>?\<close> operator.
  \<^item> \<open>('s, 'a, 'e) handler\<close> is a method that takes \<^verbatim>\<open>&mut self\<close> and returns a \<^verbatim>\<open>Result\<close>: it passes the
    state on explicitly, on the error paths too.
\<close>

section \<open>Machine integers\<close>

type_synonym u8 = "8 word"
type_synonym u16 = "16 word"
type_synonym u32 = "32 word"
type_synonym u64 = "64 word"
type_synonym u128 = "128 word"

text \<open>
  A \<^verbatim>\<open>HashValue\<close> and an \<^verbatim>\<open>AccountAddress\<close> are 32 bytes; their derived orders are the byte-wise
  lexicographic ones, which is the numeric order of the big-endian reading.
\<close>

type_synonym hash_value = "256 word"
type_synonym account_address = "256 word"
type_synonym author = account_address
type_synonym round = u64
type_synonym version = u64

text \<open>Keys and signatures of BLS12-381 are opaque to the modelled code; they are their byte strings.\<close>

type_synonym bls_public_key = "u8 list"
type_synonym bls_private_key = "u8 list"
type_synonym bls_signature = "u8 list"

section \<open>Fallible computations\<close>

datatype ('a, 'e) result = Ok 'a | Err 'e | Panic

fun and_then :: "('a, 'e) result \<Rightarrow> ('a \<Rightarrow> ('b, 'e) result) \<Rightarrow> ('b, 'e) result" where
  "and_then (Ok a) f = f a"
| "and_then (Err e) f = Err e"
| "and_then Panic f = Panic"

fun map_err :: "('e \<Rightarrow> 'f) \<Rightarrow> ('a, 'e) result \<Rightarrow> ('a, 'f) result" where
  "map_err f (Ok a) = Ok a"
| "map_err f (Err e) = Err (f e)"
| "map_err f Panic = Panic"

fun map_ok :: "('a \<Rightarrow> 'b) \<Rightarrow> ('a, 'e) result \<Rightarrow> ('b, 'e) result" where
  "map_ok f (Ok a) = Ok (f a)"
| "map_ok f (Err e) = Err e"
| "map_ok f Panic = Panic"

fun is_ok :: "('a, 'e) result \<Rightarrow> bool" where
  "is_ok (Ok a) = True"
| "is_ok (Err e) = False"
| "is_ok Panic = False"

text \<open>The macro \<^verbatim>\<open>ensure!\<close> of anyhow, \<^verbatim>\<open>assert!\<close>, \<^verbatim>\<open>Option::ok_or\<close> and \<^verbatim>\<open>Option::expect\<close>.\<close>

definition ensure :: "bool \<Rightarrow> 'e \<Rightarrow> (unit, 'e) result" where
  "ensure c e = (if c then Ok () else Err e)"

definition rust_assert :: "bool \<Rightarrow> (unit, 'e) result" where
  "rust_assert c = (if c then Ok () else Panic)"

definition ok_or :: "'a option \<Rightarrow> 'e \<Rightarrow> ('a, 'e) result" where
  "ok_or x e = (case x of Some a \<Rightarrow> Ok a | None \<Rightarrow> Err e)"

definition expect :: "'a option \<Rightarrow> ('a, 'e) result" where
  "expect x = (case x of Some a \<Rightarrow> Ok a | None \<Rightarrow> Panic)"

text \<open>A \<^verbatim>\<open>for\<close> loop whose body may leave the function with an error.\<close>

fun for_each :: "('s \<Rightarrow> 'x \<Rightarrow> ('s, 'e) result) \<Rightarrow> 's \<Rightarrow> 'x list \<Rightarrow> ('s, 'e) result" where
  "for_each body s [] = Ok s"
| "for_each body s (x # xs) = and_then (body s x) (\<lambda>s'. for_each body s' xs)"

section \<open>Methods on a mutable receiver\<close>

type_synonym ('s, 'a, 'e) handler = "'s \<Rightarrow> ('a, 'e) result \<times> 's"

definition bind_h :: "('s, 'a, 'e) handler \<Rightarrow> ('a \<Rightarrow> ('s, 'b, 'e) handler) \<Rightarrow> ('s, 'b, 'e) handler" where
  "bind_h m f = (\<lambda>s. case m s of
     (Ok a, s') \<Rightarrow> f a s'
   | (Err e, s') \<Rightarrow> (Err e, s')
   | (Panic, s') \<Rightarrow> (Panic, s'))"

text \<open>A call on \<^verbatim>\<open>&self\<close> inside a method, and a plain value.\<close>

definition lift_h :: "('s \<Rightarrow> ('a, 'e) result) \<Rightarrow> ('s, 'a, 'e) handler" where
  "lift_h f = (\<lambda>s. (f s, s))"

definition return_h :: "'a \<Rightarrow> ('s, 'a, 'e) handler" where
  "return_h a = (\<lambda>s. (Ok a, s))"

definition throw_h :: "'e \<Rightarrow> ('s, 'a, 'e) handler" where
  "throw_h e = (\<lambda>s. (Err e, s))"

definition modify_h :: "('s \<Rightarrow> 's) \<Rightarrow> ('s, unit, 'e) handler" where
  "modify_h f = (\<lambda>s. (Ok (), f s))"

text \<open>A call on a field of the receiver, and the conversion of an error by the \<^verbatim>\<open>?\<close> operator.\<close>

definition focus_h :: "('s \<Rightarrow> 't) \<Rightarrow> ('t \<Rightarrow> 's \<Rightarrow> 's) \<Rightarrow> ('t, 'a, 'e) handler \<Rightarrow> ('s, 'a, 'e) handler" where
  "focus_h get put m = (\<lambda>s. case m (get s) of (r, t) \<Rightarrow> (r, put t s))"

definition convert_h :: "('e \<Rightarrow> ('a, 'f) result) \<Rightarrow> ('s, 'a, 'e) handler \<Rightarrow> ('s, 'a, 'f) handler" where
  "convert_h f m = (\<lambda>s. case m s of
     (Ok a, s') \<Rightarrow> (Ok a, s')
   | (Err e, s') \<Rightarrow> (f e, s')
   | (Panic, s') \<Rightarrow> (Panic, s'))"

section \<open>Checked arithmetic\<close>

definition checked_add :: "'w::len word \<Rightarrow> 'w word \<Rightarrow> 'w word option" where
  "checked_add a b = (if unat a + unat b < 2 ^ LENGTH('w) then Some (a + b) else None)"

definition checked_sub :: "'w::len word \<Rightarrow> 'w word \<Rightarrow> 'w word option" where
  "checked_sub a b = (if b \<le> a then Some (a - b) else None)"

definition saturating_add :: "'w::len word \<Rightarrow> 'w word \<Rightarrow> 'w word" where
  "saturating_add a b = (case checked_add a b of Some c \<Rightarrow> c | None \<Rightarrow> - 1)"

definition checked_mul :: "'w::len word \<Rightarrow> 'w word \<Rightarrow> 'w word option" where
  "checked_mul a b = (if unat a * unat b < 2 ^ LENGTH('w) then Some (a * b) else None)"

definition plus_or_panic :: "'w::len word \<Rightarrow> 'w word \<Rightarrow> ('w word, 'e) result" where
  "plus_or_panic a b = expect (checked_add a b)"

definition minus_or_panic :: "'w::len word \<Rightarrow> 'w word \<Rightarrow> ('w word, 'e) result" where
  "minus_or_panic a b = expect (checked_sub a b)"

definition times_or_panic :: "'w::len word \<Rightarrow> 'w word \<Rightarrow> ('w word, 'e) result" where
  "times_or_panic a b = expect (checked_mul a b)"

text \<open>\<^verbatim>\<open>count_ones\<close> and \<^verbatim>\<open>trailing_zeros\<close> of the primitive integers.\<close>

definition count_ones_word :: "'w::len word \<Rightarrow> nat" where
  "count_ones_word w = length (filter (bit w) [0..<LENGTH('w)])"

definition trailing_zeros_word :: "'w::len word \<Rightarrow> nat" where
  "trailing_zeros_word w = length (takeWhile (\<lambda>i. \<not> bit w i) [0..<LENGTH('w)])"

text \<open>\<^verbatim>\<open>Vec::resize\<close>.\<close>

definition resize :: "nat \<Rightarrow> 'a \<Rightarrow> 'a list \<Rightarrow> 'a list" where
  "resize n x xs = take n xs @ replicate (n - length xs) x"

section \<open>Generic lemmas\<close>

named_theorems result_simps \<open>characteristic equations of fallible computations\<close>

lemma and_then_eq_Ok [result_simps]:
  "and_then m f = Ok b \<longleftrightarrow> (\<exists>a. m = Ok a \<and> f a = Ok b)"
  by (cases m) auto

lemma and_then_eq_Panic [result_simps]:
  "and_then m f = Panic \<longleftrightarrow> m = Panic \<or> (\<exists>a. m = Ok a \<and> f a = Panic)"
  by (cases m) auto

lemma map_err_eq_Ok [result_simps]: "map_err f m = Ok a \<longleftrightarrow> m = Ok a"
  by (cases m) auto

lemma map_err_eq_Panic [result_simps]: "map_err f m = Panic \<longleftrightarrow> m = Panic"
  by (cases m) auto

lemma map_ok_eq_Ok [result_simps]: "map_ok f m = Ok b \<longleftrightarrow> (\<exists>a. m = Ok a \<and> b = f a)"
  by (cases m) auto

lemma ensure_eq_Ok [result_simps]: "ensure c e = Ok u \<longleftrightarrow> c"
  by (simp add: ensure_def)

lemma ensure_neq_Panic [result_simps]: "ensure c e \<noteq> Panic"
  by (simp add: ensure_def)

lemma rust_assert_eq_Ok [result_simps]: "rust_assert c = Ok u \<longleftrightarrow> c"
  by (simp add: rust_assert_def)

lemma ok_or_eq_Ok [result_simps]: "ok_or x e = Ok a \<longleftrightarrow> x = Some a"
  by (cases x) (simp_all add: ok_or_def)

lemma ok_or_neq_Panic [result_simps]: "ok_or x e \<noteq> Panic"
  by (cases x) (simp_all add: ok_or_def)

lemma expect_eq_Ok [result_simps]: "expect x = Ok a \<longleftrightarrow> x = Some a"
  by (cases x) (simp_all add: expect_def)

lemma is_ok_iff: "is_ok m \<longleftrightarrow> (\<exists>a. m = Ok a)"
  by (cases m) auto

lemma and_then_assoc: "and_then (and_then m f) g = and_then m (\<lambda>a. and_then (f a) g)"
  by (cases m) auto

lemma for_each_append:
  "for_each body s (xs @ ys) = and_then (for_each body s xs) (\<lambda>s'. for_each body s' ys)"
  by (induction xs arbitrary: s) (auto simp: and_then_assoc)

text \<open>Handlers: the successful runs of a sequence are the runs of its parts.\<close>

lemma for_each_cong:
  "(\<And>s x. x \<in> set xs \<Longrightarrow> f s x = g s x) \<Longrightarrow> for_each f s xs = for_each g s xs"
proof (induction xs arbitrary: s)
  case (Cons x xs)
  then show ?case by (cases "g s x") simp_all
qed simp

lemma for_each_body_Ok:
  "for_each f s xs = Ok t \<Longrightarrow> x \<in> set xs \<Longrightarrow> \<exists>s1 s2. f s1 x = Ok s2"
proof (induction xs arbitrary: s)
  case (Cons y ys)
  then show ?case by (auto simp: and_then_eq_Ok)
qed simp

lemma bind_h_eq_Ok [result_simps]:
  "bind_h m f s = (Ok b, s') \<longleftrightarrow> (\<exists>a t. m s = (Ok a, t) \<and> f a t = (Ok b, s'))"
  by (auto simp: bind_h_def split: prod.splits result.splits)

lemma lift_h_eq_Ok [result_simps]: "lift_h f s = (Ok b, s') \<longleftrightarrow> f s = Ok b \<and> s' = s"
  by (auto simp: lift_h_def)

lemma return_h_eq_Ok [result_simps]: "return_h a s = (Ok b, s') \<longleftrightarrow> b = a \<and> s' = s"
  by (auto simp: return_h_def)

lemma throw_h_eq_Ok [result_simps]: "throw_h e s \<noteq> (Ok b, s')"
  by (simp add: throw_h_def)

lemma modify_h_eq_Ok [result_simps]: "modify_h f s = (Ok u, s') \<longleftrightarrow> s' = f s"
  by (auto simp: modify_h_def)

lemma bind_step: "m s = (Ok a, s') \<Longrightarrow> bind_h m f s = f a s'"
  by (simp add: bind_h_def)

lemma bind_lift:
  "bind_h (lift_h g) f s = (case g s of Ok a \<Rightarrow> f a s | Err e \<Rightarrow> (Err e, s) | Panic \<Rightarrow> (Panic, s))"
  by (simp add: bind_h_def lift_h_def)

lemma bind_modify: "bind_h (modify_h g) f s = f () (g s)"
  by (simp add: bind_h_def modify_h_def)

text \<open>
  A relation between the state before and after a handler that is reflexive and transitive is
  carried through a sequence, whatever the outcome of its parts.
\<close>

definition keeps :: "('s \<Rightarrow> 's \<Rightarrow> bool) \<Rightarrow> ('s, 'a, 'e) handler \<Rightarrow> bool" where
  "keeps R m \<longleftrightarrow> (\<forall>s. R s (snd (m s)))"

lemma keepsD: "keeps R m \<Longrightarrow> m s = (r, s') \<Longrightarrow> R s s'"
  by (metis keeps_def snd_conv)

lemma keeps_bind_h:
  assumes "transp R" and "keeps R m" and "\<And>a. keeps R (f a)"
  shows "keeps R (bind_h m f)"
  unfolding keeps_def
proof
  fix s
  obtain r t where m: "m s = (r, t)" by (cases "m s")
  with assms(2) have st: "R s t" by (rule keepsD)
  show "R s (snd (bind_h m f s))"
  proof (cases r)
    case (Ok a)
    then have "snd (bind_h m f s) = snd (f a t)" using m by (simp add: bind_h_def)
    moreover have "R t (snd (f a t))" using assms(3) by (simp add: keeps_def)
    ultimately show ?thesis using st assms(1) by (metis transpD)
  qed (use m st in \<open>simp_all add: bind_h_def\<close>)
qed

lemma keeps_lift_h [simp]: "reflp R \<Longrightarrow> keeps R (lift_h f)"
  by (simp add: keeps_def lift_h_def reflpD)

lemma keeps_return_h [simp]: "reflp R \<Longrightarrow> keeps R (return_h a)"
  by (simp add: keeps_def return_h_def reflpD)

lemma keeps_throw_h [simp]: "reflp R \<Longrightarrow> keeps R (throw_h e)"
  by (simp add: keeps_def throw_h_def reflpD)

lemma keeps_modify_h: "(\<And>s. R s (f s)) \<Longrightarrow> keeps R (modify_h f)"
  by (simp add: keeps_def modify_h_def)

lemma keeps_convert_h: "keeps R m \<Longrightarrow> keeps R (convert_h f m)"
  by (auto simp: keeps_def convert_h_def split: prod.split result.split dest: spec)
    (metis snd_conv)+

lemma keeps_focus_h: "keeps Q m \<Longrightarrow> (\<And>s t. Q (get s) t \<Longrightarrow> R s (put t s)) \<Longrightarrow> keeps R (focus_h get put m)"
  by (auto simp: keeps_def focus_h_def split: prod.split) (metis snd_conv)

lemma focus_h_eq_Ok [result_simps]:
  "focus_h get put m s = (Ok a, s') \<longleftrightarrow> (\<exists>t. m (get s) = (Ok a, t) \<and> s' = put t s)"
  by (auto simp: focus_h_def split: prod.split)

lemma convert_h_eq_Ok:
  "(\<And>e b. f e \<noteq> Ok b) \<Longrightarrow> convert_h f m s = (Ok a, s') \<longleftrightarrow> m s = (Ok a, s')"
  by (auto simp: convert_h_def split: prod.split result.split)

text \<open>
  Triples for handlers: from a state with \<open>P\<close>, a run that returns a value ends with \<open>Q\<close>, and a run
  that fails or panics ends with \<open>E\<close>.
\<close>

definition triple ::
  "('s \<Rightarrow> bool) \<Rightarrow> ('s, 'a, 'e) handler \<Rightarrow> ('a \<Rightarrow> 's \<Rightarrow> bool) \<Rightarrow> ('s \<Rightarrow> bool) \<Rightarrow> bool" where
  "triple P m Q E \<longleftrightarrow>
     (\<forall>s r s'. P s \<longrightarrow> m s = (r, s') \<longrightarrow> (case r of Ok a \<Rightarrow> Q a s' | _ \<Rightarrow> E s'))"

lemma tripleD_Ok: "triple P m Q E \<Longrightarrow> P s \<Longrightarrow> m s = (Ok a, s') \<Longrightarrow> Q a s'"
  by (auto simp: triple_def)

lemma tripleD_fail: "triple P m Q E \<Longrightarrow> P s \<Longrightarrow> m s = (r, s') \<Longrightarrow> (\<And>a. r \<noteq> Ok a) \<Longrightarrow> E s'"
  by (cases r) (auto simp: triple_def)

lemma tripleI:
  assumes "\<And>s a s'. P s \<Longrightarrow> m s = (Ok a, s') \<Longrightarrow> Q a s'"
    and "\<And>s r s'. P s \<Longrightarrow> m s = (r, s') \<Longrightarrow> \<not> is_ok r \<Longrightarrow> E s'"
  shows "triple P m Q E"
  using assms by (auto simp: triple_def split: result.split)

lemma triple_bind_h:
  assumes "triple P m R E" and "\<And>a. triple (R a) (f a) Q E"
  shows "triple P (bind_h m f) Q E"
  unfolding triple_def
proof (intro allI impI)
  fix s r s'
  assume P: "P s" and run: "bind_h m f s = (r, s')"
  obtain r1 t where m: "m s = (r1, t)" by (cases "m s")
  show "case r of Ok a \<Rightarrow> Q a s' | _ \<Rightarrow> E s'"
  proof (cases r1)
    case (Ok a)
    then have "f a t = (r, s')" using run m by (simp add: bind_h_def)
    moreover have "R a t" using assms(1) P m Ok by (simp add: tripleD_Ok)
    ultimately show ?thesis using assms(2) [of a] by (auto simp: triple_def)
  next
    case (Err e)
    then have "r = Err e" "s' = t" using run m by (simp_all add: bind_h_def)
    then show ?thesis using assms(1) P m Err by (auto simp: triple_def)
  next
    case Panic
    then have "r = Panic" "s' = t" using run m by (simp_all add: bind_h_def)
    then show ?thesis using assms(1) P m Panic by (auto simp: triple_def)
  qed
qed

lemma triple_lift_h:
  "(\<And>s a. P s \<Longrightarrow> f s = Ok a \<Longrightarrow> Q a s) \<Longrightarrow> (\<And>s. P s \<Longrightarrow> E s) \<Longrightarrow> triple P (lift_h f) Q E"
  by (auto simp: triple_def lift_h_def split: result.split)

lemma triple_return_h: "(\<And>s. P s \<Longrightarrow> Q a s) \<Longrightarrow> triple P (return_h a) Q E"
  by (auto simp: triple_def return_h_def)

lemma triple_throw_h: "(\<And>s. P s \<Longrightarrow> E s) \<Longrightarrow> triple P (throw_h e) Q E"
  by (auto simp: triple_def throw_h_def)

lemma triple_modify_h: "(\<And>s. P s \<Longrightarrow> Q () (f s)) \<Longrightarrow> triple P (modify_h f) Q E"
  by (auto simp: triple_def modify_h_def)

lemma triple_weaken:
  "triple P m Q E \<Longrightarrow> (\<And>s. P' s \<Longrightarrow> P s) \<Longrightarrow> (\<And>a s. Q a s \<Longrightarrow> Q' a s) \<Longrightarrow> (\<And>s. E s \<Longrightarrow> E' s) \<Longrightarrow>
   triple P' m Q' E'"
  by (rule tripleI) (meson tripleD_Ok, metis is_ok.simps(1) tripleD_fail)

lemma triple_pre: "(A \<Longrightarrow> triple P m Q E) \<Longrightarrow> triple (\<lambda>s. A \<and> P s) m Q E"
  by (auto simp: triple_def)

text \<open>Words: checked operations agree with the natural numbers.\<close>

lemma unat_lt_2p [simp]: "unat (w :: 'w::len word) < 2 ^ LENGTH('w)"
  by (rule unsigned_less)

lemma checked_add_SomeD:
  "checked_add a b = Some c \<Longrightarrow> unat c = unat a + unat b"
  by (auto simp: checked_add_def unat_word_ariths split: if_splits)

lemma checked_sub_SomeD:
  "checked_sub a b = Some c \<Longrightarrow> unat c = unat a - unat b \<and> b \<le> a"
  by (auto simp: checked_sub_def unat_sub split: if_splits)

text \<open>Evaluation of the checked operations without unary numerals.\<close>

lemma checked_add_code [code]: "checked_add a b = (let c = a + b in if c < a then None else Some c)"
proof -
  have "a + b < a \<longleftrightarrow> \<not> unat a + unat b < 2 ^ LENGTH('a)"
  proof (cases "unat a + unat b < 2 ^ LENGTH('a)")
    case False
    have "unat b < 2 ^ LENGTH('a)" by (rule unat_lt_2p)
    then have "unat a + unat b - 2 ^ LENGTH('a) < unat a" using False by linarith
    then show ?thesis using False by (simp add: word_less_nat_alt unat_plus_if')
  qed (simp add: word_less_nat_alt unat_plus_if')
  then show ?thesis by (simp add: checked_add_def Let_def)
qed

lemma checked_mul_code [code]:
  "checked_mul (a :: 'w::len word) b = (if uint a * uint b < 2 ^ LENGTH('w) then Some (a * b) else None)"
proof -
  have prod: "uint a * uint b = int (unat a * unat b)" by simp
  have pow: "(2 :: int) ^ LENGTH('w) = int (2 ^ LENGTH('w))" by simp
  have "uint a * uint b < 2 ^ LENGTH('w) \<longleftrightarrow> unat a * unat b < 2 ^ LENGTH('w)"
    by (simp only: prod pow of_nat_less_iff)
  then show ?thesis by (simp add: checked_mul_def)
qed

lemma plus_or_panic_OkD: "plus_or_panic a b = Ok c \<Longrightarrow> unat c = unat a + unat b"
  by (auto simp: plus_or_panic_def result_simps dest: checked_add_SomeD)

lemma minus_or_panic_OkD: "minus_or_panic a b = Ok c \<Longrightarrow> unat c = unat a - unat b \<and> b \<le> a"
  by (auto simp: minus_or_panic_def result_simps dest: checked_sub_SomeD)

lemma unat_ucast_up [simp]:
  "LENGTH('a::len) \<le> LENGTH('b::len) \<Longrightarrow> unat (ucast (w :: 'a word) :: 'b word) = unat w"
proof -
  assume "LENGTH('a) \<le> LENGTH('b)"
  then have "unat w < 2 ^ LENGTH('b)"
    by (meson less_le_trans one_le_numeral power_increasing unat_lt_2p)
  then show ?thesis by (simp add: unsigned_ucast_eq take_bit_nat_eq_self)
qed

lemma unat_drop_bit: "unat (drop_bit t (w :: 'w::len word)) = unat w div 2 ^ t"
proof -
  have "unat (drop_bit t w) = drop_bit t (unat w)"
    by (simp only: unsigned_drop_bit_eq take_bit_nat_eq_self [OF unat_lt_2p])
  then show ?thesis by (simp only: drop_bit_eq_div)
qed

lemma plus_or_panic_eq_Ok [result_simps]:
  "plus_or_panic a b = Ok c \<longleftrightarrow> unat c = unat a + unat b"
proof
  assume "unat c = unat a + unat b"
  moreover then have "unat a + unat b < 2 ^ LENGTH('a)" using unat_lt_2p [of c] by simp
  ultimately show "plus_or_panic a b = Ok c"
    by (simp add: plus_or_panic_def checked_add_def expect_def unat_plus_if' word_unat_eq_iff
        unsigned_less flip: take_bit_eq_mod)
qed (rule plus_or_panic_OkD)

lemma plus_or_panic_neq_Err [simp]: "plus_or_panic a b \<noteq> Err e"
  by (simp add: plus_or_panic_def expect_def split: option.split)

lemma plus_or_panic_ok: "unat (a :: 'w::len word) + unat b < 2 ^ LENGTH('w) \<Longrightarrow> plus_or_panic a b = Ok (a + b)"
  by (simp add: plus_or_panic_def checked_add_def expect_def)

text \<open>A loop that adds up unsigned numbers and panics on overflow.\<close>

lemma for_each_sum:
  "for_each (\<lambda>s x. plus_or_panic s (f x)) s xs = Ok t \<longleftrightarrow>
   unat t = unat s + sum_list (map (\<lambda>x. unat (f x)) xs)"
proof (induction xs arbitrary: s)
  case Nil
  then show ?case by (auto simp: word_unat_eq_iff)
next
  case (Cons x xs)
  show ?case (is "?l \<longleftrightarrow> ?r")
  proof
    assume ?l
    then show ?r by (auto simp: result_simps Cons.IH)
  next
    assume r: ?r
    then have "unat s + unat (f x) < 2 ^ LENGTH('a)"
      using unat_lt_2p [of t] by (simp del: unat_lt_2p)
    then have ok: "plus_or_panic s (f x) = Ok (s + f x)" by (rule plus_or_panic_ok)
    show ?l using r by (simp add: ok Cons.IH plus_or_panic_OkD [OF ok])
  qed
qed

lemma length_resize [simp]: "length (resize n x xs) = n"
  by (simp add: resize_def)

lemma nth_resize:
  "i < n \<Longrightarrow> resize n x xs ! i = (if i < length xs then xs ! i else x)"
  by (auto simp: resize_def nth_append)

text \<open>Lists without repetition of naturals below a bound are counted by their sets.\<close>

lemma length_filter_upt: "length (filter P [0..<n]) = card {i. i < n \<and> P i}"
proof -
  have "length (filter P [0..<n]) = card (set (filter P [0..<n]))"
    by (rule distinct_card [symmetric]) simp
  also have "set (filter P [0..<n]) = {i. i < n \<and> P i}" by auto
  finally show ?thesis .
qed

lemma count_ones_word_card: "count_ones_word (w :: 'w::len word) = card {i. i < LENGTH('w) \<and> bit w i}"
  by (simp add: count_ones_word_def length_filter_upt)

lemma trailing_zeros_word_least:
  assumes "(w :: 'w::len word) \<noteq> 0"
  shows "trailing_zeros_word w < LENGTH('w)" (is ?lt)
    and "bit w (trailing_zeros_word w)" (is ?here)
    and "j < trailing_zeros_word w \<Longrightarrow> \<not> bit w j"
proof -
  let ?P = "\<lambda>i. \<not> bit w i" and ?xs = "[0..<LENGTH('w)]"
  let ?n = "length (takeWhile ?P ?xs)"
  have n: "trailing_zeros_word w = ?n" by (simp add: trailing_zeros_word_def)
  have le: "?n \<le> LENGTH('w)" using length_takeWhile_le [of ?P ?xs] by simp
  have below: "\<not> bit w j" if "j < ?n" for j
    using that le takeWhile_nth [OF that] nth_mem [OF that] set_takeWhileD [of _ ?P ?xs]
    by (metis add_0 length_upt nth_upt order_less_le_trans)
  have "?n \<noteq> LENGTH('w)"
  proof
    assume "?n = LENGTH('w)"
    then have "\<not> bit w j" for j using below bit_imp_le_length [of w j] by (metis not_le)
    then have "w = 0" by (simp add: bit_eq_iff)
    with assms show False ..
  qed
  with le have lt: "?n < LENGTH('w)" by simp
  then show ?lt by (simp add: n)
  have "\<not> ?P (?xs ! ?n)" using lt by (intro nth_length_takeWhile) simp
  then show ?here using lt by (simp add: n)
  show "j < trailing_zeros_word w \<Longrightarrow> \<not> bit w j" using below by (simp add: n)
qed

lemma unat_of_nat_small: "n < 2 ^ LENGTH('w) \<Longrightarrow> unat (of_nat n :: 'w::len word) = n"
  by (simp add: unsigned_of_nat take_bit_nat_eq_self)

end
