(* ===== verification/Hash_Value.thy ===== *)
theory Hash_Value
  imports Rust_Prelude
begin

unbundle bit_operations_syntax

text \<open>
  \<^verbatim>\<open>HashValue\<close> of \<^verbatim>\<open>crates/aptos-crypto/src/hash.rs\<close>: the 32 bytes of a digest, read from the most
  significant byte, its bits and nibbles, the bit iterator, the constants built from literals and
  the domain-separated seed of a hasher. The digest function itself (\<^verbatim>\<open>tiny_keccak\<close>) is the
  argument \<open>sha3\<close>.
\<close>

section \<open>Bytes\<close>

text \<open>The field \<^verbatim>\<open>hash: [u8; 32]\<close> of a value, and the value with given bytes.\<close>

definition hv_bytes :: "hash_value \<Rightarrow> u8 list" where
  "hv_bytes h = map (\<lambda>i. ucast (drop_bit (8 * (31 - i)) h)) [0..<32]"

definition hv_new :: "u8 list \<Rightarrow> hash_value" where
  "hv_new bytes = foldl (\<lambda>h b. push_bit 8 h OR ucast b) 0 bytes"

datatype hash_value_parse_error = HashValueParseError

definition hv_from_slice :: "u8 list \<Rightarrow> (hash_value, hash_value_parse_error) result" where
  "hv_from_slice bytes = (if length bytes = 32 then Ok (hv_new bytes) else Err HashValueParseError)"

definition hv_zero :: hash_value where
  "hv_zero = hv_new (replicate 32 0)"

section \<open>Bits and nibbles\<close>

text \<open>Reading past the last byte is an index panic (the debug assertions are off in release builds).\<close>

definition hv_bit :: "hash_value \<Rightarrow> nat \<Rightarrow> (bool, 'e) result" where
  "hv_bit h index =
     (let pos = index div 8; bt = 7 - index mod 8 in
      if pos < 32 then Ok (drop_bit bt (hv_bytes h ! pos) AND 1 \<noteq> 0) else Panic)"

definition hv_nibble :: "hash_value \<Rightarrow> nat \<Rightarrow> (u8, 'e) result" where
  "hv_nibble h index =
     (let pos = index div 2; shift = (if index mod 2 = 0 then 4 else 0) in
      if pos < 32 then Ok (drop_bit shift (hv_bytes h ! pos) AND 0x0F) else Panic)"

definition hv_get_bit :: "hash_value \<Rightarrow> nat \<Rightarrow> bool" where
  "hv_get_bit h index =
     (let pos = index div 8; bt = 7 - index mod 8 in drop_bit bt (hv_bytes h ! pos) AND 1 \<noteq> 0)"

definition hv_iter_bits :: "hash_value \<Rightarrow> bool list" where
  "hv_iter_bits h = map (hv_get_bit h) [0..<256]"

definition hv_put_bit :: "u8 list \<Rightarrow> nat \<times> bool \<Rightarrow> u8 list" where
  "hv_put_bit buf = (\<lambda>(i, b).
     if b then buf[i div 8 := (buf ! (i div 8)) OR push_bit (7 - i mod 8) 1] else buf)"

definition hv_from_bit_iter :: "bool list \<Rightarrow> (hash_value, hash_value_parse_error) result" where
  "hv_from_bit_iter bits =
     (if length bits \<noteq> 256 then Err HashValueParseError
      else Ok (hv_new (foldl hv_put_bit (replicate 32 0) (enumerate 0 bits))))"

definition hv_common_prefix_bits_len :: "hash_value \<Rightarrow> hash_value \<Rightarrow> nat" where
  "hv_common_prefix_bits_len h other =
     length (takeWhile (\<lambda>(x, y). x = y) (zip (hv_iter_bits h) (hv_iter_bits other)))"

section \<open>Hashers and literal hashes\<close>

definition str_bytes :: "string \<Rightarrow> u8 list" where
  "str_bytes s = map of_char s"

definition HASH_PREFIX :: "u8 list" where
  "HASH_PREFIX = str_bytes ''APTOS::''"

definition prefixed_hash :: "(u8 list \<Rightarrow> hash_value) \<Rightarrow> u8 list \<Rightarrow> u8 list" where
  "prefixed_hash sha3 buffer = hv_bytes (sha3 (HASH_PREFIX @ buffer))"

text \<open>\<^verbatim>\<open>DefaultHasher::new\<close>: what the hasher of a type has absorbed before the value.\<close>

definition default_hasher_new :: "(u8 list \<Rightarrow> hash_value) \<Rightarrow> u8 list \<Rightarrow> u8 list" where
  "default_hasher_new sha3 typename =
     (if typename \<noteq> [] then prefixed_hash sha3 typename else [])"

definition create_literal_hash :: "string \<Rightarrow> (hash_value, 'e) result" where
  "create_literal_hash w =
     (let s = str_bytes w in
      and_then (rust_assert (length s \<le> 32)) (\<lambda>_.
      case hv_from_slice (resize 32 0 s) of Ok h \<Rightarrow> Ok h | _ \<Rightarrow> Panic))"

definition literal_hash :: "string \<Rightarrow> hash_value" where
  "literal_hash w = hv_new (resize 32 0 (str_bytes w))"

definition ACCUMULATOR_PLACEHOLDER_HASH :: hash_value where
  "ACCUMULATOR_PLACEHOLDER_HASH = literal_hash ''ACCUMULATOR_PLACEHOLDER_HASH''"

definition SPARSE_MERKLE_PLACEHOLDER_HASH :: hash_value where
  "SPARSE_MERKLE_PLACEHOLDER_HASH = literal_hash ''SPARSE_MERKLE_PLACEHOLDER_HASH''"

definition PRE_GENESIS_BLOCK_ID :: hash_value where
  "PRE_GENESIS_BLOCK_ID = literal_hash ''PRE_GENESIS_BLOCK_ID''"

definition GENESIS_BLOCK_ID :: hash_value where
  "GENESIS_BLOCK_ID = hv_new
    [0x5E, 0x10, 0xBA, 0xD4, 0x5B, 0x35, 0xED, 0x92, 0x9C, 0xD6, 0xD2, 0xC7, 0x09, 0x8B, 0x13,
     0x5D, 0x02, 0xDD, 0x25, 0x9A, 0xE8, 0x8A, 0x8D, 0x09, 0xF4, 0xEB, 0x5F, 0xBA, 0xE9, 0xA6,
     0xF6, 0xE4]"

section \<open>Reading and writing\<close>

lemma length_hv_bytes [simp]: "length (hv_bytes h) = 32"
  by (simp add: hv_bytes_def)

lemma bit_hv_bytes:
  assumes "i < 32" "k < 8"
  shows "bit (hv_bytes h ! i) k \<longleftrightarrow> bit h (8 * (31 - i) + k)"
  using assms by (simp add: hv_bytes_def bit_simps del: upt.simps)

lemma hv_new_snoc: "hv_new (bs @ [b]) = push_bit 8 (hv_new bs) OR ucast b"
  by (simp add: hv_new_def)

text \<open>The bits of a big-endian reading, at any width.\<close>

lemma bit_big_endian:
  fixes bs :: "u8 list"
  assumes "k < LENGTH('w::len)"
  shows "bit (foldl (\<lambda>h b. push_bit 8 h OR ucast b) (0 :: 'w word) bs) k \<longleftrightarrow>
    k < 8 * length bs \<and> bit (rev bs ! (k div 8)) (k mod 8)"
  using assms
proof (induction bs arbitrary: k rule: rev_induct)
  case (snoc b bs)
  show ?case
  proof (cases "k < 8")
    case True
    then show ?thesis using snoc.prems by (simp add: bit_simps)
  next
    case False
    then have nb: "\<not> bit b k" using bit_imp_le_length [of b k] by auto
    obtain j where j: "k = j + 8" using False by (metis le_add_diff_inverse2 not_less)
    have "bit (foldl (\<lambda>h b. push_bit 8 h OR ucast b) (0 :: 'w word) (bs @ [b])) k \<longleftrightarrow>
        bit (foldl (\<lambda>h b. push_bit 8 h OR ucast b) (0 :: 'w word) bs) j"
      using nb False snoc.prems by (simp add: bit_simps j)
    then show ?thesis using snoc.IH [of j] snoc.prems div_add_self2 [of 8 j] by (simp add: j)
  qed
qed simp

lemma bit_hv_new:
  assumes "k < 256"
  shows "bit (hv_new bs) k \<longleftrightarrow> k < 8 * length bs \<and> bit (rev bs ! (k div 8)) (k mod 8)"
  using assms bit_big_endian [where 'w = 256] by (simp add: hv_new_def)

lemma hv_new_bytes [simp]: "hv_new (hv_bytes h) = h"
proof (rule bit_eqI)
  fix n
  assume "possible_bit TYPE(256 word) n"
  then have n: "n < 256" by (simp add: possible_bit_word)
  then have d: "n div 8 < 32" by simp
  have "bit (hv_new (hv_bytes h)) n \<longleftrightarrow> bit (rev (hv_bytes h) ! (n div 8)) (n mod 8)"
    using n by (simp add: bit_hv_new)
  also have "\<dots> \<longleftrightarrow> bit (hv_bytes h ! (31 - n div 8)) (n mod 8)"
    using d by (simp add: rev_nth)
  also have "\<dots> \<longleftrightarrow> bit h (8 * (31 - (31 - n div 8)) + n mod 8)"
    using d by (intro bit_hv_bytes) auto
  also have "8 * (31 - (31 - n div 8)) + n mod 8 = n"
    using d by simp
  finally show "bit (hv_new (hv_bytes h)) n \<longleftrightarrow> bit h n" .
qed

lemma hv_bytes_new:
  assumes len: "length bs = 32"
  shows "hv_bytes (hv_new bs) = bs"
proof (rule nth_equalityI)
  show "length (hv_bytes (hv_new bs)) = length bs" using len by simp
  fix i
  assume "i < length (hv_bytes (hv_new bs))"
  then have i: "i < 32" by simp
  show "hv_bytes (hv_new bs) ! i = bs ! i"
  proof (rule bit_word_eqI)
    fix k
    assume "k < LENGTH(8)"
    then have k: "k < 8" by simp
    have "bit (hv_bytes (hv_new bs) ! i) k \<longleftrightarrow> bit (hv_new bs) (8 * (31 - i) + k)"
      using i k by (rule bit_hv_bytes)
    also have "\<dots> \<longleftrightarrow> bit (rev bs ! (31 - i)) k"
      using i k len by (subst bit_hv_new) auto
    also have "rev bs ! (31 - i) = bs ! i"
      using i len by (simp add: rev_nth)
    finally show "bit (hv_bytes (hv_new bs) ! i) k \<longleftrightarrow> bit (bs ! i) k" .
  qed
qed

lemma and_one_neq_0: "drop_bit n (w :: 'w::len word) AND 1 \<noteq> 0 \<longleftrightarrow> bit w n"
  by (simp add: and_one_eq bit_iff_odd_drop_bit odd_iff_mod_2_eq_one)

lemma hv_get_bit_iff: "i < 256 \<Longrightarrow> hv_get_bit h i \<longleftrightarrow> bit h (255 - i)"
proof -
  assume i: "i < 256"
  have "hv_get_bit h i \<longleftrightarrow> bit (hv_bytes h ! (i div 8)) (7 - i mod 8)"
    by (simp only: hv_get_bit_def Let_def and_one_neq_0)
  also have "\<dots> \<longleftrightarrow> bit h (8 * (31 - i div 8) + (7 - i mod 8))"
    using i by (intro bit_hv_bytes) auto
  also have "8 * (31 - i div 8) + (7 - i mod 8) = 255 - i"
    using i div_mult_mod_eq [of i 8] mod_less_divisor [of 8 i] by linarith
  finally show ?thesis .
qed


lemma hv_bit_eq: "hv_bit h i = (if i < 256 then Ok (bit h (255 - i)) else Panic)"
proof (cases "i < 256")
  case True
  then show ?thesis
    using hv_get_bit_iff [OF True, of h] by (simp add: hv_bit_def hv_get_bit_def Let_def)
next
  case False
  then have "\<not> i div 8 < 32" by simp
  then show ?thesis using False by (simp add: hv_bit_def Let_def)
qed

lemma length_hv_iter_bits [simp]: "length (hv_iter_bits h) = 256"
  by (simp add: hv_iter_bits_def)

lemma nth_hv_iter_bits: "i < 256 \<Longrightarrow> hv_iter_bits h ! i \<longleftrightarrow> bit h (255 - i)"
  by (simp add: hv_iter_bits_def hv_get_bit_iff del: upt.simps)

lemma hv_iter_bits_inject: "hv_iter_bits h = hv_iter_bits h' \<longleftrightarrow> h = h'"
proof
  assume eq: "hv_iter_bits h = hv_iter_bits h'"
  show "h = h'"
  proof (rule bit_word_eqI)
    fix n
    assume "n < LENGTH(256)"
    then have n: "n \<le> 255" by simp
    have "hv_iter_bits h ! (255 - n) \<longleftrightarrow> hv_iter_bits h' ! (255 - n)" by (simp add: eq)
    then show "bit h n \<longleftrightarrow> bit h' n" using n by (simp add: nth_hv_iter_bits)
  qed
qed simp

text \<open>The buffer of \<^verbatim>\<open>from_bit_iter\<close> after the first bits: exactly those bits are in it.\<close>

lemma length_hv_put_bits: "length (foldl hv_put_bit buf ps) = length buf"
  by (induction ps arbitrary: buf) (auto simp: hv_put_bit_def)

lemma bit_hv_put_bits:
  assumes "length bits \<le> 256" "j < 32" "k < 8"
  shows "bit (foldl hv_put_bit (replicate 32 0) (enumerate 0 bits) ! j) k \<longleftrightarrow>
    8 * j + (7 - k) < length bits \<and> bits ! (8 * j + (7 - k))"
  using assms(1)
proof (induction bits rule: rev_induct)
  case Nil
  then show ?case using assms(2) by simp
next
  case (snoc b bits)
  define buf where "buf = foldl hv_put_bit (replicate 32 0) (enumerate 0 bits)"
  define n where "n = length bits"
  have len: "length buf = 32" by (simp add: buf_def length_hv_put_bits)
  have n: "n < 256" using snoc.prems by (simp add: n_def)
  have step: "foldl hv_put_bit (replicate 32 0) (enumerate 0 (bits @ [b])) = hv_put_bit buf (n, b)"
    by (simp add: buf_def n_def enumerate_append_eq)
  have IH: "bit (buf ! j) k \<longleftrightarrow> 8 * j + (7 - k) < n \<and> bits ! (8 * j + (7 - k))"
    using snoc by (simp add: buf_def n_def)
  have pos: "n = 8 * j + (7 - k) \<longleftrightarrow> j = n div 8 \<and> k = 7 - n mod 8"
  proof
    assume "n = 8 * j + (7 - k)"
    then have "n div 8 = j" "n mod 8 = 7 - k" by auto
    then show "j = n div 8 \<and> k = 7 - n mod 8" using assms(3) by simp
  next
    assume "j = n div 8 \<and> k = 7 - n mod 8"
    then show "n = 8 * j + (7 - k)"
      using div_mult_mod_eq [of n 8] mod_less_divisor [of 8 n] by linarith
  qed
  have "bit (hv_put_bit buf (n, b) ! j) k \<longleftrightarrow> bit (buf ! j) k \<or> b \<and> j = n div 8 \<and> k = 7 - n mod 8"
    using assms(2,3) len n by (auto simp: hv_put_bit_def nth_list_update bit_simps)
  then show ?case
    unfolding step IH by (auto simp: nth_append n_def [symmetric] pos [symmetric])
qed

lemma hv_from_bit_iter_iter_bits: "hv_from_bit_iter (hv_iter_bits h) = Ok h"
proof -
  let ?buf = "foldl hv_put_bit (replicate 32 0) (enumerate 0 (hv_iter_bits h))"
  have "?buf = hv_bytes h"
  proof (rule nth_equalityI)
    show "length ?buf = length (hv_bytes h)" by (simp add: length_hv_put_bits)
    fix j
    assume "j < length ?buf"
    then have j: "j < 32" by (simp add: length_hv_put_bits)
    show "?buf ! j = hv_bytes h ! j"
    proof (rule bit_word_eqI)
      fix k
      assume "k < LENGTH(8)"
      then have k: "k < 8" by simp
      have i: "8 * j + (7 - k) < 256" using j k by linarith
      have "255 - (8 * j + (7 - k)) = 8 * (31 - j) + k" using j k by linarith
      then show "bit (?buf ! j) k \<longleftrightarrow> bit (hv_bytes h ! j) k"
        using bit_hv_put_bits [of "hv_iter_bits h" j k] j k i
        by (simp add: nth_hv_iter_bits bit_hv_bytes)
    qed
  qed
  then show ?thesis by (simp add: hv_from_bit_iter_def)
qed

lemma hv_iter_bits_from_bit_iter:
  assumes "hv_from_bit_iter bits = Ok h"
  shows "hv_iter_bits h = bits"
proof -
  let ?buf = "foldl hv_put_bit (replicate 32 0) (enumerate 0 bits)"
  have len: "length bits = 256" and h: "h = hv_new ?buf"
    using assms by (auto simp: hv_from_bit_iter_def split: if_splits)
  have bytes: "hv_bytes h = ?buf" unfolding h by (rule hv_bytes_new) (simp add: length_hv_put_bits)
  show ?thesis
  proof (rule nth_equalityI)
    show "length (hv_iter_bits h) = length bits" using len by simp
    fix i
    assume "i < length (hv_iter_bits h)"
    then have i: "i < 256" by simp
    then have d: "i div 8 < 32" and m: "7 - i mod 8 < 8" by auto
    have split: "8 * (i div 8) + (7 - (7 - i mod 8)) = i"
      using div_mult_mod_eq [of i 8] mod_less_divisor [of 8 i] by linarith
    have "hv_iter_bits h ! i \<longleftrightarrow> bit (hv_bytes h ! (i div 8)) (7 - i mod 8)"
      using i by (simp add: hv_iter_bits_def hv_get_bit_def Let_def and_one_neq_0 del: upt.simps)
    then show "hv_iter_bits h ! i \<longleftrightarrow> bits ! i"
      using bit_hv_put_bits [OF _ d m, of bits] len i by (simp add: bytes split)
  qed
qed

lemma create_literal_hash_Ok:
  "length w \<le> 32 \<Longrightarrow> create_literal_hash w = Ok (literal_hash w)"
  by (simp add: create_literal_hash_def literal_hash_def hv_from_slice_def rust_assert_def
      str_bytes_def Let_def)

text \<open>The common prefix: the bits before it agree, and it ends at the first bit that differs.\<close>

lemma takeWhile_zip_agree:
  "i < length (takeWhile (\<lambda>(x, y). x = y) (zip xs ys)) \<Longrightarrow> xs ! i = ys ! i"
proof -
  let ?w = "takeWhile (\<lambda>(x, y). x = y) (zip xs ys)"
  assume i: "i < length ?w"
  then have "i < length (zip xs ys)" using length_takeWhile_le order_less_le_trans by blast
  then have "?w ! i = (xs ! i, ys ! i)" using i by (simp add: takeWhile_nth)
  then show ?thesis using nth_mem [OF i] set_takeWhileD [of "?w ! i"] by fastforce
qed

lemma takeWhile_zip_differ:
  assumes "length (takeWhile (\<lambda>(x, y). x = y) (zip xs ys)) < length (zip xs ys)" (is "?n < _")
  shows "xs ! ?n \<noteq> ys ! ?n"
  using nth_length_takeWhile [OF assms] assms by simp


section \<open>Properties\<close>

text \<open>
  \<^verbatim>\<open>from_bit_iter\<close> inverts \<^verbatim>\<open>iter_bits\<close>: the bits of a hash rebuild it, and it accepts exactly the
  sequences that are the bits of the hash it returns.
\<close>

theorem hash_bits_roundtrip:
  "hv_from_bit_iter (hv_iter_bits h) = Ok h \<and>
   (hv_from_bit_iter bits = Ok h \<longleftrightarrow> bits = hv_iter_bits h)"
  using hv_from_bit_iter_iter_bits hv_iter_bits_from_bit_iter by auto

lemma hash_common_prefix_facts:
  fixes h h' :: hash_value
  defines "n \<equiv> hv_common_prefix_bits_len h h'"
  shows "n \<le> 256" and "i < n \<Longrightarrow> hv_bit h i = hv_bit h' i"
    and "n < 256 \<Longrightarrow> hv_bit h n \<noteq> hv_bit h' n" and "n = 256 \<longleftrightarrow> h = h'"
proof -
  let ?z = "zip (hv_iter_bits h) (hv_iter_bits h')"
  have len: "length ?z = 256" by simp
  have n: "n = length (takeWhile (\<lambda>(x, y). x = y) ?z)"
    by (simp add: n_def hv_common_prefix_bits_len_def)
  show le: "n \<le> 256" using length_takeWhile_le [of _ ?z] len unfolding n by metis
  have agree: "hv_iter_bits h ! i = hv_iter_bits h' ! i" if "i < n" for i
    using that takeWhile_zip_agree unfolding n by blast
  show "hv_bit h i = hv_bit h' i" if "i < n"
    using agree [OF that] that le by (simp add: hv_bit_eq nth_hv_iter_bits)
  show "hv_bit h n \<noteq> hv_bit h' n" if "n < 256"
    using takeWhile_zip_differ [of "hv_iter_bits h" "hv_iter_bits h'"] that len
    by (simp add: hv_bit_eq nth_hv_iter_bits flip: n)
  show "n = 256 \<longleftrightarrow> h = h'"
  proof
    assume "n = 256"
    then show "h = h'" using agree by (intro hv_iter_bits_inject [THEN iffD1] nth_equalityI) auto
  next
    assume "h = h'"
    then show "n = 256" using takeWhile_zip_differ [of "hv_iter_bits h" "hv_iter_bits h'"] le len
      by (metis le_neq_implies_less n)
  qed
qed

text \<open>
  The common prefix of two hashes: all bits before its length agree, the bit at its length (when
  there is one) differs, and it has full length exactly for equal hashes.
\<close>

theorem hash_common_prefix:
  "hv_common_prefix_bits_len h h' \<le> 256 \<and>
   (\<forall>i < hv_common_prefix_bits_len h h'. hv_bit h i = (hv_bit h' i :: (bool, unit) result)) \<and>
   (hv_common_prefix_bits_len h h' = 256 \<longleftrightarrow> h = h') \<and>
   (h \<noteq> h' \<longrightarrow>
      hv_bit h (hv_common_prefix_bits_len h h') \<noteq>
      (hv_bit h' (hv_common_prefix_bits_len h h') :: (bool, unit) result))"
  using hash_common_prefix_facts [where h = h and h' = h'] by (metis le_neq_implies_less)

theorem hash_common_prefix_witness:
  "hv_bit 1 (hv_common_prefix_bits_len 1 0) \<noteq> (hv_bit 0 (hv_common_prefix_bits_len 1 0) :: (bool, unit) result)"
  using hash_common_prefix [of 1 0] by simp

end
