(* ===== verification/Bls.thy ===== *)
theory Bls
  imports Hash_Value
begin

text \<open>
  Hashing and signing of structured messages: \<^verbatim>\<open>CryptoHash\<close> and \<^verbatim>\<open>signing_message\<close>
  (\<^verbatim>\<open>crates/aptos-crypto/src/traits.rs\<close>, the derive macros of \<^verbatim>\<open>aptos-crypto-derive\<close>) and the
  BLS12-381 wrappers of \<^verbatim>\<open>crates/aptos-crypto/src/bls12381\<close>.

  What the wrappers call is outside the repository: the digest (\<^verbatim>\<open>tiny_keccak\<close>), the BCS encoder
  and \<^verbatim>\<open>blst\<close> are the fields of the record \<open>crypto\<close>, an argument of every definition that hashes,
  signs or verifies. A value to be hashed is handed to BCS in serde's data model, \<open>serde\<close>; the
  \<^verbatim>\<open>ser_\<close> functions of the component theories are the derived \<^verbatim>\<open>Serialize\<close> implementations.
\<close>

section \<open>Messages\<close>

datatype serde =
    SBool bool
  | SU8 u8
  | SU16 u16
  | SU32 u32
  | SU64 u64
  | SU128 u128
  | SFixed hash_value
  | SBytes "u8 list"
  | SNone
  | SSome serde
  | SSeq "serde list"
  | SStruct "serde list"
  | SVariant nat "serde list"

fun ser_option :: "('a \<Rightarrow> serde) \<Rightarrow> 'a option \<Rightarrow> serde" where
  "ser_option f None = SNone"
| "ser_option f (Some a) = SSome (f a)"

definition ser_seq :: "('a \<Rightarrow> serde) \<Rightarrow> 'a list \<Rightarrow> serde" where
  "ser_seq f xs = SSeq (map f xs)"

text \<open>A type with the derived hasher: its serde name and its value.\<close>

datatype message = Message (type_name: string) (contents: serde)

record crypto =
  sha3_256 :: "u8 list \<Rightarrow> hash_value"
  bcs_to_bytes :: "serde \<Rightarrow> u8 list option"
  blst_sign :: "bls_private_key \<Rightarrow> u8 list \<Rightarrow> bls_signature"
  blst_sk_to_pk :: "bls_private_key \<Rightarrow> bls_public_key"
  blst_verify :: "bls_signature \<Rightarrow> u8 list \<Rightarrow> bls_public_key \<Rightarrow> bool"
  blst_aggregate_verify :: "bls_signature \<Rightarrow> u8 list list \<Rightarrow> bls_public_key list \<Rightarrow> bool"
  blst_aggregate_sigs :: "bls_signature list \<Rightarrow> bls_signature option"
  blst_aggregate_pks :: "bls_public_key list \<Rightarrow> bls_public_key option"

datatype crypto_material_error = SerializationError | BlstError

section \<open>Hashing\<close>

definition hasher_seed :: "crypto \<Rightarrow> string \<Rightarrow> u8 list" where
  "hasher_seed c name = prefixed_hash (sha3_256 c) (str_bytes name)"

text \<open>The derived \<^verbatim>\<open>CryptoHash::hash\<close>: a failure of BCS is a panic.\<close>

definition crypto_hash :: "crypto \<Rightarrow> message \<Rightarrow> (hash_value, 'e) result" where
  "crypto_hash c m =
     and_then (expect (bcs_to_bytes c (contents m))) (\<lambda>bytes.
     Ok (sha3_256 c (default_hasher_new (sha3_256 c) (str_bytes (type_name m)) @ bytes)))"

definition signing_message :: "crypto \<Rightarrow> message \<Rightarrow> (u8 list, crypto_material_error) result" where
  "signing_message c m =
     and_then (ok_or (bcs_to_bytes c (contents m)) SerializationError) (\<lambda>bytes.
     Ok (hasher_seed c (type_name m) @ bytes))"

section \<open>Keys and signatures\<close>

definition sk_sign :: "crypto \<Rightarrow> bls_private_key \<Rightarrow> message \<Rightarrow> (bls_signature, crypto_material_error) result" where
  "sk_sign c sk m = and_then (signing_message c m) (\<lambda>bytes. Ok (blst_sign c sk bytes))"

definition sk_public_key :: "crypto \<Rightarrow> bls_private_key \<Rightarrow> bls_public_key" where
  "sk_public_key c sk = blst_sk_to_pk c sk"

definition sig_verify_arbitrary_msg ::
  "crypto \<Rightarrow> bls_signature \<Rightarrow> u8 list \<Rightarrow> bls_public_key \<Rightarrow> (unit, crypto_material_error) result" where
  "sig_verify_arbitrary_msg c sig bytes pk = (if blst_verify c sig bytes pk then Ok () else Err BlstError)"

definition sig_verify ::
  "crypto \<Rightarrow> bls_signature \<Rightarrow> message \<Rightarrow> bls_public_key \<Rightarrow> (unit, crypto_material_error) result" where
  "sig_verify c sig m pk =
     and_then (signing_message c m) (\<lambda>bytes. sig_verify_arbitrary_msg c sig bytes pk)"

definition verify_struct_signature ::
  "crypto \<Rightarrow> bls_public_key \<Rightarrow> message \<Rightarrow> bls_signature \<Rightarrow> (unit, crypto_material_error) result" where
  "verify_struct_signature c pk m sig = sig_verify c sig m pk"

definition sig_verify_aggregate_arbitrary_msg ::
  "crypto \<Rightarrow> bls_signature \<Rightarrow> u8 list list \<Rightarrow> bls_public_key list \<Rightarrow> (unit, crypto_material_error) result" where
  "sig_verify_aggregate_arbitrary_msg c sig msgs pks =
     (if blst_aggregate_verify c sig msgs pks then Ok () else Err BlstError)"

definition sig_verify_aggregate ::
  "crypto \<Rightarrow> bls_signature \<Rightarrow> message list \<Rightarrow> bls_public_key list \<Rightarrow> (unit, crypto_material_error) result" where
  "sig_verify_aggregate c sig msgs pks =
     and_then
       (for_each (\<lambda>acc m. and_then (signing_message c m) (\<lambda>bytes. Ok (acc @ [bytes]))) [] msgs)
       (\<lambda>messages. sig_verify_aggregate_arbitrary_msg c sig messages pks)"

definition sig_aggregate :: "crypto \<Rightarrow> bls_signature list \<Rightarrow> (bls_signature, crypto_material_error) result" where
  "sig_aggregate c sigs = ok_or (blst_aggregate_sigs c sigs) BlstError"

definition pk_aggregate :: "crypto \<Rightarrow> bls_public_key list \<Rightarrow> (bls_public_key, crypto_material_error) result" where
  "pk_aggregate c pks = ok_or (blst_aggregate_pks c pks) BlstError"

text \<open>\<^verbatim>\<open>types/src/validator_signer.rs\<close>.\<close>

record validator_signer =
  vs_author :: author
  vs_private_key :: bls_private_key

definition signer_sign :: "crypto \<Rightarrow> validator_signer \<Rightarrow> message \<Rightarrow> (bls_signature, crypto_material_error) result" where
  "signer_sign c signer m = sk_sign c (vs_private_key signer) m"

definition signer_public_key :: "crypto \<Rightarrow> validator_signer \<Rightarrow> bls_public_key" where
  "signer_public_key c signer = sk_public_key c (vs_private_key signer)"

section \<open>Lemmas\<close>

lemma ser_option_inject [simp]:
  "inj f \<Longrightarrow> ser_option f x = ser_option f y \<longleftrightarrow> x = y"
  by (cases x; cases y) (auto dest: injD)

lemma ser_seq_inject [simp]: "inj f \<Longrightarrow> ser_seq f xs = ser_seq f ys \<longleftrightarrow> xs = ys"
  by (simp add: ser_seq_def inj_map_eq_map)

text \<open>The hash of a message, when it can be encoded.\<close>

definition message_hash :: "crypto \<Rightarrow> message \<Rightarrow> hash_value option" where
  "message_hash c m =
     map_option (\<lambda>bytes. sha3_256 c (default_hasher_new (sha3_256 c) (str_bytes (type_name m)) @ bytes))
       (bcs_to_bytes c (contents m))"

lemma crypto_hash_eq_Ok [result_simps]: "crypto_hash c m = Ok h \<longleftrightarrow> message_hash c m = Some h"
  by (cases "bcs_to_bytes c (contents m)") (auto simp: crypto_hash_def message_hash_def expect_def)

lemma for_each_collect_Ok:
  "for_each (\<lambda>acc m. and_then (f m) (\<lambda>b. Ok (acc @ [b]))) acc ms = Ok bs \<longleftrightarrow>
   (\<exists>cs. bs = acc @ cs \<and> list_all2 (\<lambda>m b. f m = Ok b) ms cs)"
proof (induction ms arbitrary: acc)
  case (Cons m ms)
  show ?case
    by (auto simp: and_then_eq_Ok Cons.IH list_all2_Cons1)
qed auto

lemma sig_verify_eq_Ok:
  "sig_verify c sig m pk = Ok u \<longleftrightarrow>
   (\<exists>bytes. signing_message c m = Ok bytes \<and> blst_verify c sig bytes pk)"
  by (auto simp: sig_verify_def sig_verify_arbitrary_msg_def and_then_eq_Ok split: if_splits)

lemma sig_verify_aggregate_eq_Ok:
  "sig_verify_aggregate c sig msgs pks = Ok u \<longleftrightarrow>
   (\<exists>bs. list_all2 (\<lambda>m b. signing_message c m = Ok b) msgs bs \<and> blst_aggregate_verify c sig bs pks)"
  by (auto simp: sig_verify_aggregate_def sig_verify_aggregate_arbitrary_msg_def and_then_eq_Ok
      for_each_collect_Ok split: if_splits)

lemma signing_message_neq_Panic: "signing_message c m \<noteq> Panic"
  by (simp add: signing_message_def and_then_eq_Panic ok_or_neq_Panic)

lemma sig_verify_neq_Panic: "sig_verify c sig m pk \<noteq> Panic"
  by (simp add: sig_verify_def sig_verify_arbitrary_msg_def and_then_eq_Panic signing_message_neq_Panic)

end
