(* ===== verification/Bit_Vec.thy ===== *)
theory Bit_Vec
  imports Rust_Prelude
begin

text \<open>
  The bit vector of \<^verbatim>\<open>crates/aptos-bitvec/src/lib.rs\<close>: a vector of byte-sized buckets, read from the
  most significant bit of the first byte, that records which validators contributed to an
  aggregated signature. The lemmas relate every operation to the set \<open>ones\<close> of positions that are
  set, the abstraction the clients reason with.
\<close>

section \<open>The structure and its operations\<close>

definition BUCKET_SIZE :: nat where
  "BUCKET_SIZE = 8"

definition MAX_BUCKETS :: nat where
  "MAX_BUCKETS = 8192"

record bit_vec =
  inner :: "u8 list"

definition bv_default :: bit_vec where
  "bv_default = \<lparr>inner = []\<rparr>"

definition required_buckets :: "u16 \<Rightarrow> nat" where
  "required_buckets num_bits =
     (case checked_sub num_bits 1 of
        None \<Rightarrow> 0
      | Some pos \<Rightarrow> unat pos div BUCKET_SIZE + 1)"

definition with_num_bits :: "u16 \<Rightarrow> bit_vec" where
  "with_num_bits num_bits = \<lparr>inner = replicate (required_buckets num_bits) 0\<rparr>"

definition bv_set :: "bit_vec \<Rightarrow> u16 \<Rightarrow> bit_vec" where
  "bv_set bv pos =
     (let bucket = unat pos div BUCKET_SIZE;
          xs = (if length (inner bv) \<le> bucket then resize (bucket + 1) 0 (inner bv) else inner bv);
          bucket_pos = unat pos - bucket * BUCKET_SIZE
      in bv\<lparr>inner := xs[bucket := xs ! bucket OR drop_bit bucket_pos 0x80]\<rparr>)"

definition is_set :: "bit_vec \<Rightarrow> u16 \<Rightarrow> bool" where
  "is_set bv pos =
     (let bucket = unat pos div BUCKET_SIZE
      in if length (inner bv) \<le> bucket then False
         else let bucket_pos = unat pos - bucket * BUCKET_SIZE
              in inner bv ! bucket AND drop_bit bucket_pos 0x80 \<noteq> 0)"

definition all_zeros :: "bit_vec \<Rightarrow> bool" where
  "all_zeros bv = list_all (\<lambda>byte. byte = 0) (inner bv)"

definition count_ones :: "bit_vec \<Rightarrow> nat" where
  "count_ones bv = sum_list (map count_ones_word (inner bv))"

definition last_set_bit :: "bit_vec \<Rightarrow> u16 option" where
  "last_set_bit bv =
     map_option
       (\<lambda>(i, byte). of_nat (8 * (length (inner bv) - i) - trailing_zeros_word byte - 1))
       (find (\<lambda>(i, byte). byte \<noteq> 0) (List.enumerate 0 (rev (inner bv))))"

definition iter_ones :: "bit_vec \<Rightarrow> nat list" where
  "iter_ones bv = filter (\<lambda>idx. is_set bv (of_nat idx)) [0..<length (inner bv) * BUCKET_SIZE]"

definition num_buckets :: "bit_vec \<Rightarrow> nat" where
  "num_buckets bv = length (inner bv)"

definition bitand :: "bit_vec \<Rightarrow> bit_vec \<Rightarrow> bit_vec" where
  "bitand a b =
     (let len = min (length (inner a)) (length (inner b))
      in \<lparr>inner = map (\<lambda>i. inner a ! i AND inner b ! i) [0..<len]\<rparr>)"

definition bucket_or_zero :: "u8 list \<Rightarrow> nat \<Rightarrow> u8" where
  "bucket_or_zero xs i = (if i < length xs then xs ! i else 0)"

definition bitor :: "bit_vec \<Rightarrow> bit_vec \<Rightarrow> bit_vec" where
  "bitor a b =
     (let len = max (length (inner a)) (length (inner b))
      in \<lparr>inner = map (\<lambda>i. bucket_or_zero (inner a) i OR bucket_or_zero (inner b) i) [0..<len]\<rparr>)"

definition bv_from_iter :: "u8 list \<Rightarrow> bit_vec" where
  "bv_from_iter bits = foldl (\<lambda>bv b. bv_set bv (ucast b)) bv_default bits"

definition bv_from_bytes :: "u8 list \<Rightarrow> (bit_vec, string) result" where
  "bv_from_bytes raw_bytes =
     and_then (rust_assert (length raw_bytes \<le> MAX_BUCKETS)) (\<lambda>_. Ok \<lparr>inner = raw_bytes\<rparr>)"

definition bv_into_bytes :: "bit_vec \<Rightarrow> u8 list" where
  "bv_into_bytes bv = inner bv"

fun set_bools :: "bit_vec \<Rightarrow> (nat \<times> bool) list \<Rightarrow> bit_vec" where
  "set_bools bv [] = bv"
| "set_bools bv ((index, b) # rest) =
     set_bools (if b then bv_set bv (of_nat index) else bv) rest"

definition bv_from_bools :: "bool list \<Rightarrow> (bit_vec, string) result" where
  "bv_from_bools bits =
     and_then (rust_assert (length bits \<le> MAX_BUCKETS * BUCKET_SIZE))
       (\<lambda>_. Ok (set_bools (with_num_bits (of_nat (length bits))) (List.enumerate 0 bits)))"

definition bv_deserialize :: "u8 list \<Rightarrow> (bit_vec, string) result" where
  "bv_deserialize v =
     (if length v > MAX_BUCKETS then Err ''BitVec too long'' else Ok \<lparr>inner = v\<rparr>)"

section \<open>The set of positions\<close>

text \<open>The representation invariant: positions fit in a \<^verbatim>\<open>u16\<close>.\<close>

definition wf_bv :: "bit_vec \<Rightarrow> bool" where
  "wf_bv bv \<longleftrightarrow> length (inner bv) \<le> MAX_BUCKETS"

definition ones :: "bit_vec \<Rightarrow> nat set" where
  "ones bv = {p. p div 8 < length (inner bv) \<and> bit (inner bv ! (p div 8)) (7 - p mod 8)}"

lemma bit_bucket_mask: "k < 8 \<Longrightarrow> bit (drop_bit k (0x80 :: u8)) i \<longleftrightarrow> i = 7 - k"
proof -
  have eq: "(0x80 :: u8) = 2 ^ 7" by simp
  have "bit (0x80 :: u8) (k + i) \<longleftrightarrow> k + i = 7"
    unfolding eq by (simp only: bit_exp_iff) auto
  then show "k < 8 \<Longrightarrow> ?thesis" by (simp only: bit_drop_bit_eq o_def) linarith
qed

lemma and_bucket_mask: "k < 8 \<Longrightarrow> (x AND drop_bit k (0x80 :: u8) \<noteq> 0) \<longleftrightarrow> bit x (7 - k)"
  unfolding bit_eq_iff [of "x AND drop_bit k 0x80" 0]
  by (auto simp: bit_and_iff bit_bucket_mask)

lemma or_bucket_mask: "k < 8 \<Longrightarrow> bit (x OR drop_bit k (0x80 :: u8)) i \<longleftrightarrow> bit x i \<or> i = 7 - k"
  by (simp add: bit_or_iff bit_bucket_mask)

lemma is_set_iff: "is_set bv pos \<longleftrightarrow> unat pos \<in> ones bv"
  by (simp add: is_set_def ones_def BUCKET_SIZE_def Let_def and_bucket_mask
      minus_div_mult_eq_mod not_le)

lemma finite_ones [simp]: "finite (ones bv)"
proof (rule finite_subset)
  show "ones bv \<subseteq> {..< 8 * length (inner bv)}" by (auto simp: ones_def)
qed simp

lemma ones_less: "p \<in> ones bv \<Longrightarrow> p < 8 * length (inner bv)"
  by (auto simp: ones_def)

lemma ones_less_u16: "wf_bv bv \<Longrightarrow> p \<in> ones bv \<Longrightarrow> p < 65536"
  using ones_less [of p bv] by (simp add: wf_bv_def MAX_BUCKETS_def)

lemma bits_in_byte: "p mod 8 \<noteq> q mod 8 \<longleftrightarrow> 7 - p mod 8 \<noteq> 7 - q mod (8 :: nat)"
proof -
  have "p mod 8 < 8" "q mod 8 < 8" by simp_all
  then show ?thesis by linarith
qed

lemma same_position:
  assumes "p div 8 = q div 8" and "7 - p mod 8 = 7 - q mod (8 :: nat)"
  shows "p = q"
proof -
  have "p mod 8 = q mod 8" using assms(2) bits_in_byte [of p q] by simp
  with assms(1) have "p div 8 * 8 + p mod 8 = q div 8 * 8 + q mod 8" by simp
  then show ?thesis by (simp only: div_mult_mod_eq)
qed

lemma ones_set: "ones (bv_set bv pos) = insert (unat pos) (ones bv)"
proof -
  define b where "b = unat pos div 8"
  define xs where "xs = (if length (inner bv) \<le> b then resize (b + 1) 0 (inner bv) else inner bv)"
  have inner': "inner (bv_set bv pos) = xs[b := xs ! b OR drop_bit (unat pos mod 8) 0x80]"
    by (simp add: bv_set_def BUCKET_SIZE_def Let_def b_def xs_def minus_div_mult_eq_mod)
  have b: "b < length xs" by (auto simp: xs_def)
  have get: "(i < length xs \<and> bit (xs ! i) k) \<longleftrightarrow> (i < length (inner bv) \<and> bit (inner bv ! i) k)" for i k
    by (auto simp: xs_def nth_resize split: if_splits)
  have "q \<in> ones (bv_set bv pos) \<longleftrightarrow> q = unat pos \<or> q \<in> ones bv" for q
  proof (cases "q div 8 = b")
    case True
    then have "q \<in> ones (bv_set bv pos) \<longleftrightarrow>
        bit (xs ! b) (7 - q mod 8) \<or> 7 - q mod 8 = 7 - unat pos mod 8"
      using b by (simp add: ones_def inner' or_bucket_mask)
    moreover have "bit (xs ! b) (7 - q mod 8) \<longleftrightarrow> q \<in> ones bv"
      using get [of b "7 - q mod 8"] b True by (simp add: ones_def)
    moreover have "7 - q mod 8 = 7 - unat pos mod 8 \<longleftrightarrow> q = unat pos"
      using same_position [of q "unat pos"] True by (metis b_def)
    ultimately show ?thesis by blast
  next
    case False
    then have "q \<noteq> unat pos" by (auto simp: b_def)
    moreover have "q \<in> ones (bv_set bv pos) \<longleftrightarrow> q \<in> ones bv"
      using False get [of "q div 8" "7 - q mod 8"] by (simp add: ones_def inner')
    ultimately show ?thesis by simp
  qed
  then show ?thesis by auto
qed

lemma wf_bv_set: "wf_bv bv \<Longrightarrow> wf_bv (bv_set bv pos)"
proof -
  have "unat pos < 2 ^ LENGTH(16)" by (rule unsigned_less)
  then have "unat pos div 8 < 8192" by simp
  then show "wf_bv bv \<Longrightarrow> ?thesis"
    by (auto simp: wf_bv_def bv_set_def BUCKET_SIZE_def MAX_BUCKETS_def Let_def)
qed

lemma num_buckets_set: "unat pos < 8 * num_buckets bv \<Longrightarrow> num_buckets (bv_set bv pos) = num_buckets bv"
  by (auto simp: bv_set_def Let_def BUCKET_SIZE_def num_buckets_def)

lemma ones_default [simp]: "ones bv_default = {}"
  by (simp add: ones_def bv_default_def)

lemma ones_with_num_bits [simp]: "ones (with_num_bits n) = {}"
  by (simp add: ones_def with_num_bits_def)

lemma required_buckets_le: "required_buckets n \<le> MAX_BUCKETS"
proof -
  have "unat (n - 1) < 2 ^ LENGTH(16)" by (rule unsigned_less)
  then have "unat (n - 1) div 8 < 8192" by simp
  then show ?thesis
    by (simp add: required_buckets_def checked_sub_def BUCKET_SIZE_def MAX_BUCKETS_def)
qed

lemma wf_with_num_bits [simp]: "wf_bv (with_num_bits n)"
  using required_buckets_le by (simp add: wf_bv_def with_num_bits_def)

lemma required_buckets_eq: "required_buckets n = (unat n + 7) div 8"
proof (cases "n = 0")
  case True
  then show ?thesis by (simp add: required_buckets_def checked_sub_def)
next
  case False
  then have "1 \<le> n" by (simp add: word_le_nat_alt unat_gt_0 Suc_leI)
  moreover have "unat (n - 1) = unat n - 1" using False by (simp add: unat_minus_one)
  moreover have "0 < unat n" using False by (simp add: unat_gt_0)
  ultimately show ?thesis
    by (simp add: required_buckets_def checked_sub_def BUCKET_SIZE_def)
qed

section \<open>Iterating, counting and the last bit\<close>

lemma ones_filter: "ones bv = {p. p < 8 * length (inner bv) \<and> bit (inner bv ! (p div 8)) (7 - p mod 8)}"
  by (auto simp: ones_def)

lemma iter_ones_eq:
  assumes "wf_bv bv"
  shows "iter_ones bv = filter (\<lambda>p. p \<in> ones bv) [0..<8 * length (inner bv)]"
proof -
  have "is_set bv (of_nat p) \<longleftrightarrow> p \<in> ones bv" if "p < 8 * length (inner bv)" for p
  proof -
    have "p < 2 ^ LENGTH(16)" using that assms by (simp add: wf_bv_def MAX_BUCKETS_def)
    then show ?thesis by (simp add: is_set_iff unat_of_nat_small)
  qed
  then show ?thesis
    unfolding iter_ones_def BUCKET_SIZE_def mult.commute [of _ 8] by (intro filter_cong) auto
qed

lemma set_iter_ones: "wf_bv bv \<Longrightarrow> set (iter_ones bv) = ones bv"
  by (auto simp: iter_ones_eq dest: ones_less)

lemma distinct_iter_ones [simp]: "distinct (iter_ones bv)"
  by (simp add: iter_ones_def)

lemma sorted_iter_ones: "sorted (iter_ones bv)"
  by (simp add: iter_ones_def sorted_wrt_filter)

lemma count_byte_reversed: "length (filter (\<lambda>i. bit (x :: u8) (7 - i)) [0..<8]) = count_ones_word x"
proof -
  have "map ((-) 7) [0..<8] = rev [0..<8 :: nat]" by (simp add: upt_rec)
  then have "length (filter (bit x) (map ((-) 7) [0..<8])) = length (filter (bit x) (rev [0..<8]))"
    by simp
  then show ?thesis
    by (simp add: filter_map o_def count_ones_word_def rev_filter [symmetric])
qed

lemma count_bytes:
  "length (filter (\<lambda>p. bit (xs ! (p div 8)) (7 - p mod 8)) [0..<8 * length xs]) =
   sum_list (map count_ones_word (xs :: u8 list))"
proof (induction xs rule: rev_induct)
  case Nil
  show ?case by simp
next
  case (snoc x xs)
  let ?n = "8 * length xs"
  have split: "[0..<8 * length (xs @ [x])] = [0..<?n] @ map (\<lambda>i. i + ?n) [0..<8]"
    using upt_add_eq_append [of 0 ?n 8] by (simp add: map_add_upt add.commute)
  have low: "filter (\<lambda>p. bit ((xs @ [x]) ! (p div 8)) (7 - p mod 8)) [0..<?n] =
      filter (\<lambda>p. bit (xs ! (p div 8)) (7 - p mod 8)) [0..<?n]"
    by (rule filter_cong) (auto simp: nth_append)
  have high: "length (filter (\<lambda>p. bit ((xs @ [x]) ! (p div 8)) (7 - p mod 8)) (map (\<lambda>i. i + ?n) [0..<8])) =
      length (filter (\<lambda>i. bit x (7 - i)) [0..<8])"
    unfolding filter_map o_def length_map
    by (intro arg_cong [where f = length] filter_cong) auto
  show ?case unfolding split unfolding filter_append length_append low high
    using snoc.IH by (simp add: count_byte_reversed)
qed

lemma count_ones_card: "count_ones bv = card (ones bv)"
  unfolding count_ones_def ones_filter count_bytes [symmetric] by (rule length_filter_upt)

lemma length_iter_ones: "wf_bv bv \<Longrightarrow> length (iter_ones bv) = count_ones bv"
  by (metis count_ones_card distinct_card distinct_iter_ones set_iter_ones)

lemma ones_position: "k < 8 \<Longrightarrow> 8 * b + k \<in> ones bv \<longleftrightarrow> b < length (inner bv) \<and> bit (inner bv ! b) (7 - k)"
  by (simp add: ones_def)

lemma ones_empty_iff: "ones bv = {} \<longleftrightarrow> (\<forall>byte \<in> set (inner bv). byte = 0)"
proof
  assume none: "ones bv = {}"
  show "\<forall>byte \<in> set (inner bv). byte = 0"
  proof
    fix byte assume "byte \<in> set (inner bv)"
    then obtain b where b: "b < length (inner bv)" "byte = inner bv ! b"
      by (metis in_set_conv_nth)
    have "\<not> bit byte i" if "i < 8" for i
    proof -
      have "8 * b + (7 - i) \<notin> ones bv" using none by blast
      then show ?thesis using b that ones_position [of "7 - i" b bv] by simp
    qed
    then show "byte = 0" by (simp add: bit_eq_iff)
  qed
next
  assume "\<forall>byte \<in> set (inner bv). byte = 0"
  then have "inner bv ! b = 0" if "b < length (inner bv)" for b using that by simp
  then show "ones bv = {}" by (auto simp: ones_def)
qed

lemma all_zeros_iff: "all_zeros bv \<longleftrightarrow> ones bv = {}"
  by (simp add: all_zeros_def list_all_iff ones_empty_iff)

lemma enumerate_rev_nth:
  "i < length xs \<Longrightarrow> List.enumerate 0 (rev xs) ! i = (i, xs ! (length xs - Suc i))"
  by (simp add: nth_enumerate_eq rev_nth)

lemma last_set_bit_Max:
  "last_set_bit bv = (if ones bv = {} then None else Some (of_nat (Max (ones bv))))"
proof (cases "find (\<lambda>(i, byte). byte \<noteq> 0) (List.enumerate 0 (rev (inner bv)))")
  case None
  then have "\<forall>x \<in> set (List.enumerate 0 (rev (inner bv))). snd x = 0"
    by (auto simp: find_None_iff)
  then have "\<forall>byte \<in> set (map snd (List.enumerate 0 (rev (inner bv)))). byte = 0"
    by (simp only: set_map) blast
  then have "\<forall>byte \<in> set (inner bv). byte = 0" by simp
  then show ?thesis using None by (simp add: last_set_bit_def ones_empty_iff)
next
  case (Some found)
  let ?xs = "inner bv" and ?n = "length (inner bv)"
  from Some obtain i where i: "i < ?n" and found: "found = (i, ?xs ! (?n - Suc i))"
    and nz: "?xs ! (?n - Suc i) \<noteq> 0" and earlier: "\<And>j. j < i \<Longrightarrow> ?xs ! (?n - Suc j) = 0"
    by (auto simp: find_Some_iff enumerate_rev_nth)
  define b where "b = ?n - Suc i"
  define tz where "tz = trailing_zeros_word (?xs ! b)"
  have tz: "tz < 8" "bit (?xs ! b) tz" "\<And>j. j < tz \<Longrightarrow> \<not> bit (?xs ! b) j"
    using trailing_zeros_word_least [of "?xs ! b"] nz by (simp_all add: tz_def b_def)
  have b: "b < ?n" "?n - i = Suc b" using i by (auto simp: b_def)
  have later: "?xs ! c = 0" if "b < c" "c < ?n" for c
    using earlier [of "?n - Suc c"] that i by (simp add: b_def)
  have mem: "8 * b + (7 - tz) \<in> ones bv" using b tz ones_position [of "7 - tz" b bv] by simp
  have max: "p \<le> 8 * b + (7 - tz)" if p: "p \<in> ones bv" for p
  proof -
    from p have "p div 8 < ?n" and bit: "bit (?xs ! (p div 8)) (7 - p mod 8)" by (auto simp: ones_def)
    then have "p div 8 \<le> b" using later [of "p div 8"] by (cases "p div 8 \<le> b") auto
    moreover have "p mod 8 \<le> 7 - tz" if "p div 8 = b"
    proof -
      have "tz \<le> 7 - p mod 8" using tz(3) [of "7 - p mod 8"] bit that by (cases "7 - p mod 8 < tz") auto
      then show ?thesis using tz(1) mod_less_divisor [of 8 p] by linarith
    qed
    moreover have "p = p div 8 * 8 + p mod 8" by simp
    moreover have "p mod 8 < 8" by simp
    ultimately show ?thesis by (cases "p div 8 = b") linarith+
  qed
  have "Max (ones bv) = 8 * b + (7 - tz)" using mem max by (intro Max_eqI) auto
  then show ?thesis using Some found mem b tz(1)
    by (auto simp: last_set_bit_def tz_def b_def)
qed

section \<open>Conjunction, disjunction and conversions\<close>

lemma ones_bitand: "ones (bitand a b) = ones a \<inter> ones b"
  by (auto simp: ones_def bitand_def Let_def bit_and_iff)

lemma ones_bitor: "ones (bitor a b) = ones a \<union> ones b"
  by (auto simp: ones_def bitor_def Let_def bit_or_iff bucket_or_zero_def split: if_splits)

lemma wf_bitand: "wf_bv a \<Longrightarrow> wf_bv (bitand a b)"
  by (simp add: wf_bv_def bitand_def Let_def)

lemma wf_bitor: "wf_bv a \<Longrightarrow> wf_bv b \<Longrightarrow> wf_bv (bitor a b)"
  by (simp add: wf_bv_def bitor_def Let_def)

lemma ones_from_iter: "ones (bv_from_iter bits) = unat ` set bits"
proof -
  have up: "unat (ucast b :: u16) = unat b" for b :: u8
  proof -
    have "unat b < 2 ^ LENGTH(8)" by (rule unsigned_less)
    then show ?thesis by (simp add: unsigned_ucast_eq take_bit_nat_eq_self)
  qed
  have "ones (foldl (\<lambda>bv b. bv_set bv (ucast b)) bv bits) = ones bv \<union> unat ` set bits"
    for bv and bits :: "u8 list"
    by (induction bits arbitrary: bv) (auto simp: ones_set up)
  then show ?thesis by (simp add: bv_from_iter_def)
qed

lemma ones_set_bools:
  "(\<forall>(i, b) \<in> set ps. i < 65536) \<Longrightarrow>
   ones (set_bools bv ps) = ones bv \<union> {i. (i, True) \<in> set ps}"
proof (induction bv ps rule: set_bools.induct)
  case (1 bv)
  show ?case by simp
next
  case (2 bv index b rest)
  then have "unat (of_nat index :: u16) = index" by (intro unat_of_nat_small) auto
  with 2 show ?case by (cases b) (auto simp: ones_set)
qed

lemma wf_set_bools: "wf_bv bv \<Longrightarrow> wf_bv (set_bools bv ps)"
  by (induction bv ps rule: set_bools.induct) (auto simp: wf_bv_set)

lemma from_bools_Ok:
  assumes "length bits \<le> 65536"
  obtains bv where "bv_from_bools bits = Ok bv" and "wf_bv bv"
    and "ones bv = {i. i < length bits \<and> bits ! i}"
proof
  let ?bv = "set_bools (with_num_bits (of_nat (length bits))) (List.enumerate 0 bits)"
  show "bv_from_bools bits = Ok ?bv"
    using assms by (simp add: bv_from_bools_def rust_assert_def MAX_BUCKETS_def BUCKET_SIZE_def)
  show "wf_bv ?bv" by (simp add: wf_set_bools)
  have "\<forall>(i, b) \<in> set (List.enumerate 0 bits). i < 65536"
    using assms by (auto simp: in_set_enumerate_eq)
  then show "ones ?bv = {i. i < length bits \<and> bits ! i}"
    by (subst ones_set_bools) (auto simp: in_set_enumerate_eq)
qed


section \<open>Properties\<close>

text \<open>
  After \<^verbatim>\<open>set(pos)\<close> exactly the position \<^verbatim>\<open>pos\<close> and the positions that were set before read as set,
  whether or not the vector had to grow, and a vector within the bucket limit stays within it.
\<close>

theorem bitvec_set_then_read:
  "(is_set (bv_set bv pos) q \<longleftrightarrow> q = pos \<or> is_set bv q) \<and>
   (num_buckets bv \<le> MAX_BUCKETS \<longrightarrow> num_buckets (bv_set bv pos) \<le> MAX_BUCKETS)"
  using wf_bv_set [of bv pos] by (auto simp: is_set_iff ones_set wf_bv_def num_buckets_def word_unat_eq_iff)

theorem bitvec_set_then_read_witness:
  "is_set (bv_set (with_num_bits 3) 9) 9 \<and> num_buckets (bv_set (with_num_bits 3) 9) \<le> MAX_BUCKETS"
proof -
  have "num_buckets (with_num_bits 3) \<le> MAX_BUCKETS"
    using required_buckets_le [of 3] by (simp add: num_buckets_def with_num_bits_def)
  then show ?thesis using bitvec_set_then_read [of "with_num_bits 3" 9 9] by simp
qed

lemma sorted_le_last: "sorted xs \<Longrightarrow> x \<in> set xs \<Longrightarrow> x \<le> last xs"
  by (induction xs) (auto simp: last_ConsR)

lemma iter_ones_facts:
  assumes "num_buckets bv \<le> MAX_BUCKETS"
  shows "sorted_wrt (<) (iter_ones bv)"
    and "n \<in> set (iter_ones bv) \<longleftrightarrow> n < 65536 \<and> is_set bv (of_nat n)"
    and "count_ones bv = length (iter_ones bv)"
    and "last_set_bit bv = (if iter_ones bv = [] then None else Some (of_nat (last (iter_ones bv))))"
proof -
  have wf: "wf_bv bv" using assms by (simp add: wf_bv_def num_buckets_def)
  show sorted: "sorted_wrt (<) (iter_ones bv)"
    using sorted_iter_ones [of bv] by (simp add: strict_sorted_iff)
  show "n \<in> set (iter_ones bv) \<longleftrightarrow> n < 65536 \<and> is_set bv (of_nat n)"
  proof (cases "n < 65536")
    case True
    then have "unat (of_nat n :: u16) = n" by (intro unat_of_nat_small) simp
    then show ?thesis using wf True by (simp add: set_iter_ones is_set_iff)
  next
    case False
    then show ?thesis using ones_less_u16 [OF wf, of n] wf by (auto simp: set_iter_ones)
  qed
  show "count_ones bv = length (iter_ones bv)" using wf by (simp add: length_iter_ones)
  have "Max (set (iter_ones bv)) = last (iter_ones bv)" if "iter_ones bv \<noteq> []"
    using that sorted_iter_ones [of bv]
    by (metis List.finite_set Max_eqI last_in_set sorted_le_last)
  then show "last_set_bit bv = (if iter_ones bv = [] then None else Some (of_nat (last (iter_ones bv))))"
    using set_iter_ones [OF wf] by (auto simp: last_set_bit_Max)
qed

text \<open>
  Counting, iterating and searching agree on a vector within the bucket limit: the iterator
  yields the set positions in increasing order, \<^verbatim>\<open>count_ones\<close> is their number and \<^verbatim>\<open>last_set_bit\<close> is
  the greatest of them.
\<close>

theorem bitvec_iteration:
  assumes "num_buckets bv \<le> MAX_BUCKETS"
  shows "sorted_wrt (<) (iter_ones bv) \<and>
    set (iter_ones bv) = {n. n < 65536 \<and> is_set bv (of_nat n)} \<and>
    count_ones bv = length (iter_ones bv) \<and>
    last_set_bit bv = (if iter_ones bv = [] then None else Some (of_nat (last (iter_ones bv))))"
  using iter_ones_facts [OF assms] by blast

theorem bitvec_iteration_witness:
  "last_set_bit (bv_set (with_num_bits 3) 9) = Some 9 \<and> count_ones (bv_set (with_num_bits 3) 9) = 1"
proof -
  let ?bv = "bv_set (with_num_bits 3) 9"
  have ones: "iter_ones ?bv = [9]" by code_simp
  have "wf_bv ?bv" by (simp add: wf_bv_set)
  then have "num_buckets ?bv \<le> MAX_BUCKETS" by (simp add: wf_bv_def num_buckets_def)
  from bitvec_iteration [OF this] show ?thesis by (simp add: ones)
qed

end
