(* ===== verification/BTree_Map.thy ===== *)
theory BTree_Map
  imports Rust_Prelude
begin

text \<open>
  Rust's \<^verbatim>\<open>BTreeMap\<close>, as the association list in key order that its iterators show. The locale
  \<open>ordered_map\<close> states what the consensus code relies on (what a lookup returns after an update,
  that iteration visits every key once and in order); the signature collections and the vote
  tables are built on its interpretation \<open>bt\<close>.
\<close>

section \<open>The interface\<close>

locale ordered_map =
  fixes empty :: 'm
    and get :: "'m \<Rightarrow> 'k::linorder \<Rightarrow> 'v option"
    and insert :: "'k \<Rightarrow> 'v \<Rightarrow> 'm \<Rightarrow> 'm"
    and remove :: "'k \<Rightarrow> 'm \<Rightarrow> 'm"
    and keys :: "'m \<Rightarrow> 'k list"
    and invar :: "'m \<Rightarrow> bool"
  assumes get_empty: "get empty k = None"
    and get_insert: "invar m \<Longrightarrow> get (insert k v m) k' = (if k' = k then Some v else get m k')"
    and get_remove: "invar m \<Longrightarrow> get (remove k m) k' = (if k' = k then None else get m k')"
    and set_keys: "invar m \<Longrightarrow> set (keys m) = {k. get m k \<noteq> None}"
    and sorted_keys: "invar m \<Longrightarrow> sorted_wrt (<) (keys m)"
    and invar_empty: "invar empty"
    and invar_insert: "invar m \<Longrightarrow> invar (insert k v m)"
    and invar_remove: "invar m \<Longrightarrow> invar (remove k m)"
begin

lemma distinct_keys: "invar m \<Longrightarrow> distinct (keys m)"
  using sorted_keys strict_sorted_iff by blast

lemma set_keys_insert: "invar m \<Longrightarrow> set (keys (insert k v m)) = Set.insert k (set (keys m))"
  by (auto simp: set_keys invar_insert get_insert)

lemma set_keys_remove: "invar m \<Longrightarrow> set (keys (remove k m)) = set (keys m) - {k}"
  by (auto simp: set_keys invar_remove get_remove)

text \<open>\<^verbatim>\<open>entry(k).or_insert(v)\<close> keeps a present entry and adds a missing one.\<close>

lemma invar_or_insert: "invar m \<Longrightarrow> invar (case get m k of Some _ \<Rightarrow> m | None \<Rightarrow> insert k v m)"
  by (simp add: invar_insert split: option.split)

lemma get_or_insert:
  "invar m \<Longrightarrow> get (case get m k of Some _ \<Rightarrow> m | None \<Rightarrow> insert k v m) k' =
     (if k' = k then Some (case get m k of Some w \<Rightarrow> w | None \<Rightarrow> v) else get m k')"
  by (auto simp: get_insert split: option.split)

lemma set_keys_or_insert:
  "invar m \<Longrightarrow> set (keys (case get m k of Some _ \<Rightarrow> m | None \<Rightarrow> insert k v m)) = Set.insert k (set (keys m))"
  by (auto simp: set_keys invar_insert get_insert split: option.split)

text \<open>Two maps with the same entries are iterated in the same order.\<close>

lemma keys_eqI: "invar m \<Longrightarrow> invar m' \<Longrightarrow> get m = get m' \<Longrightarrow> keys m = keys m'"
  using strict_sorted_equal sorted_keys set_keys by metis

lemma keys_empty: "keys empty = []"
  using set_keys [OF invar_empty] by (simp add: get_empty)

end

section \<open>The implementation\<close>

type_synonym ('k, 'v) btree_map = "('k \<times> 'v) list"

definition bt_empty :: "('k, 'v) btree_map" where
  "bt_empty = []"

definition bt_get :: "('k, 'v) btree_map \<Rightarrow> 'k \<Rightarrow> 'v option" where
  "bt_get m k = map_of m k"

fun bt_insert :: "'k::linorder \<Rightarrow> 'v \<Rightarrow> ('k, 'v) btree_map \<Rightarrow> ('k, 'v) btree_map" where
  "bt_insert k v [] = [(k, v)]"
| "bt_insert k v ((k', v') # m) =
     (if k < k' then (k, v) # (k', v') # m
      else if k = k' then (k, v) # m
      else (k', v') # bt_insert k v m)"

definition bt_remove :: "'k \<Rightarrow> ('k, 'v) btree_map \<Rightarrow> ('k, 'v) btree_map" where
  "bt_remove k m = filter (\<lambda>(k', _). k' \<noteq> k) m"

definition bt_or_insert :: "'k::linorder \<Rightarrow> 'v \<Rightarrow> ('k, 'v) btree_map \<Rightarrow> ('k, 'v) btree_map" where
  "bt_or_insert k v m = (case bt_get m k of Some _ \<Rightarrow> m | None \<Rightarrow> bt_insert k v m)"

definition bt_keys :: "('k, 'v) btree_map \<Rightarrow> 'k list" where
  "bt_keys m = map fst m"

definition bt_values :: "('k, 'v) btree_map \<Rightarrow> 'v list" where
  "bt_values m = map snd m"

definition bt_collect :: "('k::linorder \<times> 'v) list \<Rightarrow> ('k, 'v) btree_map" where
  "bt_collect ps = foldl (\<lambda>m (k, v). bt_insert k v m) bt_empty ps"

definition bt_invar :: "('k::linorder, 'v) btree_map \<Rightarrow> bool" where
  "bt_invar m \<longleftrightarrow> sorted_wrt (<) (map fst m)"

lemma set_fst_bt_insert: "set (map fst (bt_insert k v m)) = Set.insert k (set (map fst m))"
  by (induction k v m rule: bt_insert.induct) auto

lemma bt_invar_insert: "bt_invar m \<Longrightarrow> bt_invar (bt_insert k v m)"
proof (induction k v m rule: bt_insert.induct)
  case (2 k v k' v' m)
  then show ?case
    using set_fst_bt_insert [of k v m] by (auto simp: bt_invar_def)
qed (simp add: bt_invar_def)

lemma bt_get_insert:
  "bt_invar m \<Longrightarrow> bt_get (bt_insert k v m) k' = (if k' = k then Some v else bt_get m k')"
  by (induction k v m rule: bt_insert.induct) (auto simp: bt_invar_def bt_get_def)

lemma bt_get_remove: "bt_get (bt_remove k m) k' = (if k' = k then None else bt_get m k')"
  by (induction m) (auto simp: bt_get_def bt_remove_def)

lemma sorted_filter_fst: "sorted_wrt (<) (map fst m) \<Longrightarrow> sorted_wrt (<) (map fst (filter P m))"
  by (induction m) auto

interpretation bt: ordered_map bt_empty bt_get bt_insert bt_remove bt_keys bt_invar
proof unfold_locales
  fix m :: "('k::linorder \<times> 'v) list" and k k' :: 'k and v :: 'v
  show "bt_get bt_empty k = None" by (simp add: bt_get_def bt_empty_def)
  show "bt_invar m \<Longrightarrow> bt_get (bt_insert k v m) k' = (if k' = k then Some v else bt_get m k')"
    by (rule bt_get_insert)
  show "bt_get (bt_remove k m) k' = (if k' = k then None else bt_get m k')"
    by (rule bt_get_remove)
  show "set (bt_keys m) = {k. bt_get m k \<noteq> None}"
    by (simp add: bt_keys_def bt_get_def dom_map_of_conv_image_fst [symmetric] dom_def)
  show "bt_invar m \<Longrightarrow> sorted_wrt (<) (bt_keys m)" by (simp add: bt_invar_def bt_keys_def)
  show "bt_invar bt_empty" by (simp add: bt_invar_def bt_empty_def)
  show "bt_invar m \<Longrightarrow> bt_invar (bt_insert k v m)" by (rule bt_invar_insert)
  show "bt_invar m \<Longrightarrow> bt_invar (bt_remove k m)"
    by (simp add: bt_invar_def bt_remove_def sorted_filter_fst)
qed

lemmas bt_or_insert_facts =
  bt.invar_or_insert [folded bt_or_insert_def]
  bt.get_or_insert [folded bt_or_insert_def]
  bt.set_keys_or_insert [folded bt_or_insert_def]

lemma bt_invar_collect: "bt_invar (bt_collect ps)"
proof -
  have "bt_invar m \<Longrightarrow> bt_invar (foldl (\<lambda>m (k, v). bt_insert k v m) m ps)" for m
    by (induction ps arbitrary: m) (auto simp: bt.invar_insert)
  then show ?thesis by (simp add: bt_collect_def bt.invar_empty)
qed

lemma bt_get_collect: "bt_get (bt_collect ps) k = map_of (rev ps) k"
proof (induction ps rule: rev_induct)
  case Nil
  show ?case by (simp add: bt_collect_def bt_get_def bt_empty_def)
next
  case (snoc p ps)
  obtain k' v where p: "p = (k', v)" by (cases p)
  have "bt_collect (ps @ [p]) = bt_insert k' v (bt_collect ps)" by (simp add: bt_collect_def p)
  then show ?case using snoc by (simp add: p bt_get_insert bt_invar_collect)
qed

lemma set_bt_iff: "bt_invar m \<Longrightarrow> (k, v) \<in> set m \<longleftrightarrow> bt_get m k = Some v"
  using bt.distinct_keys [of m] by (simp add: bt_keys_def bt_get_def)

lemma set_bt_or_insert:
  assumes "bt_invar m" and "x \<in> set (bt_or_insert k v m)"
  shows "x \<in> set m \<or> x = (k, v)"
  using assms set_bt_iff [OF bt_or_insert_facts(1) [OF assms(1)], of "fst x" "snd x" k v]
    set_bt_iff [OF assms(1), of "fst x" "snd x"]
  by (cases x) (auto simp: bt_or_insert_facts split: if_splits option.splits)

text \<open>Collecting pairs whose keys already ascend gives back the pairs.\<close>

lemma bt_insert_last:
  "(\<forall>k' \<in> set (map fst m). k' < k) \<Longrightarrow> bt_insert k v m = m @ [(k, v)]"
  by (induction k v m rule: bt_insert.induct) auto

lemma bt_collect_sorted: "sorted_wrt (<) (map fst ps) \<Longrightarrow> bt_collect ps = ps"
proof (induction ps rule: rev_induct)
  case Nil
  show ?case by (simp add: bt_collect_def bt_empty_def)
next
  case (snoc p ps)
  obtain k v where p: "p = (k, v)" by (cases p)
  have "bt_collect (ps @ [p]) = bt_insert k v (bt_collect ps)" by (simp add: bt_collect_def p)
  also have "bt_collect ps = ps" using snoc by (simp add: sorted_wrt_append)
  also have "bt_insert k v ps = ps @ [p]"
    using snoc.prems by (subst bt_insert_last) (auto simp: sorted_wrt_append p)
  finally show ?case .
qed

end
