(* ===== verification/Validator_Verifier.thy ===== *)
theory Validator_Verifier
  imports Bls Bit_Vec BTree_Map "HOL-Library.Multiset"
begin

text \<open>
  The validator set of an epoch as consensus sees it: \<^verbatim>\<open>types/src/validator_verifier.rs\<close>,
  \<^verbatim>\<open>types/src/aggregate_signature.rs\<close> and the on-chain \<^verbatim>\<open>ValidatorSet\<close> it is built from. The lemmas
  compute the voting power a verified certificate carries and show that two certificates share a
  validator outside any coalition of at most a third of the power (locale \<open>weighted_quorum\<close>).
\<close>

section \<open>Aggregate and partial signatures\<close>

record aggregate_signature =
  validator_bitmask :: bit_vec
  agg_sig :: "bls_signature option"

definition aggregate_signature_new :: "bit_vec \<Rightarrow> bls_signature option \<Rightarrow> aggregate_signature" where
  "aggregate_signature_new bitmask sig = \<lparr>validator_bitmask = bitmask, agg_sig = sig\<rparr>"

definition aggregate_signature_empty :: aggregate_signature where
  "aggregate_signature_empty = \<lparr>validator_bitmask = bv_default, agg_sig = None\<rparr>"

definition get_voter_addresses :: "aggregate_signature \<Rightarrow> account_address list \<Rightarrow> account_address list" where
  "get_voter_addresses s validator_addresses =
     List.map_filter
       (\<lambda>(index, addr). if is_set (validator_bitmask s) (of_nat index) then Some addr else None)
       (List.enumerate 0 validator_addresses)"

definition get_num_voters :: "aggregate_signature \<Rightarrow> nat" where
  "get_num_voters s = count_ones (validator_bitmask s)"

record partial_signatures =
  ps_signatures :: "(account_address, bls_signature) btree_map"

definition partial_signatures_empty :: partial_signatures where
  "partial_signatures_empty = \<lparr>ps_signatures = bt_empty\<rparr>"

definition ps_is_empty :: "partial_signatures \<Rightarrow> bool" where
  "ps_is_empty p = (ps_signatures p = [])"

definition ps_remove_signature :: "account_address \<Rightarrow> partial_signatures \<Rightarrow> partial_signatures" where
  "ps_remove_signature validator p = p\<lparr>ps_signatures := bt_remove validator (ps_signatures p)\<rparr>"

definition ps_add_signature :: "account_address \<Rightarrow> bls_signature \<Rightarrow> partial_signatures \<Rightarrow> partial_signatures" where
  "ps_add_signature validator signature p =
     p\<lparr>ps_signatures := bt_or_insert validator signature (ps_signatures p)\<rparr>"

section \<open>The verifier\<close>

datatype verify_error =
    UnknownAuthor
  | TooLittleVotingPower u128 u128
  | EmptySignature
  | InvalidMultiSignature
  | InvalidAggregatedSignature
  | InconsistentBlockInfo
  | FailedToAggregatePubKey
  | FailedToAggregateSignature
  | FailedToVerifyMultiSignature
  | InvalidBitVec
  | FailedToVerifyAggregatedSignature

record validator_consensus_info =
  vci_address :: account_address
  vci_public_key :: bls_public_key
  vci_voting_power :: u64

text \<open>
  The in-memory index is a \<^verbatim>\<open>HashMap\<close> that is only looked up; it is kept as a sorted map so that two
  verifiers with the same entries are equal, as for the derived \<^verbatim>\<open>PartialEq\<close>.
\<close>

record validator_verifier =
  validator_infos :: "validator_consensus_info list"
  quorum_voting_power :: u128
  total_voting_power :: u128
  address_to_validator_index :: "(account_address, nat) btree_map"

definition build_index :: "validator_consensus_info list \<Rightarrow> u128 \<Rightarrow> u128 \<Rightarrow> validator_verifier" where
  "build_index infos quorum total_power =
     \<lparr>validator_infos = infos, quorum_voting_power = quorum, total_voting_power = total_power,
      address_to_validator_index =
        bt_collect (map (\<lambda>(index, info). (vci_address info, index)) (List.enumerate 0 infos))\<rparr>"

definition sum_voting_power :: "validator_consensus_info list \<Rightarrow> (u128, 'e) result" where
  "sum_voting_power infos =
     for_each (\<lambda>sum x. expect (checked_add sum (ucast (vci_voting_power x)))) 0 infos"

definition verifier_new :: "validator_consensus_info list \<Rightarrow> (validator_verifier, 'e) result" where
  "verifier_new infos =
     and_then (sum_voting_power infos) (\<lambda>total_power.
     and_then
       (if infos = [] then Ok 0
        else and_then (times_or_panic total_power 2) (\<lambda>d. plus_or_panic (d div 3) 1)) (\<lambda>quorum.
     Ok (build_index infos quorum total_power)))"

definition new_with_quorum_voting_power ::
  "validator_consensus_info list \<Rightarrow> u128 \<Rightarrow> (validator_verifier, string) result" where
  "new_with_quorum_voting_power infos quorum =
     and_then (sum_voting_power infos) (\<lambda>total_power.
     and_then (ensure (quorum \<le> total_power)
       ''Quorum voting power is greater than the sum of all voting power of authors'') (\<lambda>_.
     Ok (build_index infos quorum total_power)))"

definition new_single :: "account_address \<Rightarrow> bls_public_key \<Rightarrow> (validator_verifier, 'e) result" where
  "new_single author public_key =
     verifier_new [\<lparr>vci_address = author, vci_public_key = public_key, vci_voting_power = 1\<rparr>]"

text \<open>\<^verbatim>\<open>Deserialize\<close>: only the infos travel, the cached fields are recomputed.\<close>

definition verifier_deserialize :: "validator_consensus_info list \<Rightarrow> (validator_verifier, 'e) result" where
  "verifier_deserialize infos = verifier_new infos"

text \<open>The index entry of a verifier the constructors built is in range (\<open>index_in_range\<close> below).\<close>

definition get_public_key :: "validator_verifier \<Rightarrow> account_address \<Rightarrow> bls_public_key option" where
  "get_public_key vv author =
     map_option (\<lambda>index. vci_public_key (validator_infos vv ! index))
       (bt_get (address_to_validator_index vv) author)"

definition get_voting_power :: "validator_verifier \<Rightarrow> account_address \<Rightarrow> u64 option" where
  "get_voting_power vv author =
     map_option (\<lambda>index. vci_voting_power (validator_infos vv ! index))
       (bt_get (address_to_validator_index vv) author)"

definition get_ordered_account_addresses :: "validator_verifier \<Rightarrow> account_address list" where
  "get_ordered_account_addresses vv = map vci_address (validator_infos vv)"

definition vv_len :: "validator_verifier \<Rightarrow> nat" where
  "vv_len vv = length (validator_infos vv)"

definition verifier_verify ::
  "crypto \<Rightarrow> validator_verifier \<Rightarrow> author \<Rightarrow> message \<Rightarrow> bls_signature \<Rightarrow> (unit, verify_error) result" where
  "verifier_verify c vv author m signature =
     (case get_public_key vv author of
        Some public_key \<Rightarrow>
          map_err (\<lambda>_. InvalidMultiSignature) (verify_struct_signature c public_key m signature)
      | None \<Rightarrow> Err UnknownAuthor)"

definition aggregate_signatures ::
  "crypto \<Rightarrow> validator_verifier \<Rightarrow> partial_signatures \<Rightarrow> (aggregate_signature, verify_error) result" where
  "aggregate_signatures c vv partial =
     and_then
       (for_each (\<lambda>(sigs, masks) (addr, sig).
            and_then (ok_or (bt_get (address_to_validator_index vv) addr) UnknownAuthor) (\<lambda>index.
            Ok (sigs @ [sig], bv_set masks (of_nat index))))
          ([], with_num_bits (of_nat (vv_len vv))) (ps_signatures partial)) (\<lambda>(sigs, masks).
     and_then (map_err (\<lambda>_. FailedToAggregateSignature) (sig_aggregate c sigs)) (\<lambda>aggregated_sig.
     Ok (aggregate_signature_new masks (Some aggregated_sig))))"

definition check_num_of_voters :: "u16 \<Rightarrow> bit_vec \<Rightarrow> (unit, verify_error) result" where
  "check_num_of_voters num_validators bitvec =
     (if num_buckets bitvec \<noteq> required_buckets num_validators then Err InvalidBitVec
      else case last_set_bit bitvec of
             Some last_bit \<Rightarrow> if last_bit \<ge> num_validators then Err InvalidBitVec else Ok ()
           | None \<Rightarrow> Ok ())"

definition check_voting_power :: "validator_verifier \<Rightarrow> account_address list \<Rightarrow> (unit, verify_error) result" where
  "check_voting_power vv authors =
     and_then
       (for_each (\<lambda>power account_address.
            case get_voting_power vv account_address of
              Some voting_power \<Rightarrow> plus_or_panic power (ucast voting_power)
            | None \<Rightarrow> Err UnknownAuthor)
          0 authors) (\<lambda>aggregated_voting_power.
     if aggregated_voting_power < quorum_voting_power vv
     then Err (TooLittleVotingPower aggregated_voting_power (quorum_voting_power vv))
     else Ok ())"

text \<open>The loop both verification functions start with: the validators a bitmask names.\<close>

definition voters_of_bitmask ::
  "validator_verifier \<Rightarrow> bit_vec \<Rightarrow> (account_address list \<times> bls_public_key list, verify_error) result" where
  "voters_of_bitmask vv bitvec =
     for_each (\<lambda>(authors, pub_keys) index.
         if index < vv_len vv
         then let validator = validator_infos vv ! index
              in Ok (authors @ [vci_address validator], pub_keys @ [vci_public_key validator])
         else Err UnknownAuthor)
       ([], []) (iter_ones bitvec)"

definition verify_multi_signatures ::
  "crypto \<Rightarrow> validator_verifier \<Rightarrow> message \<Rightarrow> aggregate_signature \<Rightarrow> (unit, verify_error) result" where
  "verify_multi_signatures c vv m multi_signature =
     and_then (check_num_of_voters (of_nat (vv_len vv)) (validator_bitmask multi_signature)) (\<lambda>_.
     and_then (voters_of_bitmask vv (validator_bitmask multi_signature)) (\<lambda>(authors, pub_keys).
     and_then (check_voting_power vv authors) (\<lambda>_.
     and_then (ok_or (agg_sig multi_signature) EmptySignature) (\<lambda>multi_sig.
     and_then (map_err (\<lambda>_. FailedToAggregatePubKey) (pk_aggregate c pub_keys)) (\<lambda>aggregated_key.
     map_err (\<lambda>_. InvalidMultiSignature) (sig_verify c multi_sig m aggregated_key))))))"

definition verify_aggregate_signatures ::
  "crypto \<Rightarrow> validator_verifier \<Rightarrow> message list \<Rightarrow> aggregate_signature \<Rightarrow> (unit, verify_error) result" where
  "verify_aggregate_signatures c vv messages aggregated_signature =
     and_then (check_num_of_voters (of_nat (vv_len vv)) (validator_bitmask aggregated_signature)) (\<lambda>_.
     and_then (voters_of_bitmask vv (validator_bitmask aggregated_signature)) (\<lambda>(authors, pub_keys).
     and_then (check_voting_power vv authors) (\<lambda>_.
     and_then (ok_or (agg_sig aggregated_signature) EmptySignature) (\<lambda>aggregated_sig.
     map_err (\<lambda>_. InvalidAggregatedSignature)
       (sig_verify_aggregate c aggregated_sig messages pub_keys)))))"

section \<open>The on-chain validator set\<close>

record validator_config =
  consensus_public_key :: bls_public_key
  validator_network_addresses :: "u8 list"
  fullnode_network_addresses :: "u8 list"
  validator_index :: u64

record validator_info =
  vi_account_address :: account_address
  vi_consensus_voting_power :: u64
  vi_config :: validator_config

datatype consensus_scheme = BLS12381

record validator_set =
  set_scheme :: consensus_scheme
  active_validators :: "validator_info list"
  pending_inactive :: "validator_info list"
  pending_active :: "validator_info list"
  set_total_voting_power :: u128
  set_total_joining_power :: u128

definition validator_set_payload :: "validator_set \<Rightarrow> validator_info list" where
  "validator_set_payload vs = active_validators vs @ pending_inactive vs"

definition verifier_from_validator_set :: "validator_set \<Rightarrow> (validator_verifier, 'e) result" where
  "verifier_from_validator_set vs =
     (let infos = bt_values (bt_collect (map (\<lambda>info.
            (validator_index (vi_config info),
             \<lparr>vci_address = vi_account_address info,
              vci_public_key = consensus_public_key (vi_config info),
              vci_voting_power = vi_consensus_voting_power info\<rparr>)) (validator_set_payload vs)))
      in and_then
           (for_each (\<lambda>_ info.
                let i = unat (validator_index (vi_config info)) in
                rust_assert (i < length infos \<and> vci_address (infos ! i) = vi_account_address info))
              () (validator_set_payload vs)) (\<lambda>_.
         verifier_new infos))"

text \<open>Serialization of a verifier (the cached fields are skipped).\<close>

definition ser_validator_consensus_info :: "validator_consensus_info \<Rightarrow> serde" where
  "ser_validator_consensus_info info =
     SStruct [SFixed (vci_address info), SBytes (vci_public_key info), SU64 (vci_voting_power info)]"

definition ser_validator_verifier :: "validator_verifier \<Rightarrow> serde" where
  "ser_validator_verifier vv = SStruct [ser_seq ser_validator_consensus_info (validator_infos vv)]"

section \<open>Weighted quorums\<close>

text \<open>
  What consensus relies on: the members of a set, their power and the power a certificate needs.
  The bounds on the threshold are those of \<open>2f + 1\<close> out of \<open>3f + 1\<close>, with weights.
\<close>

locale weighted_quorum =
  fixes members :: "'v \<Rightarrow> 'a set"
    and power :: "'v \<Rightarrow> 'a \<Rightarrow> nat"
    and threshold :: "'v \<Rightarrow> nat"
    and valid :: "'v \<Rightarrow> bool"
  assumes finite_members: "valid v \<Longrightarrow> finite (members v)"
    and threshold_gt: "valid v \<Longrightarrow> 2 * sum (power v) (members v) < 3 * threshold v"
    and threshold_le: "valid v \<Longrightarrow> 3 * threshold v \<le> 2 * sum (power v) (members v) + 3"
begin

lemma quorum_intersection:
  assumes v: "valid v" and Q: "Q \<subseteq> members v" "Q' \<subseteq> members v"
    and q: "threshold v \<le> sum (power v) Q" "threshold v \<le> sum (power v) Q'"
  shows "sum (power v) (members v) < 3 * sum (power v) (Q \<inter> Q')"
proof -
  have fin: "finite Q" "finite Q'" using Q finite_members [OF v] by (auto intro: finite_subset)
  have "sum (power v) Q + sum (power v) Q' = sum (power v) (Q \<union> Q') + sum (power v) (Q \<inter> Q')"
    using fin by (simp add: sum.union_inter)
  moreover have "sum (power v) (Q \<union> Q') \<le> sum (power v) (members v)"
    using Q finite_members [OF v] by (intro sum_mono2) auto
  ultimately show ?thesis using q threshold_gt [OF v] by linarith
qed

lemma quorums_share_honest:
  assumes "valid v" "Q \<subseteq> members v" "Q' \<subseteq> members v"
    and "threshold v \<le> sum (power v) Q" "threshold v \<le> sum (power v) Q'"
    and B: "3 * sum (power v) (B \<inter> members v) \<le> sum (power v) (members v)"
  shows "\<exists>a \<in> Q \<inter> Q'. a \<notin> B"
proof (rule ccontr)
  assume "\<not> ?thesis"
  then have "Q \<inter> Q' \<subseteq> B \<inter> members v" using assms(2) by auto
  then have "sum (power v) (Q \<inter> Q') \<le> sum (power v) (B \<inter> members v)"
    using finite_members [OF assms(1)] by (intro sum_mono2) auto
  then show False using quorum_intersection [OF assms(1-5)] B by linarith
qed

lemma quorum_has_honest:
  assumes "valid v" "Q \<subseteq> members v" "threshold v \<le> sum (power v) Q"
    and "3 * sum (power v) (B \<inter> members v) \<le> sum (power v) (members v)"
  shows "\<exists>a \<in> Q. a \<notin> B"
  using quorums_share_honest [OF assms(1,2,2,3,3,4)] by auto

lemma honest_form_quorum:
  assumes v: "valid v" and B: "3 * sum (power v) (B \<inter> members v) < sum (power v) (members v)"
  shows "threshold v \<le> sum (power v) (members v - B)"
proof -
  have "sum (power v) (members v) = sum (power v) (members v - B) + sum (power v) (B \<inter> members v)"
    using finite_members [OF v] by (metis Int_commute add.commute sum.Int_Diff)
  then show ?thesis using B threshold_le [OF v] by linarith
qed

end

section \<open>What the verifier computes\<close>

definition vv_members :: "validator_verifier \<Rightarrow> account_address set" where
  "vv_members vv = vci_address ` set (validator_infos vv)"

definition vv_power :: "validator_verifier \<Rightarrow> account_address \<Rightarrow> nat" where
  "vv_power vv a = (case get_voting_power vv a of Some p \<Rightarrow> unat p | None \<Rightarrow> 0)"

definition vv_quorum :: "validator_verifier \<Rightarrow> nat" where
  "vv_quorum vv = unat (quorum_voting_power vv)"

definition wf_verifier :: "validator_verifier \<Rightarrow> bool" where
  "wf_verifier vv \<longleftrightarrow>
     verifier_new (validator_infos vv) = (Ok vv :: (validator_verifier, unit) result) \<and>
     validator_infos vv \<noteq> [] \<and> length (validator_infos vv) < 2 ^ 16 \<and>
     distinct (map vci_address (validator_infos vv))"

text \<open>The validators whose bits a certificate sets.\<close>

definition signers :: "validator_verifier \<Rightarrow> aggregate_signature \<Rightarrow> account_address set" where
  "signers vv s = (\<lambda>i. vci_address (validator_infos vv ! i)) ` ones (validator_bitmask s)"

lemma sum_voting_power_eq_Ok:
  "sum_voting_power infos = Ok t \<longleftrightarrow> unat t = sum_list (map (unat \<circ> vci_voting_power) infos)"
proof -
  have "sum_voting_power infos = Ok t \<longleftrightarrow>
      unat t = sum_list (map (\<lambda>x. unat (ucast (vci_voting_power x) :: u128)) infos)"
    using for_each_sum [of "\<lambda>x. ucast (vci_voting_power x)" 0 infos t]
    by (simp add: sum_voting_power_def plus_or_panic_def)
  then show ?thesis by (simp add: comp_def)
qed

lemma build_index_get:
  assumes "distinct (map vci_address infos)"
  shows "bt_get (address_to_validator_index (build_index infos q t)) a = Some i \<longleftrightarrow>
    i < length infos \<and> vci_address (infos ! i) = a"
proof -
  let ?ps = "map (\<lambda>(index, info). (vci_address info, index)) (List.enumerate 0 infos)"
  have keys: "map fst ?ps = map vci_address infos"
    by (rule nth_equalityI) (auto simp: nth_enumerate_eq)
  have "bt_get (address_to_validator_index (build_index infos q t)) a = map_of (rev ?ps) a"
    by (simp add: build_index_def bt_get_collect)
  moreover have "map_of (rev ?ps) a = Some i \<longleftrightarrow> (a, i) \<in> set ?ps"
    using assms keys by (subst map_of_eq_Some_iff) (auto simp flip: rev_map)
  moreover have "(a, i) \<in> set ?ps \<longleftrightarrow> i < length infos \<and> vci_address (infos ! i) = a"
    by (auto simp: in_set_enumerate_eq intro!: rev_image_eqI [where x = "(i, infos ! i)"])
  ultimately show ?thesis by simp
qed

lemma verifier_new_OkD:
  assumes "verifier_new infos = Ok vv"
  shows "validator_infos vv = infos"
    and "unat (total_voting_power vv) = sum_list (map (unat \<circ> vci_voting_power) infos)"
    and "infos \<noteq> [] \<Longrightarrow>
      vv_quorum vv = sum_list (map (unat \<circ> vci_voting_power) infos) * 2 div 3 + 1"
    and "vv = build_index infos (quorum_voting_power vv) (total_voting_power vv)"
proof -
  obtain t q where t: "sum_voting_power infos = (Ok t :: (u128, 'a) result)"
    and q: "(if infos = [] then Ok 0
        else and_then (times_or_panic t 2) (\<lambda>d. plus_or_panic (d div 3) 1)) = (Ok q :: (u128, 'a) result)"
    and vv: "vv = build_index infos q t"
    using assms by (auto simp: verifier_new_def and_then_eq_Ok)
  have ut: "unat t = sum_list (map (unat \<circ> vci_voting_power) infos)"
    using t by (simp add: sum_voting_power_eq_Ok)
  show "validator_infos vv = infos" and "vv = build_index infos (quorum_voting_power vv) (total_voting_power vv)"
    by (simp_all add: vv build_index_def)
  show "unat (total_voting_power vv) = sum_list (map (unat \<circ> vci_voting_power) infos)"
    using ut by (simp add: vv build_index_def)
  assume "infos \<noteq> []"
  then obtain d where d: "times_or_panic t 2 = (Ok d :: (u128, 'a) result)"
    and "plus_or_panic (d div 3) 1 = (Ok q :: (u128, 'a) result)"
    using q by (auto simp: and_then_eq_Ok)
  then have "unat q = unat d div 3 + 1"
    by (simp add: plus_or_panic_eq_Ok unat_div)
  moreover have "unat d = unat t * 2"
    using d by (auto simp: times_or_panic_def checked_mul_def expect_def unat_mult_lem [THEN iffD1]
        split: if_splits)
  ultimately show "vv_quorum vv = sum_list (map (unat \<circ> vci_voting_power) infos) * 2 div 3 + 1"
    using ut by (simp add: vv_quorum_def vv build_index_def)
qed


text \<open>The index of a well-formed verifier.\<close>

lemma wf_verifier_index:
  assumes "wf_verifier vv"
  shows "bt_get (address_to_validator_index vv) a = Some i \<longleftrightarrow>
    i < vv_len vv \<and> vci_address (validator_infos vv ! i) = a"
proof -
  have new: "verifier_new (validator_infos vv) = (Ok vv :: (_, unit) result)"
    and dist: "distinct (map vci_address (validator_infos vv))"
    using assms by (simp_all add: wf_verifier_def)
  show ?thesis
    using build_index_get [OF dist] verifier_new_OkD(4) [OF new] by (metis vv_len_def)
qed

lemma get_voting_power_nth:
  assumes "wf_verifier vv" "i < vv_len vv"
  shows "get_voting_power vv (vci_address (validator_infos vv ! i)) =
    Some (vci_voting_power (validator_infos vv ! i))"
  using wf_verifier_index [OF assms(1), of "vci_address (validator_infos vv ! i)" i] assms(2)
  by (simp add: get_voting_power_def)

lemma get_public_key_nth:
  assumes "wf_verifier vv" "i < vv_len vv"
  shows "get_public_key vv (vci_address (validator_infos vv ! i)) =
    Some (vci_public_key (validator_infos vv ! i))"
  using wf_verifier_index [OF assms(1), of "vci_address (validator_infos vv ! i)" i] assms(2)
  by (simp add: get_public_key_def)

lemma index_None_iff:
  assumes "wf_verifier vv"
  shows "bt_get (address_to_validator_index vv) a = None \<longleftrightarrow> a \<notin> vv_members vv"
proof -
  have "a \<in> vv_members vv \<longleftrightarrow> (\<exists>i < vv_len vv. vci_address (validator_infos vv ! i) = a)"
    by (force simp: vv_members_def vv_len_def in_set_conv_nth)
  then show ?thesis using wf_verifier_index [OF assms, of a] by (metis not_Some_eq)
qed

lemma get_voting_power_None_iff:
  "wf_verifier vv \<Longrightarrow> get_voting_power vv a = None \<longleftrightarrow> a \<notin> vv_members vv"
  by (simp add: get_voting_power_def index_None_iff)

lemma sum_vv_power_members:
  assumes "wf_verifier vv"
  shows "sum (vv_power vv) (vv_members vv) = unat (total_voting_power vv)"
proof -
  let ?infos = "validator_infos vv"
  have dist: "distinct (map vci_address ?infos)"
    and new: "verifier_new ?infos = (Ok vv :: (_, unit) result)"
    using assms by (simp_all add: wf_verifier_def)
  have "sum (vv_power vv) (vv_members vv) = sum_list (map (vv_power vv) (map vci_address ?infos))"
    using dist by (simp add: vv_members_def sum_list_distinct_conv_sum_set del: map_map)
  also have "map (vv_power vv) (map vci_address ?infos) = map (unat \<circ> vci_voting_power) ?infos"
    using get_voting_power_nth [OF assms]
    by (intro nth_equalityI) (auto simp: vv_power_def vv_len_def)
  also have "sum_list \<dots> = unat (total_voting_power vv)"
    using verifier_new_OkD(2) [OF new] by simp
  finally show ?thesis .
qed

interpretation vq: weighted_quorum vv_members vv_power vv_quorum wf_verifier
proof unfold_locales
  fix vv
  assume wf: "wf_verifier vv"
  show "finite (vv_members vv)" by (simp add: vv_members_def)
  have new: "verifier_new (validator_infos vv) = (Ok vv :: (_, unit) result)"
    and ne: "validator_infos vv \<noteq> []"
    using wf by (simp_all add: wf_verifier_def)
  have q: "vv_quorum vv = unat (total_voting_power vv) * 2 div 3 + 1"
    using verifier_new_OkD(2,3) [OF new] ne by simp
  define n where "n = unat (total_voting_power vv) * 2"
  have n: "n < 3 * (n div 3 + 1)" "3 * (n div 3 + 1) \<le> n + 3"
    using dividend_less_times_div [of 3 n] times_div_less_eq_dividend [of 3 n] by simp_all
  have sum: "2 * sum (vv_power vv) (vv_members vv) = n"
    using sum_vv_power_members [OF wf] by (simp add: n_def)
  show "2 * sum (vv_power vv) (vv_members vv) < 3 * vv_quorum vv"
    using n unfolding sum q n_def [symmetric] by simp
  show "3 * vv_quorum vv \<le> 2 * sum (vv_power vv) (vv_members vv) + 3"
    using n unfolding sum q n_def [symmetric] by simp
qed

lemma check_voting_power_eq_Ok:
  "check_voting_power vv authors = Ok u \<longleftrightarrow>
   (\<forall>a \<in> set authors. get_voting_power vv a \<noteq> None) \<and>
   sum_list (map (vv_power vv) authors) < 2 ^ 128 \<and>
   vv_quorum vv \<le> sum_list (map (vv_power vv) authors)"
proof -
  let ?body = "\<lambda>power account_address.
      case get_voting_power vv account_address of
        Some voting_power \<Rightarrow> plus_or_panic power (ucast voting_power)
      | None \<Rightarrow> Err UnknownAuthor"
  have loop: "for_each ?body s authors = Ok t \<longleftrightarrow>
      (\<forall>a \<in> set authors. get_voting_power vv a \<noteq> None) \<and>
      unat t = unat s + sum_list (map (vv_power vv) authors)" for s :: u128 and t
  proof (cases "\<forall>a \<in> set authors. get_voting_power vv a \<noteq> None")
    case True
    have "for_each ?body s authors =
        for_each (\<lambda>power a. plus_or_panic power (ucast (the (get_voting_power vv a)))) s authors"
      using True by (intro for_each_cong) auto
    moreover have "map (\<lambda>a. unat (ucast (the (get_voting_power vv a)) :: u128)) authors =
        map (vv_power vv) authors"
      using True by (auto simp: vv_power_def)
    ultimately show ?thesis using True by (simp only: for_each_sum) simp
  next
    case False
    then obtain a where "a \<in> set authors" "get_voting_power vv a = None" by auto
    then show ?thesis using for_each_body_Ok [of ?body s authors t a] False by auto
  qed
  show ?thesis (is "?l \<longleftrightarrow> ?r")
  proof
    assume ?l
    then obtain t where "for_each ?body 0 authors = Ok t" "\<not> t < quorum_voting_power vv"
      by (auto simp: check_voting_power_def and_then_eq_Ok split: if_splits)
    then show ?r
      using loop [of 0 t] unat_lt_2p [of t]
      by (simp add: vv_quorum_def word_le_nat_alt not_less del: unat_lt_2p)
  next
    assume r: ?r
    let ?t = "of_nat (sum_list (map (vv_power vv) authors)) :: u128"
    have "unat ?t = sum_list (map (vv_power vv) authors)"
      using r by (intro unat_of_nat_small) simp
    then show ?l
      using r loop [of 0 ?t]
      by (simp add: check_voting_power_def vv_quorum_def word_less_nat_alt)
  qed
qed


text \<open>The voters of a bitmask, in the order of their bits.\<close>

lemma check_num_of_voters_wf: "check_num_of_voters n bv = Ok u \<Longrightarrow> wf_bv bv"
  using required_buckets_le [of n] by (auto simp: check_num_of_voters_def wf_bv_def num_buckets_def split: if_splits)

lemma voters_of_bitmask_eq_Ok:
  "wf_bv bv \<Longrightarrow> voters_of_bitmask vv bv = Ok (authors, pks) \<longleftrightarrow>
   (\<forall>i \<in> ones bv. i < vv_len vv) \<and>
   authors = map (\<lambda>i. vci_address (validator_infos vv ! i)) (iter_ones bv) \<and>
   pks = map (\<lambda>i. vci_public_key (validator_infos vv ! i)) (iter_ones bv)"
proof -
  let ?body = "\<lambda>(authors, pub_keys) index.
      if index < vv_len vv
      then let validator = validator_infos vv ! index
           in Ok (authors @ [vci_address validator], pub_keys @ [vci_public_key validator])
      else Err UnknownAuthor"
  have "for_each ?body (as, ks) is = Ok (as', ks') \<longleftrightarrow>
      (\<forall>i \<in> set is. i < vv_len vv) \<and>
      as' = as @ map (\<lambda>i. vci_address (validator_infos vv ! i)) is \<and>
      ks' = ks @ map (\<lambda>i. vci_public_key (validator_infos vv ! i)) is" for as ks "is" as' ks'
    by (induction "is" arbitrary: as ks) (auto simp: Let_def)
  from this [of "[]" "[]" "iter_ones bv" authors pks] show "wf_bv bv \<Longrightarrow> ?thesis"
    by (simp add: voters_of_bitmask_def set_iter_ones)
qed

lemma sum_list_signers:
  assumes wf: "wf_verifier vv" and ones: "\<forall>i \<in> ones (validator_bitmask s). i < vv_len vv"
    and wf_bv: "wf_bv (validator_bitmask s)"
  shows "sum_list (map (vv_power vv)
      (map (\<lambda>i. vci_address (validator_infos vv ! i)) (iter_ones (validator_bitmask s)))) =
    sum (vv_power vv) (signers vv s)"
proof -
  let ?addr = "\<lambda>i. vci_address (validator_infos vv ! i)"
  have dist: "distinct (map vci_address (validator_infos vv))"
    using wf by (simp add: wf_verifier_def)
  have inj: "inj_on ?addr (ones (validator_bitmask s))"
  proof (rule inj_onI)
    fix i j
    assume ij: "i \<in> ones (validator_bitmask s)" "j \<in> ones (validator_bitmask s)" and "?addr i = ?addr j"
    then have "map vci_address (validator_infos vv) ! i = map vci_address (validator_infos vv) ! j"
      using ones by (simp add: vv_len_def)
    then show "i = j" using dist ij ones nth_eq_iff_index_eq [OF dist, of i j] by (simp add: vv_len_def)
  qed
  then have "distinct (map ?addr (iter_ones (validator_bitmask s)))"
    using wf_bv by (simp add: distinct_map set_iter_ones)
  then show ?thesis
    using wf_bv by (subst sum_list_distinct_conv_sum_set) (simp_all add: signers_def set_iter_ones)
qed

lemma signers_members:
  "(\<forall>i \<in> ones (validator_bitmask s). i < vv_len vv) \<Longrightarrow> signers vv s \<subseteq> vv_members vv"
  by (auto simp: signers_def vv_members_def vv_len_def)

text \<open>A certificate that verifies carries a quorum of members.\<close>

definition is_quorum :: "validator_verifier \<Rightarrow> account_address set \<Rightarrow> bool" where
  "is_quorum vv Q \<longleftrightarrow> Q \<subseteq> vv_members vv \<and> vv_quorum vv \<le> sum (vv_power vv) Q"

lemma checked_voters_quorum:
  assumes wf: "wf_verifier vv"
    and "check_num_of_voters n (validator_bitmask s) = Ok u'"
    and "voters_of_bitmask vv (validator_bitmask s) = Ok (authors, pks)"
    and "check_voting_power vv authors = Ok u"
  shows "is_quorum vv (signers vv s)"
  using assms check_num_of_voters_wf [OF assms(2)] sum_list_signers [OF wf] signers_members [of s vv]
  by (auto simp: is_quorum_def voters_of_bitmask_eq_Ok check_voting_power_eq_Ok)

lemma get_voter_addresses_eq:
  assumes wf: "wf_bv (validator_bitmask s)" and less: "\<forall>i \<in> ones (validator_bitmask s). i < length addrs"
    and len: "length addrs < 2 ^ 16"
  shows "get_voter_addresses s addrs = map (\<lambda>i. addrs ! i) (iter_ones (validator_bitmask s))"
proof -
  have enum: "List.enumerate 0 addrs = map (\<lambda>i. (i, addrs ! i)) [0..<length addrs]"
    by (rule nth_equalityI) (simp_all add: nth_enumerate_eq)
  have conv: "get_voter_addresses s addrs =
      map (\<lambda>i. addrs ! i) (filter (\<lambda>i. is_set (validator_bitmask s) (of_nat i)) [0..<length addrs])"
    by (auto simp: get_voter_addresses_def List.map_filter_def enum filter_map comp_def intro!: map_cong filter_cong)
  have "is_set (validator_bitmask s) (of_nat i) \<longleftrightarrow> i \<in> ones (validator_bitmask s)" if "i < length addrs" for i
    using that len by (simp add: is_set_iff unat_of_nat_small)
  then have "filter (\<lambda>i. is_set (validator_bitmask s) (of_nat i)) [0..<length addrs] = iter_ones (validator_bitmask s)"
    using less set_iter_ones [OF wf]
    by (intro sorted_distinct_set_unique) (auto simp: sorted_iter_ones sorted_wrt_filter)
  then show ?thesis by (simp only: conv)
qed

lemma verify_multi_signatures_OkD:
  assumes wf: "wf_verifier vv" and ok: "verify_multi_signatures c vv m s = Ok u"
  shows "is_quorum vv (signers vv s)"
    and "\<exists>sig key. agg_sig s = Some sig \<and>
      pk_aggregate c (map (\<lambda>i. vci_public_key (validator_infos vv ! i)) (iter_ones (validator_bitmask s))) = Ok key \<and>
      sig_verify c sig m key = Ok ()"
  using ok checked_voters_quorum [OF wf]
  by (auto simp: verify_multi_signatures_def result_simps voters_of_bitmask_eq_Ok
      dest: check_num_of_voters_wf split: prod.splits)

lemma verify_aggregate_signatures_OkD:
  assumes wf: "wf_verifier vv" and ok: "verify_aggregate_signatures c vv ms s = Ok u"
  shows "is_quorum vv (signers vv s)"
    and "\<exists>sig. agg_sig s = Some sig \<and>
      sig_verify_aggregate c sig ms
        (map (\<lambda>i. vci_public_key (validator_infos vv ! i)) (iter_ones (validator_bitmask s))) = Ok ()"
  using ok checked_voters_quorum [OF wf]
  by (auto simp: verify_aggregate_signatures_def result_simps voters_of_bitmask_eq_Ok
      dest: check_num_of_voters_wf split: prod.splits)

lemma quorums_share_honest_signer:
  assumes "wf_verifier vv" "is_quorum vv Q" "is_quorum vv Q'"
    and "3 * sum (vv_power vv) (B \<inter> vv_members vv) \<le> unat (total_voting_power vv)"
  shows "\<exists>a \<in> Q \<inter> Q'. a \<notin> B"
  using assms vq.quorums_share_honest [of vv Q Q' B] by (simp add: is_quorum_def sum_vv_power_members)


section \<open>Aggregating what was verified\<close>

text \<open>
  What \<^verbatim>\<open>blst\<close> documents of multi-signatures: aggregating signatures that verify, each under its own
  key and all on one message, gives a signature that verifies under the aggregate of those keys,
  in whatever order the keys are added up.
\<close>

definition bls_multisig_complete :: "crypto \<Rightarrow> bool" where
  "bls_multisig_complete c \<longleftrightarrow>
     (\<forall>bytes sigs pks. sigs \<noteq> [] \<and> list_all2 (\<lambda>sig pk. blst_verify c sig bytes pk) sigs pks \<longrightarrow>
       (\<exists>S. blst_aggregate_sigs c sigs = Some S \<and>
         (\<forall>pks'. mset pks' = mset pks \<longrightarrow>
           (\<exists>K. blst_aggregate_pks c pks' = Some K \<and> blst_verify c S bytes K))))"

definition index_of :: "validator_verifier \<Rightarrow> account_address \<Rightarrow> nat" where
  "index_of vv a = the (bt_get (address_to_validator_index vv) a)"

lemma index_of_member:
  assumes "wf_verifier vv" "a \<in> vv_members vv"
  shows "bt_get (address_to_validator_index vv) a = Some (index_of vv a)"
    and "index_of vv a < vv_len vv" and "vci_address (validator_infos vv ! index_of vv a) = a"
proof -
  show get: "bt_get (address_to_validator_index vv) a = Some (index_of vv a)"
    using assms index_None_iff [OF assms(1), of a] by (cases "bt_get (address_to_validator_index vv) a")
      (simp_all add: index_of_def)
  show "index_of vv a < vv_len vv" and "vci_address (validator_infos vv ! index_of vv a) = a"
    using get wf_verifier_index [OF assms(1)] by blast+
qed

lemma inj_on_index_of: "wf_verifier vv \<Longrightarrow> inj_on (index_of vv) (vv_members vv)"
  by (metis index_of_member(3) inj_onI)

lemma vv_len_less: "wf_verifier vv \<Longrightarrow> vv_len vv < 2 ^ 16"
  by (simp add: wf_verifier_def vv_len_def)

lemma aggregate_loop:
  assumes wf: "wf_verifier vv"
  shows "fst ` set ps \<subseteq> vv_members vv \<Longrightarrow> vv_len vv \<le> 8 * num_buckets masks \<Longrightarrow>
    \<exists>masks'. for_each (\<lambda>(sigs, masks) (addr, sig).
        and_then (ok_or (bt_get (address_to_validator_index vv) addr) UnknownAuthor) (\<lambda>index.
        Ok (sigs @ [sig], bv_set masks (of_nat index)))) (sigs, masks) ps = Ok (sigs @ map snd ps, masks') \<and>
      ones masks' = ones masks \<union> index_of vv ` fst ` set ps \<and> num_buckets masks' = num_buckets masks"
proof (induction ps arbitrary: sigs masks)
  case (Cons p ps)
  obtain a sg where p: "p = (a, sg)" by (cases p)
  have a: "a \<in> vv_members vv" using Cons.prems by (simp add: p)
  note ix = index_of_member [OF wf a]
  have u: "unat (of_nat (index_of vv a) :: u16) = index_of vv a"
    using ix(2) vv_len_less [OF wf] by (intro unat_of_nat_small) simp
  let ?masks = "bv_set masks (of_nat (index_of vv a))"
  have nb: "num_buckets ?masks = num_buckets masks"
    using u ix(2) Cons.prems(2) by (intro num_buckets_set) simp
  from Cons.IH [of ?masks "sigs @ [sg]"] Cons.prems nb
  show ?case by (auto simp: p ix(1) ok_or_def ones_set u)
qed auto

lemma check_num_of_voters_Ok:
  assumes n: "n < 2 ^ 16" and nb: "num_buckets bv = required_buckets (of_nat n)"
    and ones: "ones bv \<subseteq> {..<n}"
  shows "check_num_of_voters (of_nat n) bv = Ok ()"
proof (cases "ones bv = {}")
  case True
  then show ?thesis using nb last_set_bit_Max [of bv] by (simp add: check_num_of_voters_def)
next
  case False
  then have max: "Max (ones bv) < n" using ones Max_in [OF finite_ones False] by auto
  have "unat (of_nat (Max (ones bv)) :: u16) = Max (ones bv)"
    using n max by (intro unat_of_nat_small) simp
  moreover have "unat (of_nat n :: u16) = n" using n by (intro unat_of_nat_small) simp
  ultimately have "(of_nat (Max (ones bv)) :: u16) < of_nat n" using max by (simp add: word_less_nat_alt)
  then show ?thesis
    using False nb last_set_bit_Max [of bv] by (simp add: check_num_of_voters_def)
qed


lemma verifier_verify_member:
  assumes "wf_verifier vv" "a \<in> vv_members vv"
  shows "verifier_verify c vv a m sg = Ok u \<longleftrightarrow>
    sig_verify c sg m (vci_public_key (validator_infos vv ! index_of vv a)) = Ok ()"
  using index_of_member [OF assms]
  by (auto simp: verifier_verify_def get_public_key_def verify_struct_signature_def map_err_eq_Ok)

lemma verifier_verify_known:
  "wf_verifier vv \<Longrightarrow> verifier_verify c vv a m sg = Ok u \<Longrightarrow> a \<in> vv_members vv"
  using index_None_iff [of vv a] by (auto simp: verifier_verify_def get_public_key_def split: option.splits)

lemma check_voting_power_quorum:
  assumes wf: "wf_verifier vv" and d: "distinct authors" and q: "is_quorum vv (set authors)"
  shows "check_voting_power vv authors = Ok ()"
proof -
  have mem: "set authors \<subseteq> vv_members vv" using q by (simp add: is_quorum_def)
  have sum: "sum_list (map (vv_power vv) authors) = sum (vv_power vv) (set authors)"
    using d by (rule sum_list_distinct_conv_sum_set)
  have "sum (vv_power vv) (set authors) \<le> unat (total_voting_power vv)"
    unfolding sum_vv_power_members [OF wf, symmetric]
    using mem vq.finite_members [OF wf] by (intro sum_mono2) auto
  moreover have "unat (total_voting_power vv) < 2 ^ 128"
    using unat_lt_2p [of "total_voting_power vv"] by (simp del: unat_lt_2p)
  ultimately show ?thesis
    using mem q get_voting_power_None_iff [OF wf]
    by (simp add: check_voting_power_eq_Ok sum is_quorum_def) blast
qed

lemma check_voting_power_little:
  assumes wf: "wf_verifier vv" and d: "distinct authors" and mem: "set authors \<subseteq> vv_members vv"
    and q: "\<not> is_quorum vv (set authors)"
  obtains p where "check_voting_power vv authors = Err (TooLittleVotingPower p (quorum_voting_power vv))"
    and "unat p = sum (vv_power vv) (set authors)"
proof -
  have known: "\<forall>a \<in> set authors. get_voting_power vv a \<noteq> None"
    using mem get_voting_power_None_iff [OF wf] by blast
  let ?sum = "sum (vv_power vv) (set authors)"
  have sum: "sum_list (map (vv_power vv) authors) = ?sum"
    using d by (rule sum_list_distinct_conv_sum_set)
  have little: "?sum < vv_quorum vv" using q mem by (auto simp: is_quorum_def)
  then have less: "?sum < 2 ^ 128"
    using unat_lt_2p [of "quorum_voting_power vv"] by (simp add: vv_quorum_def del: unat_lt_2p)
  define p where "p = (of_nat ?sum :: u128)"
  have p: "unat p = ?sum" unfolding p_def using less by (intro unat_of_nat_small) simp
  have "for_each (\<lambda>power account_address.
        case get_voting_power vv account_address of
          Some voting_power \<Rightarrow> plus_or_panic power (ucast voting_power)
        | None \<Rightarrow> Err UnknownAuthor) 0 authors =
      for_each (\<lambda>power a. plus_or_panic power (ucast (the (get_voting_power vv a)))) 0 authors"
    using known by (intro for_each_cong) auto
  also have "\<dots> = Ok p"
  proof -
    have "map (\<lambda>a. unat (ucast (the (get_voting_power vv a)) :: u128)) authors = map (vv_power vv) authors"
      using known by (auto simp: vv_power_def)
    then show ?thesis by (simp only: for_each_sum) (simp add: p sum)
  qed
  finally have "check_voting_power vv authors = Err (TooLittleVotingPower p (quorum_voting_power vv))"
    using little p by (simp add: check_voting_power_def vv_quorum_def word_less_nat_alt)
  then show thesis using p by (rule that)
qed

lemma is_quorum_mono: "wf_verifier vv \<Longrightarrow> is_quorum vv S \<Longrightarrow> S \<subseteq> T \<Longrightarrow> T \<subseteq> vv_members vv \<Longrightarrow> is_quorum vv T"
proof -
  assume "wf_verifier vv" and S: "is_quorum vv S" and sub: "S \<subseteq> T" "T \<subseteq> vv_members vv"
  then have "finite T" using vq.finite_members finite_subset by blast
  then have "sum (vv_power vv) S \<le> sum (vv_power vv) T" using sub by (intro sum_mono2) auto
  then show "is_quorum vv T" using S sub by (simp add: is_quorum_def)
qed

text \<open>The mask the aggregation loop builds names exactly the authors of the partial signatures.\<close>

lemma aggregate_masks:
  assumes wf: "wf_verifier vv" and inv: "bt_invar ps" and mem: "fst ` set ps \<subseteq> vv_members vv"
  obtains masks where
    "for_each (\<lambda>(sigs, masks) (addr, sig).
        and_then (ok_or (bt_get (address_to_validator_index vv) addr) UnknownAuthor) (\<lambda>index.
        Ok (sigs @ [sig], bv_set masks (of_nat index))))
      ([], with_num_bits (of_nat (vv_len vv))) ps = Ok (map snd ps, masks)"
    and "check_num_of_voters (of_nat (vv_len vv)) masks = Ok ()"
    and "ones masks \<subseteq> {..<vv_len vv}"
    and "mset (iter_ones masks) = mset (map (index_of vv \<circ> fst) ps)"
proof -
  let ?n = "of_nat (vv_len vv) :: u16"
  have n: "unat ?n = vv_len vv" using vv_len_less [OF wf] by (intro unat_of_nat_small) simp
  have nb0: "num_buckets (with_num_bits ?n) = required_buckets ?n"
    by (simp add: num_buckets_def with_num_bits_def)
  then have room: "vv_len vv \<le> 8 * num_buckets (with_num_bits ?n)"
    using n by (simp add: required_buckets_eq)
  obtain masks where loop: "for_each (\<lambda>(sigs, masks) (addr, sig).
        and_then (ok_or (bt_get (address_to_validator_index vv) addr) UnknownAuthor) (\<lambda>index.
        Ok (sigs @ [sig], bv_set masks (of_nat index)))) ([], with_num_bits ?n) ps = Ok (map snd ps, masks)"
    and ones: "ones masks = index_of vv ` fst ` set ps" and nb: "num_buckets masks = required_buckets ?n"
    using aggregate_loop [OF wf mem room, of "[]"] nb0 by auto
  have below: "ones masks \<subseteq> {..<vv_len vv}"
    using ones mem index_of_member(2) [OF wf] by auto
  have check: "check_num_of_voters ?n masks = Ok ()"
    using vv_len_less [OF wf] nb below by (rule check_num_of_voters_Ok)
  have set_ones: "set (iter_ones masks) = set (map (index_of vv \<circ> fst) ps)"
    using ones check_num_of_voters_wf [OF check] by (simp add: set_iter_ones image_image)
  have "distinct (map fst ps)" using bt.distinct_keys [OF inv] by (simp add: bt_keys_def)
  then have "distinct (map (index_of vv \<circ> fst) ps)"
    using inj_on_subset [OF inj_on_index_of [OF wf] mem] by (simp add: distinct_map comp_inj_on)
  then have "mset (iter_ones masks) = mset (map (index_of vv \<circ> fst) ps)"
    using set_ones set_eq_iff_mset_eq_distinct distinct_iter_ones by blast
  with loop check below show ?thesis by (rule that)
qed

lemma aggregated_addresses:
  assumes wf: "wf_verifier vv" and mem: "fst ` set ps \<subseteq> vv_members vv"
    and perm: "mset (iter_ones masks) = mset (map (index_of vv \<circ> fst) ps)"
  shows "mset (map (\<lambda>i. vci_address (validator_infos vv ! i)) (iter_ones masks)) = mset (map fst ps)"
proof -
  have "mset (map (\<lambda>i. vci_address (validator_infos vv ! i)) (iter_ones masks)) =
      mset (map (\<lambda>i. vci_address (validator_infos vv ! i)) (map (index_of vv \<circ> fst) ps))"
    using perm by (metis mset_map)
  also have "map (\<lambda>i. vci_address (validator_infos vv ! i)) (map (index_of vv \<circ> fst) ps) = map fst ps"
    using mem index_of_member(3) [OF wf] by auto
  finally show ?thesis .
qed

lemma verified_multisig:
  assumes wf: "wf_verifier vv" and bls: "bls_multisig_complete c" and ne: "ps \<noteq> []"
    and each: "\<And>a sg. (a, sg) \<in> set ps \<Longrightarrow> verifier_verify c vv a m sg = Ok ()"
    and perm: "mset is = mset (map (index_of vv \<circ> fst) ps)"
  obtains S K where "sig_aggregate c (map snd ps) = Ok S"
    and "pk_aggregate c (map (\<lambda>i. vci_public_key (validator_infos vv ! i)) is) = Ok K"
    and "sig_verify c S m K = Ok ()"
proof -
  let ?pk = "\<lambda>i. vci_public_key (validator_infos vv ! i)"
  have verified: "sig_verify c (snd p) m (?pk (index_of vv (fst p))) = Ok ()" if "p \<in> set ps" for p
    using each [of "fst p" "snd p"] verifier_verify_member [OF wf, of "fst p"] that
      verifier_verify_known [OF wf] by auto
  obtain bytes where bytes: "signing_message c m = Ok bytes"
    using verified [of "hd ps"] ne by (auto simp: sig_verify_eq_Ok)
  have "list_all2 (\<lambda>sig pk. blst_verify c sig bytes pk) (map snd ps) (map (?pk \<circ> (index_of vv \<circ> fst)) ps)"
    using verified bytes by (auto simp: list_all2_conv_all_nth sig_verify_eq_Ok)
  moreover have "mset (map ?pk is) = mset (map (?pk \<circ> (index_of vv \<circ> fst)) ps)"
    using perm by (metis map_map mset_map)
  ultimately obtain S K where "blst_aggregate_sigs c (map snd ps) = Some S"
    "blst_aggregate_pks c (map ?pk is) = Some K" "blst_verify c S bytes K"
    using bls ne unfolding bls_multisig_complete_def by blast
  then show ?thesis
    using bytes that [of S K] by (auto simp: sig_aggregate_def pk_aggregate_def ok_or_def sig_verify_eq_Ok)
qed

lemma quorum_nonempty: "wf_verifier vv \<Longrightarrow> \<not> is_quorum vv {}"
  using vq.threshold_gt [of vv] by (auto simp: is_quorum_def)

lemma aggregate_verify:
  assumes wf: "wf_verifier vv" and bls: "bls_multisig_complete c"
    and inv: "bt_invar (ps_signatures ps)"
    and each: "\<And>a sg. (a, sg) \<in> set (ps_signatures ps) \<Longrightarrow> verifier_verify c vv a m sg = Ok ()"
    and q: "is_quorum vv (set (bt_keys (ps_signatures ps)))"
  shows "\<exists>s. aggregate_signatures c vv ps = Ok s \<and> verify_multi_signatures c vv m s = Ok () \<and>
    signers vv s = set (bt_keys (ps_signatures ps))"
proof -
  let ?ps = "ps_signatures ps" and ?addr = "\<lambda>i. vci_address (validator_infos vv ! i)"
  have keys: "set (bt_keys ?ps) = fst ` set ?ps" by (simp add: bt_keys_def)
  have mem: "fst ` set ?ps \<subseteq> vv_members vv" using q by (simp add: is_quorum_def keys)
  have ne: "?ps \<noteq> []" using q quorum_nonempty [OF wf] by (auto simp: keys)
  obtain masks where loop: "for_each (\<lambda>(sigs, masks) (addr, sig).
        and_then (ok_or (bt_get (address_to_validator_index vv) addr) UnknownAuthor) (\<lambda>index.
        Ok (sigs @ [sig], bv_set masks (of_nat index))))
      ([], with_num_bits (of_nat (vv_len vv))) ?ps = Ok (map snd ?ps, masks)"
    and check: "check_num_of_voters (of_nat (vv_len vv)) masks = Ok ()"
    and below: "ones masks \<subseteq> {..<vv_len vv}"
    and perm: "mset (iter_ones masks) = mset (map (index_of vv \<circ> fst) ?ps)"
    using aggregate_masks [OF wf inv mem] .
  note wf_bv = check_num_of_voters_wf [OF check]
  note addrs = aggregated_addresses [OF wf mem perm]
  obtain S K where S: "sig_aggregate c (map snd ?ps) = Ok S"
    and K: "pk_aggregate c (map (\<lambda>i. vci_public_key (validator_infos vv ! i)) (iter_ones masks)) = Ok K"
    and ver: "sig_verify c S m K = Ok ()"
    using verified_multisig [OF wf bls ne each perm] .
  let ?s = "aggregate_signature_new masks (Some S)"
  have agg: "aggregate_signatures c vv ps = Ok ?s"
    unfolding aggregate_signatures_def loop by (simp add: S)
  have signers: "signers vv ?s = fst ` set ?ps"
    using mset_eq_setD [OF addrs] wf_bv
    by (simp add: signers_def aggregate_signature_new_def set_iter_ones)
  have "distinct (map ?addr (iter_ones masks))"
    using mset_eq_imp_distinct_iff [OF addrs] bt.distinct_keys [OF inv] by (simp add: bt_keys_def)
  moreover have "set (map ?addr (iter_ones masks)) = set (bt_keys ?ps)"
    using mset_eq_setD [OF addrs] keys by simp
  ultimately have "check_voting_power vv (map ?addr (iter_ones masks)) = Ok ()"
    using check_voting_power_quorum [OF wf] q by metis
  moreover have "voters_of_bitmask vv masks =
      Ok (map ?addr (iter_ones masks), map (\<lambda>i. vci_public_key (validator_infos vv ! i)) (iter_ones masks))"
    using below by (subst voters_of_bitmask_eq_Ok [OF wf_bv]) auto
  ultimately have "verify_multi_signatures c vv m ?s = Ok ()"
    using check K ver by (simp add: verify_multi_signatures_def aggregate_signature_new_def ok_or_def)
  then show ?thesis using agg signers keys by auto
qed


section \<open>A sample validator set\<close>

text \<open>
  Concrete instances of the parameters, on which the theorems below and those of the later theories
  are evaluated: an encoder that keeps the low byte of every number, a signature scheme that is
  linear in the key as BLS is, and four validators of power one.
\<close>

fun sample_bcs :: "serde \<Rightarrow> u8 list" where
  "sample_bcs (SBool b) = [if b then 1 else 0]"
| "sample_bcs (SU8 n) = [n]"
| "sample_bcs (SU16 n) = [ucast n]"
| "sample_bcs (SU32 n) = [ucast n]"
| "sample_bcs (SU64 n) = [ucast n]"
| "sample_bcs (SU128 n) = [ucast n]"
| "sample_bcs (SFixed h) = [ucast h]"
| "sample_bcs (SBytes bs) = bs"
| "sample_bcs SNone = [0]"
| "sample_bcs (SSome v) = 1 # sample_bcs v"
| "sample_bcs (SSeq vs) = of_nat (length vs) # concat (map sample_bcs vs)"
| "sample_bcs (SStruct vs) = concat (map sample_bcs vs)"
| "sample_bcs (SVariant n vs) = of_nat n # concat (map sample_bcs vs)"

definition sample_scalar :: "u8 list \<Rightarrow> u8" where
  "sample_scalar bs = (case bs of [] \<Rightarrow> 0 | b # _ \<Rightarrow> b)"

definition sample_point :: "u8 list \<Rightarrow> u8" where
  "sample_point bs = foldl (\<lambda>h b. 3 * h + b) 1 bs"

definition sample_crypto :: crypto where
  "sample_crypto =
     \<lparr>sha3_256 = (\<lambda>bs. foldl (\<lambda>h b. 256 * h + ucast b) 1 bs),
      bcs_to_bytes = (\<lambda>v. Some (sample_bcs v)),
      blst_sign = (\<lambda>sk bs. [sample_scalar sk * sample_point bs]),
      blst_sk_to_pk = (\<lambda>sk. [sample_scalar sk]),
      blst_verify = (\<lambda>sig bs pk. sig = [sample_scalar pk * sample_point bs]),
      blst_aggregate_verify = (\<lambda>sig msgs pks.
        length msgs = length pks \<and>
        sig = [sum_list (map (\<lambda>(pk, bs). sample_scalar pk * sample_point bs) (zip pks msgs))]),
      blst_aggregate_sigs = (\<lambda>sigs. if sigs = [] then None else Some [sum_list (map sample_scalar sigs)]),
      blst_aggregate_pks = (\<lambda>pks. if pks = [] then None else Some [sum_list (map sample_scalar pks)])\<rparr>"

definition sample_infos :: "validator_consensus_info list" where
  "sample_infos = map (\<lambda>i. \<lparr>vci_address = i, vci_public_key = [ucast i], vci_voting_power = 1\<rparr>) [1, 2, 3, 4]"

definition sample_verifier :: validator_verifier where
  "sample_verifier = build_index sample_infos 3 4"

text \<open>A certificate on a message by the first three of them.\<close>

definition sample_partial :: "message \<Rightarrow> account_address list \<Rightarrow> partial_signatures" where
  "sample_partial m authors =
     \<lparr>ps_signatures = bt_collect (map (\<lambda>a. (a, case sk_sign sample_crypto [ucast a] m of Ok s \<Rightarrow> s | _ \<Rightarrow> [])) authors)\<rparr>"

definition sample_message :: message where
  "sample_message = Message ''Sample'' (SU64 7)"

definition sample_cert :: "message \<Rightarrow> account_address list \<Rightarrow> aggregate_signature" where
  "sample_cert m authors =
     (case aggregate_signatures sample_crypto sample_verifier (sample_partial m authors) of
        Ok s \<Rightarrow> s | _ \<Rightarrow> aggregate_signature_empty)"

lemma sample_verifier_new: "verifier_new sample_infos = (Ok sample_verifier :: (validator_verifier, unit) result)"
  by code_simp

lemma validator_infos_sample: "validator_infos sample_verifier = sample_infos"
  by (simp add: sample_verifier_def build_index_def)

lemma wf_sample_verifier [simp]: "wf_verifier sample_verifier"
  by (simp add: wf_verifier_def validator_infos_sample sample_verifier_new) (simp add: sample_infos_def)

lemma sample_total: "unat (total_voting_power sample_verifier) = 4"
  by code_simp

lemma sample_cert_verifies:
  "verify_multi_signatures sample_crypto sample_verifier sample_message (sample_cert sample_message [1, 2, 3]) = Ok ()"
  by code_simp

lemma sample_multisig_complete: "bls_multisig_complete sample_crypto"
proof -
  have sum: "sum_list (map sample_scalar sigs) = sum_list (map sample_scalar pks) * sample_point bs"
    if "list_all2 (\<lambda>sig pk. sig = [sample_scalar pk * sample_point bs]) sigs pks" for sigs pks bs
    using that by (induction rule: list_all2_induct) (simp_all add: sample_scalar_def distrib_right)
  have perm: "sum_list (map sample_scalar pks') = sum_list (map sample_scalar pks)"
    if "mset pks' = mset pks" for pks pks'
    using that by (metis mset_map sum_mset_sum_list)
  show ?thesis
    unfolding bls_multisig_complete_def
  proof (intro allI impI, elim conjE)
    fix bs sigs pks
    assume ne: "sigs \<noteq> []" and ver: "list_all2 (\<lambda>sig pk. blst_verify sample_crypto sig bs pk) sigs pks"
    then have eq: "sum_list (map sample_scalar sigs) = sum_list (map sample_scalar pks) * sample_point bs"
      by (intro sum) (simp add: sample_crypto_def)
    have "blst_aggregate_pks sample_crypto pks' = Some [sum_list (map sample_scalar pks)]"
      if "mset pks' = mset pks" for pks'
      using that ne ver perm [OF that] by (auto simp: sample_crypto_def)
    moreover have "blst_aggregate_sigs sample_crypto sigs = Some [sum_list (map sample_scalar sigs)]"
      using ne by (simp add: sample_crypto_def)
    moreover have "blst_verify sample_crypto [sum_list (map sample_scalar sigs)] bs [sum_list (map sample_scalar pks)]"
      using eq by (simp add: sample_crypto_def) (simp add: sample_scalar_def)
    ultimately show "\<exists>S. blst_aggregate_sigs sample_crypto sigs = Some S \<and>
        (\<forall>pks'. mset pks' = mset pks \<longrightarrow>
          (\<exists>K. blst_aggregate_pks sample_crypto pks' = Some K \<and> blst_verify sample_crypto S bs K))"
      by blast
  qed
qed

text \<open>Every message has a certificate by the first three of them.\<close>

lemma sample_signatures:
  "ps_signatures (sample_partial m [1, 2, 3]) =
   map (\<lambda>a. (a, case sk_sign sample_crypto [ucast a] m of Ok s \<Rightarrow> s | _ \<Rightarrow> [])) [1, 2, 3]"
  by (simp add: sample_partial_def bt_collect_def bt_empty_def)

lemma sample_signature_verifies:
  assumes "a \<in> {1, 2, 3, 4}"
  shows "verifier_verify sample_crypto sample_verifier a m
    (case sk_sign sample_crypto [ucast a] m of Ok s \<Rightarrow> s | _ \<Rightarrow> []) = Ok ()"
proof -
  have "get_public_key sample_verifier a = Some [ucast a]" using assms by (elim insertE emptyE) (simp_all, code_simp+)
  moreover obtain bs where "signing_message sample_crypto m = Ok bs"
    by (simp add: signing_message_def sample_crypto_def ok_or_def)
  ultimately show ?thesis
    by (simp add: verifier_verify_def sk_sign_def verify_struct_signature_def sig_verify_def
        sig_verify_arbitrary_msg_def) (simp add: sample_crypto_def sample_scalar_def)
qed

lemma sample_cert_ok:
  "verify_multi_signatures sample_crypto sample_verifier m (sample_cert m [1, 2, 3]) = Ok ()"
  "signers sample_verifier (sample_cert m [1, 2, 3]) = {1, 2, 3}"
proof -
  let ?ps = "sample_partial m [1, 2, 3]"
  have keys: "set (bt_keys (ps_signatures ?ps)) = {1, 2, 3}"
    by (simp only: bt_keys_def sample_signatures) auto
  have power: "vv_power sample_verifier 1 = 1" "vv_power sample_verifier 2 = 1"
    "vv_power sample_verifier 3 = 1" "vv_quorum sample_verifier = 3"
    by code_simp+
  have "{1, 2, 3} \<subseteq> vv_members sample_verifier" by code_simp
  then have q: "is_quorum sample_verifier (set (bt_keys (ps_signatures ?ps)))"
    unfolding keys is_quorum_def by (simp add: power)
  have "verifier_verify sample_crypto sample_verifier a m sg = Ok ()" if "(a, sg) \<in> set (ps_signatures ?ps)" for a sg
    using that sample_signature_verifies [of a m] by (auto simp: sample_signatures)
  moreover have "bt_invar (ps_signatures ?ps)" by (simp add: sample_partial_def bt_invar_collect)
  ultimately obtain s where "aggregate_signatures sample_crypto sample_verifier ?ps = Ok s"
    "verify_multi_signatures sample_crypto sample_verifier m s = Ok ()" "signers sample_verifier s = {1, 2, 3}"
    using aggregate_verify [OF wf_sample_verifier sample_multisig_complete _ _ q] keys by metis
  then show "verify_multi_signatures sample_crypto sample_verifier m (sample_cert m [1, 2, 3]) = Ok ()"
    "signers sample_verifier (sample_cert m [1, 2, 3]) = {1, 2, 3}"
    by (simp_all add: sample_cert_def)
qed

section \<open>Properties\<close>

text \<open>
  C28. Any two certificates that the verifier of an epoch accepts, on whatever messages, have a
  signer in common that lies outside any given coalition holding at most a third of the voting
  power.
\<close>

theorem certificates_share_honest_signer:
  assumes "wf_verifier vv"
    and "verify_multi_signatures c vv m s = Ok ()"
    and "verify_multi_signatures c vv m' s' = Ok ()"
    and "3 * sum (vv_power vv) (B \<inter> vv_members vv) \<le> unat (total_voting_power vv)"
  shows "\<exists>a \<in> signers vv s \<inter> signers vv s'. a \<notin> B"
  using quorums_share_honest_signer [OF assms(1) _ _ assms(4)] verify_multi_signatures_OkD(1) assms(1-3)
  by blast

lemma sample_power_subset: "sum (vv_power sample_verifier) ({1} \<inter> vv_members sample_verifier) = 1"
proof -
  have "{1} \<inter> vv_members sample_verifier = {1}" by code_simp
  moreover have "vv_power sample_verifier 1 = 1" by code_simp
  ultimately show ?thesis by simp
qed

theorem certificates_share_honest_signer_witness:
  "\<exists>a \<in> signers sample_verifier (sample_cert sample_message [1, 2, 3]) \<inter>
        signers sample_verifier (sample_cert sample_message [1, 2, 3]). a \<notin> {1}"
  using certificates_share_honest_signer [OF wf_sample_verifier sample_cert_verifies sample_cert_verifies, of "{1}"]
  by (simp add: sample_power_subset sample_total)

text \<open>
  C29. Signatures that each verify under their author's key, from authors whose power reaches the
  quorum, aggregate, and the aggregate verifies: what \<^verbatim>\<open>aggregate_signatures\<close> builds is accepted by
  \<^verbatim>\<open>verify_multi_signatures\<close> and its bitmask names exactly those authors.
\<close>

theorem aggregate_then_verify:
  assumes "wf_verifier vv" and "bls_multisig_complete c" and "bt_invar (ps_signatures ps)"
    and "\<forall>(a, sg) \<in> set (ps_signatures ps). verifier_verify c vv a m sg = Ok ()"
    and "vv_quorum vv \<le> sum (vv_power vv) (set (bt_keys (ps_signatures ps)))"
  shows "\<exists>s. aggregate_signatures c vv ps = Ok s \<and> verify_multi_signatures c vv m s = Ok () \<and>
    signers vv s = set (bt_keys (ps_signatures ps))"
proof -
  have "set (bt_keys (ps_signatures ps)) \<subseteq> vv_members vv"
    using assms(4) verifier_verify_known [OF assms(1)] by (force simp: bt_keys_def)
  then show ?thesis
    using assms(4,5) by (intro aggregate_verify [OF assms(1-3)]) (auto simp: is_quorum_def)
qed

lemma sample_partial_each:
  "\<forall>(a, sg) \<in> set (ps_signatures (sample_partial sample_message [1, 2, 3])).
     verifier_verify sample_crypto sample_verifier a sample_message sg = Ok ()"
  by code_simp

lemma sample_partial_quorum:
  "vv_quorum sample_verifier \<le>
   sum (vv_power sample_verifier) (set (bt_keys (ps_signatures (sample_partial sample_message [1, 2, 3]))))"
proof -
  have "bt_keys (ps_signatures (sample_partial sample_message [1, 2, 3])) = [1, 2, 3]" by code_simp
  moreover have "vv_power sample_verifier 1 = 1" "vv_power sample_verifier 2 = 1"
    "vv_power sample_verifier 3 = 1" "vv_quorum sample_verifier = 3"
    by code_simp+
  ultimately show ?thesis by simp
qed

theorem aggregate_then_verify_witness:
  "\<exists>s. aggregate_signatures sample_crypto sample_verifier (sample_partial sample_message [1, 2, 3]) = Ok s \<and>
     verify_multi_signatures sample_crypto sample_verifier sample_message s = Ok () \<and>
     signers sample_verifier s = set (bt_keys (ps_signatures (sample_partial sample_message [1, 2, 3])))"
  by (rule aggregate_then_verify [OF wf_sample_verifier sample_multisig_complete _ sample_partial_each
      sample_partial_quorum]) (simp add: sample_partial_def bt_invar_collect)

text \<open>
  C34. The voting power check accepts a list of authors exactly when all of them are in the set, their
  powers sum up (with multiplicity) to at least the quorum, and the sum fits its 128 bits.
\<close>

theorem check_voting_power_iff:
  "check_voting_power vv authors = Ok () \<longleftrightarrow>
   list_all (\<lambda>a. get_voting_power vv a \<noteq> None) authors \<and>
   sum_list (map (vv_power vv) authors) < 2 ^ 128 \<and>
   unat (quorum_voting_power vv) \<le> sum_list (map (vv_power vv) authors)"
  by (simp add: check_voting_power_eq_Ok vv_quorum_def list_all_iff)

text \<open>
  C35. The constructor never overflows on a set of fewer than \<open>2 ^ 62\<close> validators, and requires more than
  two thirds of the total power (nothing of an empty set).
\<close>

theorem verifier_new_quorum:
  assumes "length infos < 2 ^ 62"
  shows "\<exists>vv. verifier_new infos = (Ok vv :: (validator_verifier, unit) result) \<and>
    validator_infos vv = infos \<and>
    unat (total_voting_power vv) = sum_list (map (unat \<circ> vci_voting_power) infos) \<and>
    unat (quorum_voting_power vv) =
      (if infos = [] then 0 else 2 * sum_list (map (unat \<circ> vci_voting_power) infos) div 3 + 1)"
proof -
  let ?T = "sum_list (map (unat \<circ> vci_voting_power) infos)"
  have "?T \<le> length infos * 2 ^ 64"
  proof (induction infos)
    case (Cons x xs)
    have "unat (vci_voting_power x) < 2 ^ 64" using unat_lt_2p [of "vci_voting_power x"] by (simp del: unat_lt_2p)
    then show ?case using Cons by simp
  qed simp
  also have "\<dots> < 2 ^ 62 * 2 ^ 64" using assms by simp
  finally have T: "?T < 2 ^ 126" by simp
  define t where "t = (of_nat ?T :: u128)"
  have ut: "unat t = ?T" unfolding t_def using T by (intro unat_of_nat_small) simp
  then have sum: "sum_voting_power infos = (Ok t :: (u128, unit) result)"
    by (simp add: sum_voting_power_eq_Ok)
  show ?thesis
  proof (cases "infos = []")
    case True
    then have "verifier_new infos = (Ok (build_index infos 0 t) :: (_, unit) result)"
      by (simp add: verifier_new_def sum [unfolded True])
    then show ?thesis using True ut by (simp add: build_index_def)
  next
    case False
    have d: "unat (t * 2) = ?T * 2"
      using T ut by (subst unat_mult_lem [THEN iffD1]) simp_all
    then have m: "times_or_panic t 2 = (Ok (t * 2) :: (_, unit) result)"
      using T ut by (simp add: times_or_panic_def checked_mul_def expect_def)
    have p: "plus_or_panic (t * 2 div 3) 1 = (Ok (t * 2 div 3 + 1) :: (_, unit) result)"
      using T d by (intro plus_or_panic_ok) (simp add: unat_div)
    have "verifier_new infos = (Ok (build_index infos (t * 2 div 3 + 1) t) :: (_, unit) result)"
      using False by (simp add: verifier_new_def sum m p)
    then show ?thesis
      using False ut plus_or_panic_OkD [OF p] d by (simp add: build_index_def unat_div mult.commute)
  qed
qed

theorem verifier_new_quorum_witness:
  "\<exists>vv. verifier_new sample_infos = (Ok vv :: (validator_verifier, unit) result) \<and>
     unat (quorum_voting_power vv) = 3"
proof -
  have ne: "sample_infos \<noteq> []" and len: "length sample_infos < 2 ^ 62"
    and sum: "sum_list (map (unat \<circ> vci_voting_power) sample_infos) = 4"
    by (simp_all add: sample_infos_def)
  show ?thesis using verifier_new_quorum [OF len] ne sum by auto
qed

end
