(* ===== verification/Ledger_Info.thy ===== *)
theory Ledger_Info
  imports Validator_Verifier
begin

text \<open>
  The signed state of the ledger: \<^verbatim>\<open>types/src/block_info.rs\<close>, \<^verbatim>\<open>epoch_state.rs\<close> and \<^verbatim>\<open>ledger_info.rs\<close>,
  with the errors of the anyhow crate. What a verified ledger info means is shown with the
  certificates that carry it, in \<open>Quorum_Cert\<close> and \<open>Epoch_Change\<close>.
\<close>

section \<open>Errors of the anyhow crate\<close>

text \<open>
  An \<^verbatim>\<open>anyhow::Error\<close> is the message it was made from (its fixed text; the formatted arguments are
  left out) or the error it wraps.
\<close>

datatype anyhow =
    Anyhow string
  | FromVerifyError verify_error
  | FromHashValueParseError
  | FromParseIntError

section \<open>Blocks and ledger infos\<close>

record epoch_state =
  es_epoch :: u64
  es_verifier :: validator_verifier

definition GENESIS_EPOCH :: u64 where "GENESIS_EPOCH = 0"
definition GENESIS_ROUND :: round where "GENESIS_ROUND = 0"
definition GENESIS_VERSION :: version where "GENESIS_VERSION = 0"
definition GENESIS_TIMESTAMP_USECS :: u64 where "GENESIS_TIMESTAMP_USECS = 0"

record block_info =
  bi_epoch :: u64
  bi_round :: round
  bi_id :: hash_value
  bi_executed_state_id :: hash_value
  bi_version :: version
  bi_timestamp_usecs :: u64
  bi_next_epoch_state :: "epoch_state option"

definition epoch_state_empty :: "(epoch_state, 'e) result" where
  "epoch_state_empty = map_ok (\<lambda>vv. \<lparr>es_epoch = 0, es_verifier = vv\<rparr>) (verifier_new [])"

definition block_info_empty :: block_info where
  "block_info_empty =
     \<lparr>bi_epoch = 0, bi_round = 0, bi_id = hv_zero, bi_executed_state_id = hv_zero, bi_version = 0,
      bi_timestamp_usecs = 0, bi_next_epoch_state = None\<rparr>"

definition block_info_genesis :: "hash_value \<Rightarrow> validator_set \<Rightarrow> (block_info, 'e) result" where
  "block_info_genesis genesis_state_root_hash validator_set =
     map_ok (\<lambda>vv.
       \<lparr>bi_epoch = GENESIS_EPOCH, bi_round = GENESIS_ROUND, bi_id = hv_zero,
        bi_executed_state_id = genesis_state_root_hash, bi_version = GENESIS_VERSION,
        bi_timestamp_usecs = GENESIS_TIMESTAMP_USECS,
        bi_next_epoch_state = Some \<lparr>es_epoch = 1, es_verifier = vv\<rparr>\<rparr>)
       (verifier_from_validator_set validator_set)"

definition has_reconfiguration :: "block_info \<Rightarrow> bool" where
  "has_reconfiguration bi \<longleftrightarrow> bi_next_epoch_state bi \<noteq> None"

definition next_block_epoch :: "block_info \<Rightarrow> u64" where
  "next_block_epoch bi = (case bi_next_epoch_state bi of Some e \<Rightarrow> es_epoch e | None \<Rightarrow> bi_epoch bi)"

definition allow_timestamp_change :: "block_info \<Rightarrow> u64 \<Rightarrow> bool" where
  "allow_timestamp_change bi timestamp \<longleftrightarrow> has_reconfiguration bi \<and> bi_timestamp_usecs bi \<ge> timestamp"

definition change_timestamp :: "block_info \<Rightarrow> u64 \<Rightarrow> (block_info, 'e) result" where
  "change_timestamp bi timestamp =
     and_then (rust_assert (allow_timestamp_change bi timestamp)) (\<lambda>_.
     Ok (bi\<lparr>bi_timestamp_usecs := timestamp\<rparr>))"

definition match_ordered_only :: "block_info \<Rightarrow> block_info \<Rightarrow> bool" where
  "match_ordered_only bi executed \<longleftrightarrow>
     bi_epoch bi = bi_epoch executed \<and> bi_round bi = bi_round executed \<and> bi_id bi = bi_id executed \<and>
     (bi_timestamp_usecs bi = bi_timestamp_usecs executed \<or>
      (bi_timestamp_usecs bi > bi_timestamp_usecs executed \<and> has_reconfiguration executed))"

definition is_ordered_only :: "block_info \<Rightarrow> bool" where
  "is_ordered_only bi \<longleftrightarrow>
     bi \<noteq> block_info_empty \<and> bi_next_epoch_state bi = None \<and>
     bi_executed_state_id bi = ACCUMULATOR_PLACEHOLDER_HASH \<and> bi_version bi = 0"

record ledger_info =
  commit_info :: block_info
  consensus_data_hash :: hash_value

definition li_epoch :: "ledger_info \<Rightarrow> u64" where "li_epoch li = bi_epoch (commit_info li)"
definition li_next_block_epoch :: "ledger_info \<Rightarrow> u64" where "li_next_block_epoch li = next_block_epoch (commit_info li)"
definition li_round :: "ledger_info \<Rightarrow> round" where "li_round li = bi_round (commit_info li)"
definition li_version :: "ledger_info \<Rightarrow> version" where "li_version li = bi_version (commit_info li)"
definition li_timestamp_usecs :: "ledger_info \<Rightarrow> u64" where "li_timestamp_usecs li = bi_timestamp_usecs (commit_info li)"
definition consensus_block_id :: "ledger_info \<Rightarrow> hash_value" where "consensus_block_id li = bi_id (commit_info li)"
definition transaction_accumulator_hash :: "ledger_info \<Rightarrow> hash_value" where
  "transaction_accumulator_hash li = bi_executed_state_id (commit_info li)"
definition li_next_epoch_state :: "ledger_info \<Rightarrow> epoch_state option" where
  "li_next_epoch_state li = bi_next_epoch_state (commit_info li)"
definition ends_epoch :: "ledger_info \<Rightarrow> bool" where "ends_epoch li \<longleftrightarrow> li_next_epoch_state li \<noteq> None"

definition ledger_info_genesis :: "hash_value \<Rightarrow> validator_set \<Rightarrow> (ledger_info, 'e) result" where
  "ledger_info_genesis root vset =
     map_ok (\<lambda>bi. \<lparr>commit_info = bi, consensus_data_hash = hv_zero\<rparr>) (block_info_genesis root vset)"

text \<open>\<^verbatim>\<open>LedgerInfoWithSignatures\<close> has the single variant \<^verbatim>\<open>V0\<close> and dereferences to it.\<close>

record ledger_info_with_signatures =
  lis_ledger_info :: ledger_info
  lis_signatures :: aggregate_signature

definition lis_commit_info :: "ledger_info_with_signatures \<Rightarrow> block_info" where
  "lis_commit_info l = commit_info (lis_ledger_info l)"

definition lis_genesis :: "hash_value \<Rightarrow> validator_set \<Rightarrow> (ledger_info_with_signatures, 'e) result" where
  "lis_genesis root vset =
     map_ok (\<lambda>li. \<lparr>lis_ledger_info = li, lis_signatures = aggregate_signature_empty\<rparr>)
       (ledger_info_genesis root vset)"

section \<open>Serialization\<close>

definition ser_epoch_state :: "epoch_state \<Rightarrow> serde" where
  "ser_epoch_state es = SStruct [SU64 (es_epoch es), ser_validator_verifier (es_verifier es)]"

definition ser_block_info :: "block_info \<Rightarrow> serde" where
  "ser_block_info bi =
     SStruct [SU64 (bi_epoch bi), SU64 (bi_round bi), SFixed (bi_id bi), SFixed (bi_executed_state_id bi),
       SU64 (bi_version bi), SU64 (bi_timestamp_usecs bi),
       ser_option ser_epoch_state (bi_next_epoch_state bi)]"

definition ser_ledger_info :: "ledger_info \<Rightarrow> serde" where
  "ser_ledger_info li = SStruct [ser_block_info (commit_info li), SFixed (consensus_data_hash li)]"

definition msg_ledger_info :: "ledger_info \<Rightarrow> message" where
  "msg_ledger_info li = Message ''LedgerInfo'' (ser_ledger_info li)"

definition ser_bit_vec :: "bit_vec \<Rightarrow> serde" where
  "ser_bit_vec bv = SStruct [SBytes (inner bv)]"

definition ser_aggregate_signature :: "aggregate_signature \<Rightarrow> serde" where
  "ser_aggregate_signature s =
     SStruct [ser_bit_vec (validator_bitmask s), ser_option SBytes (agg_sig s)]"

definition ser_ledger_info_with_signatures :: "ledger_info_with_signatures \<Rightarrow> serde" where
  "ser_ledger_info_with_signatures l =
     SVariant 0 [SStruct [ser_ledger_info (lis_ledger_info l), ser_aggregate_signature (lis_signatures l)]]"

section \<open>Certified ledger infos\<close>

definition lis_get_voters :: "ledger_info_with_signatures \<Rightarrow> account_address list \<Rightarrow> account_address list" where
  "lis_get_voters l addresses = get_voter_addresses (lis_signatures l) addresses"

definition lis_get_num_voters :: "ledger_info_with_signatures \<Rightarrow> nat" where
  "lis_get_num_voters l = get_num_voters (lis_signatures l)"

definition lis_verify_signatures ::
  "crypto \<Rightarrow> ledger_info_with_signatures \<Rightarrow> validator_verifier \<Rightarrow> (unit, verify_error) result" where
  "lis_verify_signatures c l vv =
     verify_multi_signatures c vv (msg_ledger_info (lis_ledger_info l)) (lis_signatures l)"

definition lis_check_voting_power ::
  "ledger_info_with_signatures \<Rightarrow> validator_verifier \<Rightarrow> (unit, verify_error) result" where
  "lis_check_voting_power l vv =
     check_voting_power vv (lis_get_voters l (get_ordered_account_addresses vv))"

record ledger_info_with_partial_signatures =
  lip_ledger_info :: ledger_info
  lip_partial_sigs :: partial_signatures

definition lip_add_signature ::
  "account_address \<Rightarrow> bls_signature \<Rightarrow> ledger_info_with_partial_signatures \<Rightarrow> ledger_info_with_partial_signatures" where
  "lip_add_signature validator signature l =
     l\<lparr>lip_partial_sigs := ps_add_signature validator signature (lip_partial_sigs l)\<rparr>"

definition lip_remove_signature ::
  "account_address \<Rightarrow> ledger_info_with_partial_signatures \<Rightarrow> ledger_info_with_partial_signatures" where
  "lip_remove_signature validator l =
     l\<lparr>lip_partial_sigs := ps_remove_signature validator (lip_partial_sigs l)\<rparr>"

definition lip_aggregate_signatures ::
  "crypto \<Rightarrow> ledger_info_with_partial_signatures \<Rightarrow> validator_verifier \<Rightarrow>
   (ledger_info_with_signatures, verify_error) result" where
  "lip_aggregate_signatures c l vv =
     and_then (aggregate_signatures c vv (lip_partial_sigs l)) (\<lambda>aggregated_sig.
     Ok \<lparr>lis_ledger_info = lip_ledger_info l, lis_signatures = aggregated_sig\<rparr>)"

end
