(* ===== verification/Quorum_Cert.thy ===== *)
theory Quorum_Cert
  imports Ledger_Info
begin

text \<open>
  Certificates of \<^verbatim>\<open>consensus/consensus-types\<close>: \<^verbatim>\<open>vote_data.rs\<close>, \<^verbatim>\<open>quorum_cert.rs\<close> and
  \<^verbatim>\<open>timeout_2chain.rs\<close>. The lemmas extract from a verified certificate who signed what.
\<close>

section \<open>Vote data\<close>

record vote_data =
  vd_proposed :: block_info
  vd_parent :: block_info

definition vote_data_verify :: "vote_data \<Rightarrow> (unit, anyhow) result" where
  "vote_data_verify vd =
     and_then (ensure (bi_epoch (vd_parent vd) = bi_epoch (vd_proposed vd))
       (Anyhow ''Parent and proposed epochs do not match'')) (\<lambda>_.
     and_then (ensure (bi_round (vd_parent vd) < bi_round (vd_proposed vd))
       (Anyhow ''Proposed round is less than parent round'')) (\<lambda>_.
     and_then (ensure (bi_timestamp_usecs (vd_parent vd) \<le> bi_timestamp_usecs (vd_proposed vd))
       (Anyhow ''Proposed happened before parent'')) (\<lambda>_.
     ensure (bi_version (vd_proposed vd) = 0 \<or> bi_version (vd_parent vd) \<le> bi_version (vd_proposed vd))
       (Anyhow ''Proposed version is less than parent version''))))"

definition is_for_nil :: "vote_data \<Rightarrow> bool" where
  "is_for_nil vd \<longleftrightarrow> bi_timestamp_usecs (vd_proposed vd) = bi_timestamp_usecs (vd_parent vd)"

definition ser_vote_data :: "vote_data \<Rightarrow> serde" where
  "ser_vote_data vd = SStruct [ser_block_info (vd_proposed vd), ser_block_info (vd_parent vd)]"

definition msg_vote_data :: "vote_data \<Rightarrow> message" where
  "msg_vote_data vd = Message ''VoteData'' (ser_vote_data vd)"

section \<open>Quorum certificates\<close>

record quorum_cert =
  qc_vote_data :: vote_data
  qc_signed_ledger_info :: ledger_info_with_signatures

definition certified_block :: "quorum_cert \<Rightarrow> block_info" where
  "certified_block qc = vd_proposed (qc_vote_data qc)"

definition parent_block :: "quorum_cert \<Rightarrow> block_info" where
  "parent_block qc = vd_parent (qc_vote_data qc)"

definition qc_commit_info :: "quorum_cert \<Rightarrow> block_info" where
  "qc_commit_info qc = commit_info (lis_ledger_info (qc_signed_ledger_info qc))"

definition qc_ends_epoch :: "quorum_cert \<Rightarrow> bool" where
  "qc_ends_epoch qc \<longleftrightarrow> ends_epoch (lis_ledger_info (qc_signed_ledger_info qc))"

definition certificate_for_genesis_from_ledger_info ::
  "crypto \<Rightarrow> ledger_info \<Rightarrow> hash_value \<Rightarrow> (quorum_cert, 'e) result" where
  "certificate_for_genesis_from_ledger_info c li genesis_id =
     and_then (expect (checked_add (li_epoch li) 1)) (\<lambda>epoch.
     let ancestor =
       \<lparr>bi_epoch = epoch, bi_round = 0, bi_id = genesis_id,
        bi_executed_state_id = transaction_accumulator_hash li, bi_version = li_version li,
        bi_timestamp_usecs = li_timestamp_usecs li, bi_next_epoch_state = None\<rparr>;
       vd = \<lparr>vd_proposed = ancestor, vd_parent = ancestor\<rparr> in
     and_then (crypto_hash c (msg_vote_data vd)) (\<lambda>hash.
     and_then (expect (li_next_epoch_state li)) (\<lambda>es.
     Ok \<lparr>qc_vote_data = vd,
         qc_signed_ledger_info =
           \<lparr>lis_ledger_info = \<lparr>commit_info = ancestor, consensus_data_hash = hash\<rparr>,
            lis_signatures =
              aggregate_signature_new (with_num_bits (of_nat (vv_len (es_verifier es)))) None\<rparr>\<rparr>)))"

definition qc_verify :: "crypto \<Rightarrow> quorum_cert \<Rightarrow> validator_verifier \<Rightarrow> (unit, anyhow) result" where
  "qc_verify c qc vv =
     and_then (crypto_hash c (msg_vote_data (qc_vote_data qc))) (\<lambda>vote_hash.
     and_then (ensure (consensus_data_hash (lis_ledger_info (qc_signed_ledger_info qc)) = vote_hash)
       (Anyhow ''Quorum Cert's hash mismatch LedgerInfo'')) (\<lambda>_.
     if bi_round (certified_block qc) = 0
     then and_then (ensure (parent_block qc = certified_block qc)
            (Anyhow ''Genesis QC has inconsistent parent block with certified block'')) (\<lambda>_.
          and_then (ensure (certified_block qc = qc_commit_info qc)
            (Anyhow ''Genesis QC has inconsistent commit block with certified block'')) (\<lambda>_.
          ensure (lis_get_num_voters (qc_signed_ledger_info qc) = 0)
            (Anyhow ''Genesis QC should not carry signatures'')))
     else and_then (map_err FromVerifyError (lis_verify_signatures c (qc_signed_ledger_info qc) vv)) (\<lambda>_.
          vote_data_verify (qc_vote_data qc))))"

definition create_merged_with_executed_state ::
  "quorum_cert \<Rightarrow> ledger_info_with_signatures \<Rightarrow> (quorum_cert, anyhow) result" where
  "create_merged_with_executed_state qc executed_ledger_info =
     and_then (ensure (match_ordered_only (qc_commit_info qc) (lis_commit_info executed_ledger_info))
       (Anyhow ''Block info from QC and executed LI need to match'')) (\<lambda>_.
     Ok \<lparr>qc_vote_data = qc_vote_data qc, qc_signed_ledger_info = executed_ledger_info\<rparr>)"

definition ser_quorum_cert :: "quorum_cert \<Rightarrow> serde" where
  "ser_quorum_cert qc =
     SStruct [ser_vote_data (qc_vote_data qc), ser_ledger_info_with_signatures (qc_signed_ledger_info qc)]"

section \<open>Two-chain timeouts\<close>

record two_chain_timeout =
  to_epoch :: u64
  to_round :: round
  to_quorum_cert :: quorum_cert

definition hqc_round :: "two_chain_timeout \<Rightarrow> round" where
  "hqc_round t = bi_round (certified_block (to_quorum_cert t))"

record timeout_signing_repr =
  tsr_epoch :: u64
  tsr_round :: round
  tsr_hqc_round :: round

definition signing_format :: "two_chain_timeout \<Rightarrow> timeout_signing_repr" where
  "signing_format t = \<lparr>tsr_epoch = to_epoch t, tsr_round = to_round t, tsr_hqc_round = hqc_round t\<rparr>"

definition msg_timeout :: "timeout_signing_repr \<Rightarrow> message" where
  "msg_timeout r =
     Message ''TimeoutSigningRepr'' (SStruct [SU64 (tsr_epoch r), SU64 (tsr_round r), SU64 (tsr_hqc_round r)])"

definition timeout_sign ::
  "crypto \<Rightarrow> two_chain_timeout \<Rightarrow> validator_signer \<Rightarrow> (bls_signature, crypto_material_error) result" where
  "timeout_sign c t signer = signer_sign c signer (msg_timeout (signing_format t))"

definition timeout_verify :: "crypto \<Rightarrow> two_chain_timeout \<Rightarrow> validator_verifier \<Rightarrow> (unit, anyhow) result" where
  "timeout_verify c t vv =
     and_then (ensure (hqc_round t < to_round t)
       (Anyhow ''Timeout round should be larger than the QC round'')) (\<lambda>_.
     qc_verify c (to_quorum_cert t) vv)"

text \<open>Signatures on different rounds, aggregated in the order of the validator indices.\<close>

record aggregate_signature_with_rounds =
  asr_sig :: aggregate_signature
  asr_rounds :: "round list"

definition asr_new :: "aggregate_signature \<Rightarrow> round list \<Rightarrow> (aggregate_signature_with_rounds, 'e) result" where
  "asr_new sig rounds =
     and_then (rust_assert (get_num_voters sig = length rounds)) (\<lambda>_.
     Ok \<lparr>asr_sig = sig, asr_rounds = rounds\<rparr>)"

definition asr_empty :: aggregate_signature_with_rounds where
  "asr_empty = \<lparr>asr_sig = aggregate_signature_empty, asr_rounds = []\<rparr>"

definition asr_get_voters :: "aggregate_signature_with_rounds \<Rightarrow> account_address list \<Rightarrow> account_address list" where
  "asr_get_voters s addresses = get_voter_addresses (asr_sig s) addresses"

definition get_voters_and_rounds ::
  "aggregate_signature_with_rounds \<Rightarrow> account_address list \<Rightarrow> (account_address \<times> round) list" where
  "get_voters_and_rounds s addresses = zip (get_voter_addresses (asr_sig s) addresses) (asr_rounds s)"

record two_chain_timeout_certificate =
  tc_timeout :: two_chain_timeout
  tc_signatures_with_rounds :: aggregate_signature_with_rounds

definition tc_new :: "two_chain_timeout \<Rightarrow> two_chain_timeout_certificate" where
  "tc_new t = \<lparr>tc_timeout = t, tc_signatures_with_rounds = asr_empty\<rparr>"

definition tc_epoch :: "two_chain_timeout_certificate \<Rightarrow> u64" where "tc_epoch tc = to_epoch (tc_timeout tc)"
definition tc_round :: "two_chain_timeout_certificate \<Rightarrow> round" where "tc_round tc = to_round (tc_timeout tc)"
definition highest_hqc_round :: "two_chain_timeout_certificate \<Rightarrow> round" where
  "highest_hqc_round tc = hqc_round (tc_timeout tc)"

definition tc_messages :: "two_chain_timeout_certificate \<Rightarrow> validator_verifier \<Rightarrow> message list" where
  "tc_messages tc vv =
     map (\<lambda>(_, rnd). msg_timeout \<lparr>tsr_epoch = tc_epoch tc, tsr_round = tc_round tc, tsr_hqc_round = rnd\<rparr>)
       (get_voters_and_rounds (tc_signatures_with_rounds tc) (get_ordered_account_addresses vv))"

definition list_max :: "'a::linorder list \<Rightarrow> 'a option" where
  "list_max xs = (case xs of [] \<Rightarrow> None | y # ys \<Rightarrow> Some (foldl max y ys))"

definition tc_verify ::
  "crypto \<Rightarrow> two_chain_timeout_certificate \<Rightarrow> validator_verifier \<Rightarrow> (unit, anyhow) result" where
  "tc_verify c tc vv =
     and_then (timeout_verify c (tc_timeout tc) vv) (\<lambda>_.
     and_then (map_err FromVerifyError
       (verify_aggregate_signatures c vv (tc_messages tc vv) (asr_sig (tc_signatures_with_rounds tc)))) (\<lambda>_.
     and_then (expect (list_max (asr_rounds (tc_signatures_with_rounds tc)))) (\<lambda>signed_hqc.
     ensure (highest_hqc_round tc = signed_hqc) (Anyhow ''Inconsistent hqc round''))))"

section \<open>Collecting timeouts\<close>

record partial_signatures_with_round =
  psr_signatures :: "(account_address, round \<times> bls_signature) btree_map"

definition psr_empty :: partial_signatures_with_round where
  "psr_empty = \<lparr>psr_signatures = bt_empty\<rparr>"

definition psr_add_signature ::
  "account_address \<Rightarrow> round \<Rightarrow> bls_signature \<Rightarrow> partial_signatures_with_round \<Rightarrow> partial_signatures_with_round" where
  "psr_add_signature validator rnd signature p =
     p\<lparr>psr_signatures := bt_or_insert validator (rnd, signature) (psr_signatures p)\<rparr>"

definition get_partial_sig_with_rounds ::
  "partial_signatures_with_round \<Rightarrow> (account_address, nat) btree_map \<Rightarrow> partial_signatures \<times> round list" where
  "get_partial_sig_with_rounds p index_map =
     (let (partial_sig, index_to_rounds) =
        foldl (\<lambda>(partial_sig, index_to_rounds) (address, (rnd, sig)).
            case bt_get index_map address of
              Some index \<Rightarrow> (ps_add_signature address sig partial_sig, bt_insert index rnd index_to_rounds)
            | None \<Rightarrow> (partial_sig, index_to_rounds))
          (partial_signatures_empty, bt_empty) (psr_signatures p)
      in (partial_sig, bt_values index_to_rounds))"

record two_chain_timeout_with_partial_signatures =
  tp_timeout :: two_chain_timeout
  tp_signatures :: partial_signatures_with_round

definition tp_new :: "two_chain_timeout \<Rightarrow> two_chain_timeout_with_partial_signatures" where
  "tp_new t = \<lparr>tp_timeout = t, tp_signatures = psr_empty\<rparr>"

definition tp_signers :: "two_chain_timeout_with_partial_signatures \<Rightarrow> author list" where
  "tp_signers p = map fst (psr_signatures (tp_signatures p))"

definition tp_add ::
  "author \<Rightarrow> two_chain_timeout \<Rightarrow> bls_signature \<Rightarrow> two_chain_timeout_with_partial_signatures \<Rightarrow>
   two_chain_timeout_with_partial_signatures" where
  "tp_add author t signature p =
     (let p' = (if hqc_round t > hqc_round (tp_timeout p) then p\<lparr>tp_timeout := t\<rparr> else p)
      in p'\<lparr>tp_signatures := psr_add_signature author (hqc_round t) signature (tp_signatures p')\<rparr>)"

definition tp_aggregate_signatures ::
  "crypto \<Rightarrow> two_chain_timeout_with_partial_signatures \<Rightarrow> validator_verifier \<Rightarrow>
   (two_chain_timeout_certificate, verify_error) result" where
  "tp_aggregate_signatures c p vv =
     (let (partial_sig, ordered_rounds) =
        get_partial_sig_with_rounds (tp_signatures p) (address_to_validator_index vv)
      in and_then (aggregate_signatures c vv partial_sig) (\<lambda>aggregated_sig.
         and_then (asr_new aggregated_sig ordered_rounds) (\<lambda>sigs.
         Ok \<lparr>tc_timeout = tp_timeout p, tc_signatures_with_rounds = sigs\<rparr>)))"

section \<open>What a verified certificate shows\<close>

lemma lis_verify_signatures_quorum:
  "wf_verifier vv \<Longrightarrow> lis_verify_signatures c l vv = Ok u \<Longrightarrow> is_quorum vv (signers vv (lis_signatures l))"
  using verify_multi_signatures_OkD(1) by (auto simp: lis_verify_signatures_def)

lemma qc_verify_OkD:
  assumes "qc_verify c qc vv = Ok u" and "bi_round (certified_block qc) \<noteq> 0"
  shows "message_hash c (msg_vote_data (qc_vote_data qc)) =
      Some (consensus_data_hash (lis_ledger_info (qc_signed_ledger_info qc)))"
    and "lis_verify_signatures c (qc_signed_ledger_info qc) vv = Ok ()"
    and "vote_data_verify (qc_vote_data qc) = Ok ()"
  using assms by (auto simp: qc_verify_def result_simps)

lemma vote_data_verify_OkD:
  assumes "vote_data_verify vd = Ok u"
  shows "bi_epoch (vd_parent vd) = bi_epoch (vd_proposed vd)" and "bi_round (vd_parent vd) < bi_round (vd_proposed vd)"
  using assms by (auto simp: vote_data_verify_def result_simps)

text \<open>
  What \<^verbatim>\<open>blst\<close> documents of \<^verbatim>\<open>aggregate_verify\<close>: it fails unless there are as many messages as keys.
\<close>

definition aggregate_lengths_checked :: "crypto \<Rightarrow> bool" where
  "aggregate_lengths_checked c \<longleftrightarrow>
     (\<forall>sig msgs pks. blst_aggregate_verify c sig msgs pks \<longrightarrow> length msgs = length pks)"

lemma list_max_ge: "list_max xs = Some m \<Longrightarrow> x \<in> set xs \<Longrightarrow> x \<le> m" for x :: "'a :: linorder"
proof -
  have "y \<le> foldl max y ys \<and> (\<forall>x \<in> set ys. x \<le> foldl max y ys)" for y and ys :: "'a list"
  proof (induction ys arbitrary: y)
    case (Cons z ys)
    have "max y z \<le> foldl max (max y z) ys" using Cons.IH by blast
    then show ?case using Cons.IH [of "max y z"] by simp
  qed simp
  then show "list_max xs = Some m \<Longrightarrow> x \<in> set xs \<Longrightarrow> x \<le> m"
    by (cases xs) (auto simp: list_max_def)
qed

text \<open>
  A verified timeout certificate is signed by a quorum, and each of its signers is listed with a round
  that it signed as its highest and that is at most the highest round of the certificate.
\<close>

lemma tc_verify_OkD:
  assumes wf: "wf_verifier vv" and len: "aggregate_lengths_checked c" and ok: "tc_verify c tc vv = Ok u"
  shows "is_quorum vv (signers vv (asr_sig (tc_signatures_with_rounds tc)))"
    and "a \<in> signers vv (asr_sig (tc_signatures_with_rounds tc)) \<Longrightarrow>
      \<exists>h \<le> highest_hqc_round tc.
        (a, h) \<in> set (get_voters_and_rounds (tc_signatures_with_rounds tc) (get_ordered_account_addresses vv))"
proof -
  let ?s = "asr_sig (tc_signatures_with_rounds tc)" and ?rs = "asr_rounds (tc_signatures_with_rounds tc)"
  let ?ones = "iter_ones (validator_bitmask ?s)" and ?addr = "\<lambda>i. vci_address (validator_infos vv ! i)"
  have ver: "verify_aggregate_signatures c vv (tc_messages tc vv) ?s = Ok ()"
    and max: "list_max ?rs = Some (highest_hqc_round tc)"
    using ok by (auto simp: tc_verify_def result_simps)
  show "is_quorum vv (signers vv ?s)" by (rule verify_aggregate_signatures_OkD(1) [OF wf ver])
  have mask: "wf_bv (validator_bitmask ?s)" "\<forall>i \<in> ones (validator_bitmask ?s). i < vv_len vv"
    using ver by (auto simp: verify_aggregate_signatures_def result_simps voters_of_bitmask_eq_Ok
        dest: check_num_of_voters_wf split: prod.splits)
  have voters: "get_voter_addresses ?s (get_ordered_account_addresses vv) = map ?addr ?ones"
    using get_voter_addresses_eq [OF mask(1), of "get_ordered_account_addresses vv"] mask(2) wf
      set_iter_ones [OF mask(1)]
    by (auto simp: get_ordered_account_addresses_def vv_len_def wf_verifier_def)
  obtain sig bs where "list_all2 (\<lambda>m b. signing_message c m = Ok b) (tc_messages tc vv) bs"
    "blst_aggregate_verify c sig bs (map (\<lambda>i. vci_public_key (validator_infos vv ! i)) ?ones)"
    using verify_aggregate_signatures_OkD(2) [OF wf ver] by (auto simp: sig_verify_aggregate_eq_Ok)
  then have "length (tc_messages tc vv) = length ?ones"
    using len by (auto simp: aggregate_lengths_checked_def dest!: list_all2_lengthD)
  then have rounds: "length ?ones \<le> length ?rs"
    by (simp add: tc_messages_def get_voters_and_rounds_def voters)
  show "\<exists>h \<le> highest_hqc_round tc.
      (a, h) \<in> set (get_voters_and_rounds (tc_signatures_with_rounds tc) (get_ordered_account_addresses vv))"
    if mem: "a \<in> signers vv ?s"
  proof -
    obtain k where k: "k < length ?ones" "a = ?addr (?ones ! k)"
      using mem unfolding signers_def set_iter_ones [OF mask(1), symmetric] by (auto simp: in_set_conv_nth)
    show ?thesis
    proof (intro exI conjI)
      show "?rs ! k \<le> highest_hqc_round tc" using list_max_ge [OF max] k rounds by simp
      show "(a, ?rs ! k) \<in> set (get_voters_and_rounds (tc_signatures_with_rounds tc) (get_ordered_account_addresses vv))"
        using k rounds by (force simp: get_voters_and_rounds_def voters set_zip)
    qed
  qed
qed

end
