(* ===== verification/Accumulator.thy ===== *)
theory Accumulator
  imports Ledger_Info
begin

unbundle bit_operations_syntax

text \<open>
  The append-only Merkle accumulator: \<^verbatim>\<open>types/src/proof/accumulator/mod.rs\<close> and the proofs about it in
  \<^verbatim>\<open>types/src/proof/definition.rs\<close>. The hash of an internal node, \<^verbatim>\<open>MerkleTreeInternalNode::<H>\<close>, is
  the argument \<open>h\<close> (the type parameter \<^verbatim>\<open>H\<close> of the source); \<open>node_hash\<close> is its instance over SHA3.

  The lemmas compare the frozen-subtree representation with the plain Merkle tree over the list of
  leaves: appending, computing the root, appending whole subtrees, and the inclusion proof.
\<close>

section \<open>Nodes\<close>

type_synonym node_hasher = "hash_value \<Rightarrow> hash_value \<Rightarrow> hash_value"

definition node_hash :: "(u8 list \<Rightarrow> hash_value) \<Rightarrow> string \<Rightarrow> node_hasher" where
  "node_hash sha3 hasher left right =
     sha3 (default_hasher_new sha3 (str_bytes hasher) @ hv_bytes left @ hv_bytes right)"

definition MAX_ACCUMULATOR_PROOF_DEPTH :: nat where "MAX_ACCUMULATOR_PROOF_DEPTH = 63"

definition MAX_ACCUMULATOR_LEAVES :: u64 where
  "MAX_ACCUMULATOR_LEAVES = push_bit MAX_ACCUMULATOR_PROOF_DEPTH 1"

section \<open>The in-memory accumulator\<close>

record in_memory_accumulator =
  frozen_subtree_roots :: "hash_value list"
  num_leaves :: u64
  root_hash :: hash_value

text \<open>The loop of \<^verbatim>\<open>compute_root_hash\<close>; the iterator over the roots from the right is a list.\<close>

function acc_root_loop :: "node_hasher \<Rightarrow> u64 \<Rightarrow> hash_value \<Rightarrow> hash_value list \<Rightarrow> (hash_value, 'e) result" where
  "acc_root_loop h bitmap current_hash iter =
     (if bitmap > 0
      then if bitmap AND 1 \<noteq> 0
           then case iter of
                  [] \<Rightarrow> Panic
                | root # rest \<Rightarrow> acc_root_loop h (drop_bit 1 bitmap) (h root current_hash) rest
           else acc_root_loop h (drop_bit 1 bitmap) (h current_hash ACCUMULATOR_PLACEHOLDER_HASH) iter
      else Ok current_hash)"
  by pat_completeness auto

termination
proof (relation "measure (\<lambda>(h, bitmap, current_hash, iter). unat bitmap)", goal_cases)
  case (2 h bitmap current_hash iter root rest)
  then show ?case by (simp add: drop_bit_eq_div unat_div word_less_nat_alt)
next
  case (3 h bitmap current_hash iter)
  then show ?case by (simp add: drop_bit_eq_div unat_div word_less_nat_alt)
qed simp

definition compute_root_hash :: "node_hasher \<Rightarrow> hash_value list \<Rightarrow> u64 \<Rightarrow> (hash_value, 'e) result" where
  "compute_root_hash h roots n =
     (case roots of
        [] \<Rightarrow> Ok ACCUMULATOR_PLACEHOLDER_HASH
      | [root] \<Rightarrow> Ok root
      | _ \<Rightarrow>
          if n = 0 then Panic
          else acc_root_loop h (drop_bit (trailing_zeros_word n) n) ACCUMULATOR_PLACEHOLDER_HASH (rev roots))"

definition acc_new :: "node_hasher \<Rightarrow> hash_value list \<Rightarrow> u64 \<Rightarrow> (in_memory_accumulator, anyhow) result" where
  "acc_new h roots n =
     and_then (ensure (length roots = count_ones_word n)
       (Anyhow ''The number of frozen subtrees does not match the number of leaves.'')) (\<lambda>_.
     and_then (compute_root_hash h roots n) (\<lambda>root.
     Ok \<lparr>frozen_subtree_roots = roots, num_leaves = n, root_hash = root\<rparr>))"

definition acc_new_empty :: in_memory_accumulator where
  "acc_new_empty =
     \<lparr>frozen_subtree_roots = [], num_leaves = 0, root_hash = ACCUMULATOR_PLACEHOLDER_HASH\<rparr>"

text \<open>The carry loop of \<^verbatim>\<open>append_one\<close>: pop the last two roots and push their parent.\<close>

fun acc_merge :: "node_hasher \<Rightarrow> nat \<Rightarrow> hash_value list \<Rightarrow> (hash_value list, 'e) result" where
  "acc_merge h 0 roots = Ok roots"
| "acc_merge h (Suc k) roots =
     (case rev roots of
        right_hash # left_hash # rest \<Rightarrow> acc_merge h k (rev rest @ [h left_hash right_hash])
      | _ \<Rightarrow> Panic)"

definition append_one :: "node_hasher \<Rightarrow> hash_value list \<Rightarrow> u64 \<Rightarrow> hash_value \<Rightarrow> (hash_value list, 'e) result" where
  "append_one h roots num_existing_leaves leaf =
     acc_merge h (trailing_zeros_word (NOT num_existing_leaves)) (roots @ [leaf])"

text \<open>\<^verbatim>\<open>expect\<close> on a \<^verbatim>\<open>Result\<close>.\<close>

fun expect_ok :: "('a, 'e) result \<Rightarrow> ('a, 'f) result" where
  "expect_ok (Ok a) = Ok a"
| "expect_ok _ = Panic"

definition acc_append :: "node_hasher \<Rightarrow> in_memory_accumulator \<Rightarrow> hash_value list \<Rightarrow> (in_memory_accumulator, 'e) result" where
  "acc_append h acc leaves =
     and_then
       (for_each (\<lambda>(roots, n) leaf.
            and_then (append_one h roots n leaf) (\<lambda>roots'.
            and_then (plus_or_panic n 1) (\<lambda>n'. Ok (roots', n'))))
          (frozen_subtree_roots acc, num_leaves acc) leaves) (\<lambda>(roots, n).
     expect_ok (acc_new h roots n))"

definition acc_default :: "node_hasher \<Rightarrow> (in_memory_accumulator, 'e) result" where
  "acc_default h = expect_ok (acc_new h [] 0)"

definition from_leaves :: "node_hasher \<Rightarrow> hash_value list \<Rightarrow> (in_memory_accumulator, 'e) result" where
  "from_leaves h leaves = and_then (acc_default h) (\<lambda>acc. acc_append h acc leaves)"

definition acc_version :: "in_memory_accumulator \<Rightarrow> version" where
  "acc_version acc = (if num_leaves acc = 0 then 0 else num_leaves acc - 1)"

definition acc_is_empty :: "in_memory_accumulator \<Rightarrow> bool" where
  "acc_is_empty acc \<longleftrightarrow> num_leaves acc = 0"

text \<open>
  \<^verbatim>\<open>append_subtrees\<close>. The inner loop carries a new subtree upwards while the corresponding bit of the
  leaf count is set; the outer loop takes one subtree per iteration, so the list bounds it.
\<close>

function acc_carry_loop ::
  "node_hasher \<Rightarrow> u64 \<Rightarrow> u64 \<Rightarrow> hash_value \<Rightarrow> hash_value list \<Rightarrow>
   (u64 \<times> hash_value \<times> hash_value list, 'e) result" where
  "acc_carry_loop h current_num_leaves bit_mask current_hash roots =
     (if current_num_leaves AND bit_mask \<noteq> 0
      then case rev roots of
             [] \<Rightarrow> Panic
           | left_hash # rest \<Rightarrow>
               acc_carry_loop h current_num_leaves (push_bit 1 bit_mask) (h left_hash current_hash) (rev rest)
      else Ok (bit_mask, current_hash, roots))"
  by pat_completeness auto

termination
proof (relation "measure (\<lambda>(h, n, bit_mask, current_hash, roots). length roots)", goal_cases)
  case (2 h n bit_mask current_hash roots left_hash rest)
  then have "roots = rev (left_hash # rest)" by (metis rev_rev_ident)
  then show ?case by simp
qed simp

fun acc_subtrees_loop ::
  "node_hasher \<Rightarrow> hash_value list \<Rightarrow> u64 \<Rightarrow> u64 \<Rightarrow> u64 \<Rightarrow> hash_value list \<Rightarrow>
   (hash_value list \<times> u64 \<times> u64 \<times> hash_value list, anyhow) result" where
  "acc_subtrees_loop h roots n remaining rightmost_size [] =
     (if remaining \<ge> rightmost_size then Err (Anyhow ''Too few subtrees.'') else Ok (roots, n, remaining, []))"
| "acc_subtrees_loop h roots n remaining rightmost_size (subtree # rest) =
     (if remaining \<ge> rightmost_size
      then and_then (acc_carry_loop h n rightmost_size subtree roots) (\<lambda>(bit_mask, current_hash, roots').
           and_then (plus_or_panic n rightmost_size) (\<lambda>n'.
           and_then (minus_or_panic remaining rightmost_size) (\<lambda>remaining'.
           acc_subtrees_loop h (roots' @ [current_hash]) n' remaining' bit_mask rest)))
      else Ok (roots, n, remaining, subtree # rest))"

definition append_subtrees ::
  "node_hasher \<Rightarrow> in_memory_accumulator \<Rightarrow> hash_value list \<Rightarrow> u64 \<Rightarrow> (in_memory_accumulator, anyhow) result" where
  "append_subtrees h acc subtrees num_new_leaves =
     and_then (minus_or_panic MAX_ACCUMULATOR_LEAVES (num_leaves acc)) (\<lambda>room.
     and_then (ensure (num_new_leaves \<le> room) (Anyhow ''Too many new leaves.'')) (\<lambda>_.
     if num_leaves acc = 0 then acc_new h subtrees num_new_leaves
     else and_then
            (acc_subtrees_loop h (frozen_subtree_roots acc) (num_leaves acc) num_new_leaves
               (push_bit (trailing_zeros_word (num_leaves acc)) 1) subtrees) (\<lambda>(roots, n, remaining, rest).
          and_then (plus_or_panic n remaining) (\<lambda>n'.
          acc_new h (roots @ rest) n'))))"

section \<open>Proofs about accumulators\<close>

text \<open>\<^verbatim>\<open>AccumulatorProof::verify\<close>: from the element to the root along the siblings.\<close>

definition acc_proof_step :: "node_hasher \<Rightarrow> hash_value \<times> u64 \<Rightarrow> hash_value \<Rightarrow> hash_value \<times> u64" where
  "acc_proof_step h = (\<lambda>(hash, index) sibling_hash.
     (if index mod 2 = 0 then h hash sibling_hash else h sibling_hash hash, index div 2))"

definition accumulator_proof_verify ::
  "node_hasher \<Rightarrow> hash_value list \<Rightarrow> hash_value \<Rightarrow> hash_value \<Rightarrow> u64 \<Rightarrow> (unit, anyhow) result" where
  "accumulator_proof_verify h siblings expected_root_hash element_hash element_index =
     and_then (ensure (length siblings \<le> MAX_ACCUMULATOR_PROOF_DEPTH)
       (Anyhow ''Accumulator proof has too many siblings.'')) (\<lambda>_.
     let actual_root_hash = fst (foldl (acc_proof_step h) (element_hash, element_index) siblings) in
     ensure (actual_root_hash = expected_root_hash) (Anyhow ''Root hashes do not match.''))"

record accumulator_extension_proof =
  aep_frozen_subtree_roots :: "hash_value list"
  aep_num_leaves :: u64
  aep_leaves :: "hash_value list"

definition aep_verify ::
  "node_hasher \<Rightarrow> accumulator_extension_proof \<Rightarrow> hash_value \<Rightarrow> (in_memory_accumulator, anyhow) result" where
  "aep_verify h p original_root =
     and_then (acc_new h (aep_frozen_subtree_roots p) (aep_num_leaves p)) (\<lambda>original_tree.
     and_then (ensure (root_hash original_tree = original_root) (Anyhow ''Root hashes do not match.'')) (\<lambda>_.
     acc_append h original_tree (aep_leaves p)))"

text \<open>\<^verbatim>\<open>TransactionAccumulatorSummary\<close>, a non-empty accumulator a light client keeps.\<close>

definition summary_new :: "in_memory_accumulator \<Rightarrow> (in_memory_accumulator, anyhow) result" where
  "summary_new acc =
     and_then (ensure (\<not> acc_is_empty acc)
       (Anyhow ''empty accumulator: we can't verify consistency proofs from an empty accumulator'')) (\<lambda>_.
     Ok acc)"

definition summary_verify_consistency :: "in_memory_accumulator \<Rightarrow> ledger_info \<Rightarrow> (unit, anyhow) result" where
  "summary_verify_consistency acc li =
     and_then (ensure (li_version li = acc_version acc)
       (Anyhow ''ledger info and accumulator must be at the same version'')) (\<lambda>_.
     ensure (transaction_accumulator_hash li = root_hash acc)
       (Anyhow ''ledger info root hash and accumulator root hash must match''))"

definition summary_try_from_genesis_proof ::
  "node_hasher \<Rightarrow> hash_value list \<Rightarrow> version \<Rightarrow> (in_memory_accumulator, anyhow) result" where
  "summary_try_from_genesis_proof h subtrees target_version =
     acc_new h subtrees (saturating_add target_version 1)"

definition summary_try_extend_with_proof ::
  "node_hasher \<Rightarrow> in_memory_accumulator \<Rightarrow> hash_value list \<Rightarrow> ledger_info \<Rightarrow>
   (in_memory_accumulator, anyhow) result" where
  "summary_try_extend_with_proof h acc subtrees target_li =
     and_then (ensure (li_version target_li \<ge> acc_version acc)
       (Anyhow ''target ledger info version must be newer than our current accumulator'')) (\<lambda>_.
     and_then (minus_or_panic (li_version target_li) (acc_version acc)) (\<lambda>num_new_txns.
     and_then (append_subtrees h acc subtrees num_new_txns) (\<lambda>new_accumulator.
     and_then (summary_verify_consistency new_accumulator target_li) (\<lambda>_.
     Ok new_accumulator))))"

declare acc_root_loop.simps [simp del] and acc_carry_loop.simps [simp del]

section \<open>The plain Merkle tree\<close>

text \<open>
  The specification: \<open>full_root\<close> of a block of \<open>2 ^ k\<close> leaves, \<open>merkle_root\<close> of at most \<open>2 ^ k\<close> leaves
  with the placeholder for an empty right part, the maximal full subtrees \<open>frozen\<close> from the left, and
  the depth of the smallest tree that holds \<open>n\<close> leaves.
\<close>

fun full_root :: "node_hasher \<Rightarrow> nat \<Rightarrow> hash_value list \<Rightarrow> hash_value" where
  "full_root h 0 xs = hd xs"
| "full_root h (Suc k) xs = h (full_root h k (take (2 ^ k) xs)) (full_root h k (drop (2 ^ k) xs))"

fun merkle_root :: "node_hasher \<Rightarrow> nat \<Rightarrow> hash_value list \<Rightarrow> hash_value" where
  "merkle_root h k [] = ACCUMULATOR_PLACEHOLDER_HASH"
| "merkle_root h 0 (x # xs) = x"
| "merkle_root h (Suc k) (x # xs) =
     h (merkle_root h k (take (2 ^ k) (x # xs))) (merkle_root h k (drop (2 ^ k) (x # xs)))"

fun frozen :: "node_hasher \<Rightarrow> nat \<Rightarrow> hash_value list \<Rightarrow> hash_value list" where
  "frozen h 0 xs = []"
| "frozen h (Suc k) xs =
     (if 2 ^ k \<le> length xs then full_root h k (take (2 ^ k) xs) # frozen h k (drop (2 ^ k) xs)
      else frozen h k xs)"

fun tree_depth :: "nat \<Rightarrow> nat" where
  "tree_depth n = (if n \<le> 1 then 0 else Suc (tree_depth ((n + 1) div 2)))"

declare tree_depth.simps [simp del]

lemma merkle_root_Suc:
  "xs \<noteq> [] \<Longrightarrow> merkle_root h (Suc k) xs = h (merkle_root h k (take (2 ^ k) xs)) (merkle_root h k (drop (2 ^ k) xs))"
  by (cases xs) auto

lemma merkle_root_full: "length xs = 2 ^ k \<Longrightarrow> merkle_root h k xs = full_root h k xs"
proof (induction k arbitrary: xs)
  case 0
  then show ?case by (cases xs) auto
next
  case (Suc k)
  then have "xs \<noteq> []" by auto
  then show ?case using Suc by (simp add: merkle_root_Suc del: merkle_root.simps)
qed

lemma frozen_Nil [simp]: "frozen h k [] = []"
  by (induction k) auto

lemma frozen_mono: "length xs < 2 ^ k \<Longrightarrow> frozen h (k + j) xs = frozen h k xs"
proof (induction j)
  case (Suc j)
  have "(2::nat) ^ k \<le> 2 ^ (k + j)" by (simp add: power_add)
  then have "\<not> 2 ^ (k + j) \<le> length xs" using Suc.prems by linarith
  then show ?case using Suc by simp
qed simp

lemma frozen_power: "length xs = 2 ^ k \<Longrightarrow> frozen h (Suc k) xs = [full_root h k xs]"
  by simp

lemma length_frozen: "length xs < 2 ^ k \<Longrightarrow> length (frozen h k xs) = card {j. j < k \<and> bit (length xs) j}"
proof (induction k arbitrary: xs)
  case (Suc k)
  let ?n = "length xs"
  have split: "{j. j < Suc k \<and> bit m j} = {j. j < k \<and> bit m j} \<union> (if bit m k then {k} else {})" for m :: nat
    by (auto simp: less_Suc_eq)
  show ?case
  proof (cases "2 ^ k \<le> ?n")
    case True
    have "?n div 2 ^ k = 1" using True Suc.prems by (intro div_nat_eqI) simp_all
    then have top: "bit ?n k" by (simp add: bit_nat_def)
    have "bit ?n j \<longleftrightarrow> bit (?n - 2 ^ k) j" if "j < k" for j
    proof -
      have "?n - 2 ^ k = take_bit k ?n"
        using True Suc.prems by (simp add: take_bit_eq_mod mod_if)
      then show ?thesis using that by (simp add: bit_take_bit_iff)
    qed
    then have low: "{j. j < k \<and> bit ?n j} = {j. j < k \<and> bit (length (drop (2 ^ k) xs)) j}" by auto
    have "length (frozen h k (drop (2 ^ k) xs)) = card {j. j < k \<and> bit (length (drop (2 ^ k) xs)) j}"
      using Suc.prems by (intro Suc.IH) simp
    then show ?thesis using True top by (simp add: split low)
  next
    case False
    then have "\<not> bit ?n k" by (simp add: bit_nat_def)
    then show ?thesis using False Suc.IH [of xs] by (simp add: split)
  qed
qed simp

section \<open>Appending\<close>

lemma acc_merge_add: "acc_merge h (a + b) roots = and_then (acc_merge h a roots) (acc_merge h b)"
proof (induction a arbitrary: roots)
  case (Suc a)
  show ?case
    by (simp add: Suc.IH split: list.split)
qed simp

definition trailing_ones :: "nat \<Rightarrow> nat \<Rightarrow> bool" where
  "trailing_ones n t \<longleftrightarrow> (\<forall>j < t. bit n j) \<and> \<not> bit n t"

lemma trailing_ones_unique: "trailing_ones n t \<Longrightarrow> trailing_ones n t' \<Longrightarrow> t = t'"
  by (metis linorder_neqE_nat trailing_ones_def)

lemma low_bits_set: "(\<forall>j < k. bit n j) \<longleftrightarrow> n mod 2 ^ k = 2 ^ k - (1::nat)"
proof -
  have "(\<forall>j < k. bit n j) \<longleftrightarrow> take_bit k n = mask k"
    by (auto simp: bit_eq_iff [of "take_bit k n"] bit_take_bit_iff bit_mask_iff)
  then show ?thesis by (simp add: take_bit_eq_mod mask_eq_exp_minus_1)
qed

lemma trailing_ones_full: "trailing_ones (2 ^ k - 1) k"
proof -
  have "(2 ^ k - 1 :: nat) mod 2 ^ k = 2 ^ k - 1" by (intro mod_less) simp
  moreover have "\<not> bit (2 ^ k - 1 :: nat) k" by (simp add: bit_nat_def)
  ultimately show ?thesis by (simp add: trailing_ones_def low_bits_set)
qed

lemma trailing_ones_drop_top:
  assumes n: "2 ^ k \<le> n" "n + 1 < 2 ^ Suc k" and t: "trailing_ones n t"
  shows "trailing_ones (n - 2 ^ k) t"
proof -
  have take: "n - 2 ^ k = take_bit k n" using n by (simp add: take_bit_eq_mod mod_if)
  have "t < k"
  proof (rule ccontr)
    assume "\<not> t < k"
    then have "\<forall>j < k. bit n j" using t by (simp add: trailing_ones_def)
    then have "n mod 2 ^ k = 2 ^ k - 1" by (simp only: low_bits_set)
    then have "n - 2 ^ k = 2 ^ k - 1" using take by (simp add: take_bit_eq_mod)
    then show False using n by simp
  qed
  then show ?thesis using t by (simp add: trailing_ones_def take bit_take_bit_iff)
qed

lemma acc_merge_full:
  "length xs = 2 ^ k - 1 \<Longrightarrow>
   acc_merge h k (R @ frozen h k xs @ [x]) = (Ok (R @ [full_root h k (xs @ [x])]) :: (_, 'e) result)"
proof (induction k arbitrary: R xs)
  case (Suc k)
  have ge: "2 ^ k \<le> length xs"
    using Suc.prems one_le_power [of "2::nat" k] by simp
  have len: "length (drop (2 ^ k) xs) = 2 ^ k - 1" using Suc.prems by simp
  have "acc_merge h k ((R @ [full_root h k (take (2 ^ k) xs)]) @ frozen h k (drop (2 ^ k) xs) @ [x]) =
      (Ok ((R @ [full_root h k (take (2 ^ k) xs)]) @ [full_root h k (drop (2 ^ k) xs @ [x])]) :: (_, 'e) result)"
    using len by (rule Suc.IH)
  moreover have "acc_merge h (Suc k) s = (and_then (acc_merge h k s) (acc_merge h 1) :: (_, 'e) result)" for s
    by (simp only: Suc_eq_plus1 acc_merge_add)
  ultimately show ?case using ge by (simp del: acc_merge.simps) simp
qed simp

lemma acc_merge_frozen:
  "length xs + 1 < 2 ^ k \<Longrightarrow> trailing_ones (length xs) t \<Longrightarrow>
   acc_merge h t (R @ frozen h k xs @ [x]) = (Ok (R @ frozen h k (xs @ [x])) :: (_, 'e) result)"
proof (induction k arbitrary: R xs)
  case (Suc k)
  consider "2 ^ k \<le> length xs" | "length xs + 1 = 2 ^ k" | "length xs + 1 < 2 ^ k" by linarith
  then show ?case
  proof cases
    case 1
    let ?ys = "drop (2 ^ k) xs"
    have "acc_merge h t ((R @ [full_root h k (take (2 ^ k) xs)]) @ frozen h k ?ys @ [x]) =
        (Ok ((R @ [full_root h k (take (2 ^ k) xs)]) @ frozen h k (?ys @ [x])) :: (_, 'e) result)"
      using Suc.prems 1 trailing_ones_drop_top [OF 1] by (intro Suc.IH) auto
    then show ?thesis using 1 by simp
  next
    case 2
    then have "length xs = 2 ^ k - 1" by simp
    moreover have "t = k"
      using Suc.prems(2) trailing_ones_full trailing_ones_unique calculation by metis
    moreover have "frozen h (Suc k) xs = frozen h k xs" using 2 by simp
    moreover have "frozen h (Suc k) (xs @ [x]) = [full_root h k (xs @ [x])]"
      using 2 by (intro frozen_power) simp
    ultimately show ?thesis using acc_merge_full by metis
  next
    case 3
    then show ?thesis using Suc by simp
  qed
qed simp

lemma trailing_ones_word:
  fixes w :: u64
  assumes "unat w + 1 < 2 ^ 64"
  shows "trailing_ones (unat w) (trailing_zeros_word (NOT w))"
proof -
  have "NOT w \<noteq> 0"
  proof
    assume "NOT w = 0"
    then have "w = - 1" by (metis bit.compl_zero bit.double_compl)
    then show False using assms by (simp add: unsigned_minus_1_eq_mask mask_eq_exp_minus_1)
  qed
  note least = trailing_zeros_word_least [OF this]
  have bit: "bit w j \<longleftrightarrow> bit (unat w) j" for j by (simp add: bit_unsigned_iff possible_bit_nat)
  show ?thesis
    using least by (auto simp: trailing_ones_def bit_not_iff simp flip: bit)
qed

lemma append_one_frozen:
  assumes "length xs + 1 < 2 ^ 64" "unat n = length xs"
  shows "append_one h (frozen h 64 xs) n x = Ok (frozen h 64 (xs @ [x]))"
  using acc_merge_frozen [of xs 64 _ h "[]" x] trailing_ones_word [of n] assms
  by (simp add: append_one_def del: frozen.simps)

section \<open>The root hash\<close>

text \<open>The loop of \<^verbatim>\<open>compute_root_hash\<close> over the bits of the leaf count, from the lowest.\<close>

fun root_fold :: "node_hasher \<Rightarrow> bool list \<Rightarrow> hash_value \<Rightarrow> hash_value list \<Rightarrow> (hash_value \<times> hash_value list, 'e) result" where
  "root_fold h [] cur iter = Ok (cur, iter)"
| "root_fold h (True # bs) cur iter =
     (case iter of [] \<Rightarrow> Panic | root # rest \<Rightarrow> root_fold h bs (h root cur) rest)"
| "root_fold h (False # bs) cur iter = root_fold h bs (h cur ACCUMULATOR_PLACEHOLDER_HASH) iter"

lemma root_fold_append:
  "root_fold h (bs @ cs) cur iter =
   and_then (root_fold h bs cur iter) (\<lambda>(cur', iter'). root_fold h cs cur' iter')"
  by (induction h bs cur iter rule: root_fold.induct) (auto split: list.split)

lemma acc_root_loop_fold:
  assumes "unat bitmap < 2 ^ l" "l > 0 \<Longrightarrow> 2 ^ (l - 1) \<le> unat bitmap"
  shows "acc_root_loop h bitmap cur iter =
    (map_ok fst (root_fold h (map (bit (unat bitmap)) [0..<l]) cur iter) :: (_, 'e) result)"
  using assms
proof (induction l arbitrary: bitmap cur iter)
  case 0
  then have "bitmap = 0" by (simp add: word_unat_eq_iff)
  then show ?case by (simp add: acc_root_loop.simps)
next
  case (Suc l)
  let ?m = "unat bitmap"
  define b where "b = drop_bit 1 bitmap"
  have pos: "bitmap > 0" using Suc.prems by (simp add: word_less_nat_alt)
  have half: "unat b = ?m div 2" using unat_drop_bit [of 1 bitmap] by (simp add: b_def)
  have low: "bitmap AND 1 \<noteq> 0 \<longleftrightarrow> bit ?m 0"
    using and_one_neq_0 [of 0 bitmap] by (simp add: bit_unsigned_iff)
  have "[0..<Suc l] = 0 # map Suc [0..<l]" by (simp add: map_Suc_upt upt_conv_Cons)
  then have bits: "map (bit ?m) [0..<Suc l] = bit ?m 0 # map (bit (unat b)) [0..<l]"
    by (simp add: half bit_Suc del: upt_Suc)
  have IH: "acc_root_loop h b cur' iter' =
      (map_ok fst (root_fold h (map (bit (unat b)) [0..<l]) cur' iter') :: (_, 'e) result)" for cur' iter'
  proof (rule Suc.IH)
    have "?m < 2 ^ l * 2" using Suc.prems(1) by simp
    then show "unat b < 2 ^ l" unfolding half by (rule less_mult_imp_div_less)
    have "l > 0 \<longrightarrow> 2 ^ (l - 1) * 2 \<le> ?m" using Suc.prems(2) by (cases l) simp_all
    then show "l > 0 \<Longrightarrow> 2 ^ (l - 1) \<le> unat b"
      unfolding half by (simp only: less_eq_div_iff_mult_less_eq)
  qed
  have "acc_root_loop h bitmap cur iter =
      (if bit ?m 0 then case iter of [] \<Rightarrow> Panic | root # rest \<Rightarrow> acc_root_loop h b (h root cur) rest
       else acc_root_loop h b (h cur ACCUMULATOR_PLACEHOLDER_HASH) iter :: (_, 'e) result)"
    unfolding acc_root_loop.simps [of h bitmap] b_def low using pos by (simp only: if_True)
  then show ?case
    unfolding bits IH by (cases "bit ?m 0") (simp_all split: list.split)
qed

text \<open>Folding from the lowest set bit up to bit \<open>k\<close> gives the root of the partial tree of depth \<open>k\<close>.\<close>

definition trailing_zeros :: "nat \<Rightarrow> nat \<Rightarrow> bool" where
  "trailing_zeros n t \<longleftrightarrow> (\<forall>j < t. \<not> bit n j) \<and> bit n t"

lemma root_fold_frozen:
  "length xs < 2 ^ k \<Longrightarrow> trailing_zeros (length xs) t \<Longrightarrow>
   root_fold h (map (bit (length xs)) [t..<k]) ACCUMULATOR_PLACEHOLDER_HASH (rev (frozen h k xs) @ R) =
     (Ok (merkle_root h k xs, R) :: (_, 'e) result)"
proof (induction k arbitrary: xs R)
  case 0
  then show ?case by (simp add: trailing_zeros_def bit_nat_def)
next
  case (Suc k)
  let ?n = "length xs" and ?PH = ACCUMULATOR_PLACEHOLDER_HASH
  have "t < Suc k"
  proof (rule ccontr)
    assume "\<not> t < Suc k"
    then have "(2::nat) ^ Suc k \<le> 2 ^ t" by (intro power_increasing) auto
    then have "?n < 2 ^ t" using Suc.prems(1) by linarith
    then show False using Suc.prems(2) by (simp add: trailing_zeros_def bit_nat_def)
  qed
  then have bits: "map (bit ?n) [t..<Suc k] = map (bit ?n) [t..<k] @ [bit ?n k]" by simp
  have ne: "xs \<noteq> []" using Suc.prems(2) by (auto simp: trailing_zeros_def)
  show ?case
  proof (cases "2 ^ k \<le> ?n")
    case True
    let ?ys = "drop (2 ^ k) xs"
    have "?n div 2 ^ k = 1" using True Suc.prems by (intro div_nat_eqI) simp_all
    then have top: "bit ?n k" by (simp add: bit_nat_def)
    have take: "?n - 2 ^ k = take_bit k ?n" using True Suc.prems by (simp add: take_bit_eq_mod mod_if)
    have block: "merkle_root h k (take (2 ^ k) xs) = full_root h k (take (2 ^ k) xs)"
      using True by (intro merkle_root_full) simp
    show ?thesis
    proof (cases "?ys = []")
      case True
      then have "take_bit k ?n = 0" using take by simp
      then have "\<not> t < k" using Suc.prems(2) bit_take_bit_iff [of k ?n t] by (auto simp: trailing_zeros_def)
      then have "map (bit ?n) [t..<Suc k] = [True]" using \<open>t < Suc k\<close> top by (auto simp: less_Suc_eq)
      then show ?thesis using True ne block \<open>2 ^ k \<le> ?n\<close> by (simp add: merkle_root_Suc del: upt_Suc)
    next
      case False
      have tk: "t < k"
      proof (rule ccontr)
        assume "\<not> t < k"
        then have "take_bit k ?n = 0"
          using Suc.prems(2) by (intro bit_eqI) (auto simp: bit_take_bit_iff trailing_zeros_def)
        then show False using take False by simp
      qed
      have low: "bit (length ?ys) j = bit ?n j" if "j < k" for j
        using take that by (simp add: bit_take_bit_iff)
      have "map (bit (length ?ys)) [t..<k] = map (bit ?n) [t..<k]" using low by simp
      moreover have "trailing_zeros (length ?ys) t"
        using Suc.prems(2) low tk by (simp add: trailing_zeros_def)
      moreover have "length ?ys < 2 ^ k" using Suc.prems by simp
      ultimately have "root_fold h (map (bit ?n) [t..<k]) ?PH
          (rev (frozen h k ?ys) @ [full_root h k (take (2 ^ k) xs)] @ R) =
          (Ok (merkle_root h k ?ys, [full_root h k (take (2 ^ k) xs)] @ R) :: (_, 'e) result)"
        using Suc.IH by metis
      then show ?thesis using True ne block top by (simp add: bits root_fold_append merkle_root_Suc del: upt_Suc)
    qed
  next
    case False
    then have "\<not> bit ?n k" by (simp add: bit_nat_def)
    then show ?thesis using False ne Suc.IH [of xs R] Suc.prems(2)
      by (simp add: bits root_fold_append merkle_root_Suc del: upt_Suc)
  qed
qed

lemma tree_depth_bounds: "n \<le> 2 ^ tree_depth n" "n > 1 \<Longrightarrow> 2 ^ tree_depth n < 2 * n"
proof (induction n rule: tree_depth.induct)
  case (1 n)
  {
    case 1
    show ?case
    proof (cases "n \<le> 1")
      case False
      then have "(n + 1) div 2 \<le> 2 ^ tree_depth ((n + 1) div 2)" using "1.IH"(1) by simp
      then show ?thesis using False by (simp add: tree_depth.simps [of n])
    qed (simp add: tree_depth.simps)
  next
    case 2
    show ?case
    proof (cases "n = 2")
      case True
      then show ?thesis by (simp add: tree_depth.simps)
    next
      case False
      then have "(n + 1) div 2 > 1" "\<not> n \<le> 1" using 2 by auto
      then have "2 ^ tree_depth ((n + 1) div 2) < 2 * ((n + 1) div 2)" using "1.IH"(2) by simp
      moreover have "even (2 ^ tree_depth ((n + 1) div 2) :: nat)"
        using \<open>(n + 1) div 2 > 1\<close> tree_depth.simps [of "(n + 1) div 2"] by simp
      moreover have "P < 2 * ((n + 1) div 2) \<Longrightarrow> even P \<Longrightarrow> P < n" for P :: nat by presburger
      ultimately have "2 ^ tree_depth ((n + 1) div 2) < (n :: nat)" by blast
      then show ?thesis using \<open>\<not> n \<le> 1\<close> by (simp add: tree_depth.simps [of n])
    qed
  }
qed

lemma tree_depth_eqI:
  assumes "n \<le> 2 ^ k" "2 ^ k < 2 * n" "0 < n"
  shows "tree_depth n = k"
proof (cases "n = 1")
  case True
  then have "k = 0" using assms by (cases k) auto
  then show ?thesis using True by (simp add: tree_depth.simps)
next
  case False
  then have b: "n \<le> 2 ^ tree_depth n" "2 ^ tree_depth n < 2 * n" using tree_depth_bounds assms by auto
  have "(2::nat) ^ k < 2 * 2 ^ tree_depth n" "(2::nat) ^ tree_depth n < 2 * 2 ^ k" using b assms by linarith+
  then have "(2::nat) ^ k < 2 ^ Suc (tree_depth n)" "(2::nat) ^ tree_depth n < 2 ^ Suc k" by simp_all
  then have "k < Suc (tree_depth n)" "tree_depth n < Suc k" by (simp_all only: power_strict_increasing_iff)
  then show ?thesis by simp
qed

lemma top_bit: "0 < (n :: nat) \<Longrightarrow> n < 2 ^ k \<Longrightarrow> \<exists>j < k. 2 ^ j \<le> n \<and> n < 2 ^ Suc j"
proof (induction k)
  case (Suc k)
  then show ?case by (cases "n < 2 ^ k") (auto intro: less_SucI)
qed simp

lemma compute_root_frozen:
  assumes n: "unat n = length xs"
  shows "compute_root_hash h (frozen h 64 xs) n =
    (Ok (merkle_root h (tree_depth (length xs)) xs) :: (_, 'e) result)"
proof (cases "xs = []")
  case True
  then show ?thesis by (simp add: compute_root_hash_def)
next
  case False
  have lt: "length xs < 2 ^ 64" using n unat_lt_2p [of n] by (simp del: unat_lt_2p)
  obtain j where j: "j < 64" "2 ^ j \<le> length xs" "length xs < 2 ^ Suc j"
    using top_bit [OF _ lt] False by blast
  have froz: "frozen h 64 xs = frozen h (Suc j) xs"
    using frozen_mono [OF j(3), of h "64 - Suc j"] j(1) by simp
  show ?thesis
  proof (cases "length xs = 2 ^ j")
    case True
    then have "frozen h 64 xs = [full_root h j xs]" using froz frozen_power by metis
    moreover have "tree_depth (length xs) = j" using True by (intro tree_depth_eqI) auto
    ultimately show ?thesis using merkle_root_full [OF True] by (simp add: compute_root_hash_def)
  next
    case more: False
    let ?k = "Suc j" and ?t = "trailing_zeros_word n"
    have n0: "n \<noteq> 0" using n False by auto
    have bit: "bit n i \<longleftrightarrow> bit (length xs) i" for i using n by (metis bit_unsigned_iff possible_bit_nat)
    note least = trailing_zeros_word_least [OF n0]
    have tz: "trailing_zeros (length xs) ?t" using least by (auto simp: trailing_zeros_def simp flip: bit)
    have depth: "tree_depth (length xs) = ?k" using j more by (intro tree_depth_eqI) auto
    have two: "\<exists>a b rest. frozen h 64 xs = a # b # rest"
    proof -
      have "0 < length (drop (2 ^ j) xs)" "length (drop (2 ^ j) xs) < 2 ^ j" using j more by auto
      then obtain i where "i < j" "2 ^ i \<le> length (drop (2 ^ j) xs)" "length (drop (2 ^ j) xs) < 2 ^ Suc i"
        using top_bit by blast
      then have "frozen h j (drop (2 ^ j) xs) \<noteq> []"
        using frozen_mono [of "drop (2 ^ j) xs" "Suc i" h "j - Suc i"] by simp
      then show ?thesis using j(2) by (cases "frozen h j (drop (2 ^ j) xs)") (simp_all add: froz)
    qed
    have tj: "?t \<le> j"
    proof (rule ccontr)
      assume "\<not> ?t \<le> j"
      then have "(2::nat) ^ Suc j \<le> 2 ^ ?t" by (intro power_increasing) auto
      then have "length xs < 2 ^ ?t" using j(3) by linarith
      then show False using tz by (simp add: trailing_zeros_def bit_nat_def)
    qed
    have shifted: "unat (drop_bit ?t n) = length xs div 2 ^ ?t"
      using n by (simp only: unat_drop_bit)
    have "acc_root_loop h (drop_bit ?t n) ACCUMULATOR_PLACEHOLDER_HASH (rev (frozen h 64 xs)) =
        (map_ok fst (root_fold h (map (bit (unat (drop_bit ?t n))) [0..<?k - ?t])
          ACCUMULATOR_PLACEHOLDER_HASH (rev (frozen h 64 xs))) :: (_, 'e) result)"
    proof (rule acc_root_loop_fold)
      show "unat (drop_bit ?t n) < 2 ^ (?k - ?t)"
        using j(3) tj by (simp add: shifted less_mult_imp_div_less flip: power_add)
      show "2 ^ (?k - ?t - 1) \<le> unat (drop_bit ?t n)"
        using j(2) tj by (simp add: shifted less_eq_div_iff_mult_less_eq flip: power_add)
    qed
    also have "map (bit (unat (drop_bit ?t n))) [0..<?k - ?t] = map (bit (length xs)) [?t..<?k]"
    proof (rule nth_equalityI)
      fix i
      assume "i < length (map (bit (unat (drop_bit ?t n))) [0..<?k - ?t])"
      then have i: "i < ?k - ?t" by (simp del: upt_Suc)
      have "bit (length xs div 2 ^ ?t) i = bit (length xs) (?t + i)"
        by (simp only: drop_bit_eq_div [symmetric] bit_drop_bit_eq comp_apply)
      then show "map (bit (unat (drop_bit ?t n))) [0..<?k - ?t] ! i = map (bit (length xs)) [?t..<?k] ! i"
        using i by (simp only: shifted length_upt nth_map nth_upt minus_nat.diff_0 add_0)
    qed (simp del: upt_Suc)
    also have "root_fold h (map (bit (length xs)) [?t..<?k]) ACCUMULATOR_PLACEHOLDER_HASH (rev (frozen h 64 xs)) =
        (Ok (merkle_root h ?k xs, []) :: (_, 'e) result)"
      using root_fold_frozen [OF j(3) tz, of h "[]"] unfolding froz by simp
    finally show ?thesis using two n0 depth by (auto simp: compute_root_hash_def)
  qed
qed

section \<open>What an accumulator represents\<close>

definition acc_rep :: "node_hasher \<Rightarrow> in_memory_accumulator \<Rightarrow> hash_value list \<Rightarrow> bool" where
  "acc_rep h acc xs \<longleftrightarrow>
     unat (num_leaves acc) = length xs \<and> frozen_subtree_roots acc = frozen h 64 xs \<and>
     root_hash acc = merkle_root h (tree_depth (length xs)) xs"

lemma acc_rep_unique: "acc_rep h acc xs \<Longrightarrow> acc_rep h acc' xs \<Longrightarrow> acc = acc'"
  by (simp add: acc_rep_def word_unat_eq_iff)

lemma acc_new_frozen:
  assumes "unat n = length xs"
  shows "\<exists>acc. acc_new h (frozen h 64 xs) n = Ok acc \<and> acc_rep h acc xs"
proof -
  have lt: "length xs < 2 ^ 64" using assms unat_lt_2p [of n] by (simp del: unat_lt_2p)
  have "bit n i \<longleftrightarrow> bit (length xs) i" for i using assms by (metis bit_unsigned_iff possible_bit_nat)
  then have "length (frozen h 64 xs) = count_ones_word n"
    unfolding length_frozen [OF lt] count_ones_word_card by simp
  then have "acc_new h (frozen h 64 xs) n =
      Ok \<lparr>frozen_subtree_roots = frozen h 64 xs, num_leaves = n,
          root_hash = merkle_root h (tree_depth (length xs)) xs\<rparr>"
    unfolding acc_new_def compute_root_frozen [OF assms] by (simp add: ensure_def del: frozen.simps)
  then show ?thesis using assms by (simp add: acc_rep_def del: frozen.simps)
qed

lemma append_loop:
  assumes "unat n = length xs" "length xs + length ys < 2 ^ 64"
  shows "\<exists>n'. unat n' = length (xs @ ys) \<and>
    for_each (\<lambda>(roots, n) leaf.
        and_then (append_one h roots n leaf) (\<lambda>roots'.
        and_then (plus_or_panic n 1) (\<lambda>n'. Ok (roots', n')))) (frozen h 64 xs, n) ys =
      (Ok (frozen h 64 (xs @ ys), n') :: (_, 'e) result)"
  using assms
proof (induction ys arbitrary: xs n)
  case (Cons y ys)
  have plus: "plus_or_panic n 1 = (Ok (n + 1) :: (_, 'e) result)"
    using Cons.prems by (intro plus_or_panic_ok) simp
  have n': "unat (n + 1) = length (xs @ [y])" using plus_or_panic_OkD [OF plus] Cons.prems by simp
  have one: "append_one h (frozen h 64 xs) n y = (Ok (frozen h 64 (xs @ [y])) :: (_, 'e) result)"
    using Cons.prems by (intro append_one_frozen) simp_all
  from Cons.IH [OF n'] Cons.prems(2) show ?case
    by (simp add: one plus del: frozen.simps)
qed (auto simp del: frozen.simps)

lemma acc_append_rep:
  assumes "acc_rep h acc xs" "length xs + length ys < 2 ^ 64"
  shows "\<exists>acc'. acc_append h acc ys = (Ok acc' :: (_, 'e) result) \<and> acc_rep h acc' (xs @ ys)"
proof -
  obtain n' where n': "unat n' = length (xs @ ys)"
    and loop: "for_each (\<lambda>(roots, n) leaf.
        and_then (append_one h roots n leaf) (\<lambda>roots'.
        and_then (plus_or_panic n 1) (\<lambda>n'. Ok (roots', n')))) (frozen h 64 xs, num_leaves acc) ys =
      (Ok (frozen h 64 (xs @ ys), n') :: (_, 'e) result)"
    using append_loop [of "num_leaves acc" xs ys h] assms by (auto simp: acc_rep_def)
  obtain acc' where "acc_new h (frozen h 64 (xs @ ys)) n' = Ok acc'" "acc_rep h acc' (xs @ ys)"
    using acc_new_frozen [OF n'] by blast
  then show ?thesis using assms(1) loop by (simp add: acc_append_def acc_rep_def del: frozen.simps)
qed

lemma acc_default_rep: "\<exists>acc. acc_default h = (Ok acc :: (_, 'e) result) \<and> acc_rep h acc []"
  using acc_new_frozen [of 0 "[]" h] by (auto simp: acc_default_def)

lemma from_leaves_rep:
  assumes "length xs < 2 ^ 64"
  shows "\<exists>acc. from_leaves h xs = (Ok acc :: (_, 'e) result) \<and> acc_rep h acc xs"
proof -
  obtain acc where "acc_default h = (Ok acc :: (_, 'e) result)" "acc_rep h acc []"
    using acc_default_rep by blast
  then show ?thesis using acc_append_rep [of h acc "[]" xs] assms by (simp add: from_leaves_def)
qed

section \<open>Inclusion proofs\<close>

text \<open>The siblings of leaf \<open>i\<close> in the tree of depth \<open>k\<close>, from the bottom.\<close>

fun proof_siblings :: "node_hasher \<Rightarrow> nat \<Rightarrow> hash_value list \<Rightarrow> nat \<Rightarrow> hash_value list" where
  "proof_siblings h 0 xs i = []"
| "proof_siblings h (Suc k) xs i =
     (if i < 2 ^ k then proof_siblings h k (take (2 ^ k) xs) i @ [merkle_root h k (drop (2 ^ k) xs)]
      else proof_siblings h k (drop (2 ^ k) xs) (i - 2 ^ k) @ [merkle_root h k (take (2 ^ k) xs)])"

lemma length_proof_siblings [simp]: "length (proof_siblings h k xs i) = k"
  by (induction k arbitrary: xs i) auto

lemma acc_proof_step_pair [simp]:
  "acc_proof_step h (e, idx) s = (if idx mod 2 = 0 then h e s else h s e, idx div 2)"
  by (simp add: acc_proof_step_def)

lemma snd_acc_proof_fold: "unat (snd (foldl (acc_proof_step h) (e, idx) sibs)) = unat idx div 2 ^ length sibs"
proof (induction sibs rule: rev_induct)
  case (snoc s sibs)
  obtain e' idx' where f: "foldl (acc_proof_step h) (e, idx) sibs = (e', idx')" by fastforce
  then show ?case using snoc
    by (simp add: unat_div flip: div_mult2_eq mult.commute)
qed simp

text \<open>One more sibling: which side it is on is a bit of the index.\<close>

lemma fst_acc_proof_fold_snoc:
  "fst (foldl (acc_proof_step h) (e, idx) (sibs @ [s])) =
     (if even (unat idx div 2 ^ length sibs)
      then h (fst (foldl (acc_proof_step h) (e, idx) sibs)) s
      else h s (fst (foldl (acc_proof_step h) (e, idx) sibs)))"
proof -
  obtain e' idx' where f: "foldl (acc_proof_step h) (e, idx) sibs = (e', idx')" by fastforce
  have u: "unat idx' = unat idx div 2 ^ length sibs" using snd_acc_proof_fold [of h e idx sibs] f by simp
  have "idx' mod 2 = 0 \<longleftrightarrow> even (unat idx')"
    by (simp add: word_unat_eq_iff unat_mod even_iff_mod_2_eq_zero)
  then show ?thesis by (simp add: f u)
qed

lemma even_div_power:
  fixes n :: nat
  assumes "n mod 2 ^ Suc k = i"
  shows "even (n div 2 ^ k) \<longleftrightarrow> i < 2 ^ k" and "n mod 2 ^ k = (if i < 2 ^ k then i else i - 2 ^ k)"
proof -
  have i: "i = n mod 2 ^ k + 2 ^ k * (n div 2 ^ k mod 2)"
    using assms mod_mult2_eq [of n "2 ^ k" 2] by (simp add: mult.commute)
  have lt: "n mod 2 ^ k < 2 ^ k" by simp
  consider "n div 2 ^ k mod 2 = 0" | "n div 2 ^ k mod 2 = 1" by linarith
  then show "even (n div 2 ^ k) \<longleftrightarrow> i < 2 ^ k"
    using i lt by cases (auto simp: even_iff_mod_2_eq_zero)
  show "n mod 2 ^ k = (if i < 2 ^ k then i else i - 2 ^ k)"
    using i lt by (cases "n div 2 ^ k mod 2 = 0") (auto simp: mod2_eq_if split: if_splits)
qed

lemma acc_proof_fold_complete:
  assumes "i < length xs" "length xs \<le> 2 ^ k" "unat idx mod 2 ^ k = i"
  shows "fst (foldl (acc_proof_step h) (xs ! i, idx) (proof_siblings h k xs i)) = merkle_root h k xs"
  using assms
proof (induction k arbitrary: xs i)
  case 0
  then show ?case by (cases xs) auto
next
  case (Suc k)
  note side = even_div_power [OF Suc.prems(3)]
  have ne: "xs \<noteq> []" using Suc.prems(1) by auto
  show ?case
  proof (cases "i < 2 ^ k")
    case True
    have "fst (foldl (acc_proof_step h) (take (2 ^ k) xs ! i, idx) (proof_siblings h k (take (2 ^ k) xs) i)) =
        merkle_root h k (take (2 ^ k) xs)"
      using Suc.prems True side(2) by (intro Suc.IH) auto
    then show ?thesis
      using True side(1) ne by (simp add: fst_acc_proof_fold_snoc merkle_root_Suc del: foldl_append)
  next
    case False
    have "fst (foldl (acc_proof_step h) (drop (2 ^ k) xs ! (i - 2 ^ k), idx)
        (proof_siblings h k (drop (2 ^ k) xs) (i - 2 ^ k))) = merkle_root h k (drop (2 ^ k) xs)"
      using Suc.prems False side(2) by (intro Suc.IH) auto
    then show ?thesis
      using False side(1) ne Suc.prems(1)
      by (simp add: fst_acc_proof_fold_snoc merkle_root_Suc del: foldl_append)
  qed
qed

text \<open>The pairs hashed in a tree and along a proof: a collision among them is what a forged proof needs.\<close>

fun tree_pairs :: "node_hasher \<Rightarrow> nat \<Rightarrow> hash_value list \<Rightarrow> (hash_value \<times> hash_value) list" where
  "tree_pairs h 0 xs = []"
| "tree_pairs h (Suc k) xs =
     (if xs = [] then []
      else (merkle_root h k (take (2 ^ k) xs), merkle_root h k (drop (2 ^ k) xs)) #
           tree_pairs h k (take (2 ^ k) xs) @ tree_pairs h k (drop (2 ^ k) xs))"

fun path_pairs :: "node_hasher \<Rightarrow> hash_value \<Rightarrow> u64 \<Rightarrow> hash_value list \<Rightarrow> (hash_value \<times> hash_value) list" where
  "path_pairs h e idx [] = []"
| "path_pairs h e idx (s # sibs) =
     (if idx mod 2 = 0 then (e, s) else (s, e)) #
     path_pairs h (fst (acc_proof_step h (e, idx) s)) (idx div 2) sibs"

lemma path_pairs_snoc:
  "set (path_pairs h e idx (sibs @ [s])) =
     insert (if even (unat idx div 2 ^ length sibs)
             then (fst (foldl (acc_proof_step h) (e, idx) sibs), s)
             else (s, fst (foldl (acc_proof_step h) (e, idx) sibs)))
       (set (path_pairs h e idx sibs))"
proof (induction sibs arbitrary: e idx)
  case Nil
  have "idx mod 2 = 0 \<longleftrightarrow> even (unat idx)"
    by (simp add: word_unat_eq_iff unat_mod even_iff_mod_2_eq_zero)
  then show ?case by simp
next
  case (Cons a sibs)
  show ?case by (simp add: Cons.IH unat_div insert_commute flip: div_mult2_eq)
qed

lemma acc_proof_fold_sound:
  assumes "length sibs = k" "i < length xs" "length xs \<le> 2 ^ k" "unat idx mod 2 ^ k = i"
    and "fst (foldl (acc_proof_step h) (e, idx) sibs) = merkle_root h k xs"
    and "inj_on (\<lambda>(a, b). h a b) (set (tree_pairs h k xs) \<union> set (path_pairs h e idx sibs))"
  shows "e = xs ! i"
  using assms
proof (induction k arbitrary: sibs xs i)
  case 0
  then show ?case by (cases xs) auto
next
  case (Suc k)
  obtain rest s where sibs: "sibs = rest @ [s]" and len: "length rest = k"
    using Suc.prems(1) by (cases sibs rule: rev_cases) auto
  let ?f = "fst (foldl (acc_proof_step h) (e, idx) rest)"
  let ?l = "take (2 ^ k) xs" and ?r = "drop (2 ^ k) xs"
  let ?S = "set (tree_pairs h (Suc k) xs) \<union> set (path_pairs h e idx sibs)"
  note side = even_div_power [OF Suc.prems(4)]
  have ne: "xs \<noteq> []" using Suc.prems(2) by auto
  have top: "(merkle_root h k ?l, merkle_root h k ?r) \<in> ?S"
    and sub: "set (tree_pairs h k ?l) \<union> set (tree_pairs h k ?r) \<union> set (path_pairs h e idx rest) \<subseteq> ?S"
    using ne by (auto simp: sibs path_pairs_snoc)
  have mem: "(if i < 2 ^ k then (?f, s) else (s, ?f)) \<in> ?S"
    using side(1) by (simp add: sibs path_pairs_snoc len)
  have "(case (if i < 2 ^ k then (?f, s) else (s, ?f)) of (a, b) \<Rightarrow> h a b) =
      h (merkle_root h k ?l) (merkle_root h k ?r)"
    using Suc.prems(5) side(1) ne by (simp add: sibs fst_acc_proof_fold_snoc len merkle_root_Suc del: foldl_append split: if_splits)
  then have eq: "(if i < 2 ^ k then (?f, s) else (s, ?f)) = (merkle_root h k ?l, merkle_root h k ?r)"
    using inj_onD [OF Suc.prems(6) _ mem top] by simp
  show ?case
  proof (cases "i < 2 ^ k")
    case True
    have "e = ?l ! i"
    proof (rule Suc.IH [OF len])
      show "inj_on (\<lambda>(a, b). h a b) (set (tree_pairs h k ?l) \<union> set (path_pairs h e idx rest))"
        using sub by (intro inj_on_subset [OF Suc.prems(6)]) auto
    qed (use Suc.prems True side(2) eq in auto)
    then show ?thesis using True by simp
  next
    case False
    have "e = ?r ! (i - 2 ^ k)"
    proof (rule Suc.IH [OF len])
      show "inj_on (\<lambda>(a, b). h a b) (set (tree_pairs h k ?r) \<union> set (path_pairs h e idx rest))"
        using sub by (intro inj_on_subset [OF Suc.prems(6)]) auto
    qed (use Suc.prems False side(2) eq in auto)
    then show ?thesis using False Suc.prems(2) by simp
  qed
qed

section \<open>Properties\<close>

text \<open>
  C31. The accumulator built from a list of fewer than \<open>2 ^ 64\<close> leaves exists, counts them, and its root
  is the root of the Merkle tree over them, padded on the right with the placeholder to the next
  power of two; its frozen roots are the roots of the maximal full subtrees from left to right.
\<close>

theorem from_leaves_root:
  assumes "length leaves < 2 ^ 64"
  shows "\<exists>acc. from_leaves h leaves = (Ok acc :: (in_memory_accumulator, unit) result) \<and>
    unat (num_leaves acc) = length leaves \<and>
    root_hash acc = merkle_root h (tree_depth (length leaves)) leaves \<and>
    frozen_subtree_roots acc = frozen h 64 leaves"
  using from_leaves_rep [OF assms, of h] by (auto simp: acc_rep_def)

definition sample_node_hash :: node_hasher where
  "sample_node_hash a b = 4 * a + 2 * b + 1"

theorem from_leaves_root_witness:
  "\<exists>acc. from_leaves sample_node_hash [5, 6, 7] = (Ok acc :: (in_memory_accumulator, unit) result) \<and>
     root_hash acc =
       sample_node_hash (sample_node_hash 5 6) (sample_node_hash 7 ACCUMULATOR_PLACEHOLDER_HASH)"
proof -
  have depth: "tree_depth (length [5, 6, 7 :: hash_value]) = Suc (Suc 0)" by (simp add: tree_depth.simps)
  have "length [5, 6, 7 :: hash_value] < 2 ^ 64" by simp
  from from_leaves_root [OF this, of sample_node_hash] show ?thesis unfolding depth by auto
qed

text \<open>
  C32. Appending in steps is appending at once: an accumulator of some leaves, extended by more, equals
  the accumulator of all of them, and neither step can fail below \<open>2 ^ 64\<close> leaves.
\<close>

theorem append_from_leaves:
  assumes "length xs + length ys < 2 ^ 64"
  shows "\<exists>acc. from_leaves h xs = (Ok acc :: (in_memory_accumulator, unit) result) \<and>
    acc_append h acc ys = (from_leaves h (xs @ ys) :: (in_memory_accumulator, unit) result) \<and>
    is_ok (from_leaves h (xs @ ys) :: (in_memory_accumulator, unit) result)"
proof -
  obtain acc where acc: "from_leaves h xs = (Ok acc :: (_, unit) result)" "acc_rep h acc xs"
    using from_leaves_rep [of xs h] assms by auto
  obtain acc' where acc': "acc_append h acc ys = (Ok acc' :: (_, unit) result)" "acc_rep h acc' (xs @ ys)"
    using acc_append_rep [OF acc(2) assms] by blast
  obtain acc'' where acc'': "from_leaves h (xs @ ys) = (Ok acc'' :: (_, unit) result)" "acc_rep h acc'' (xs @ ys)"
    using from_leaves_rep [of "xs @ ys" h] assms by auto
  show ?thesis using acc acc' acc'' acc_rep_unique [OF acc'(2) acc''(2)] by simp
qed

theorem append_from_leaves_witness:
  "\<exists>acc. from_leaves sample_node_hash [5] = (Ok acc :: (in_memory_accumulator, unit) result) \<and>
     acc_append sample_node_hash acc [6, 7] = (from_leaves sample_node_hash [5, 6, 7] :: (in_memory_accumulator, unit) result)"
  using append_from_leaves [of "[5]" "[6, 7]" sample_node_hash] by auto

text \<open>
  C33. Inclusion proofs are complete: in a tree of depth at most 63 the siblings of a leaf verify it
  at its index against the root.
\<close>

theorem accumulator_proof_complete:
  assumes "k \<le> 63" and "unat index < length leaves" and "length leaves \<le> 2 ^ k"
  shows "accumulator_proof_verify h (proof_siblings h k leaves (unat index)) (merkle_root h k leaves)
    (leaves ! unat index) index = Ok ()"
proof -
  have idx: "unat index mod 2 ^ k = unat index" using assms by simp
  show ?thesis
    using acc_proof_fold_complete [OF assms(2,3) idx, of h] assms(1)
    by (simp add: accumulator_proof_verify_def ensure_def MAX_ACCUMULATOR_PROOF_DEPTH_def Let_def)
qed

theorem accumulator_proof_complete_witness:
  "accumulator_proof_verify sample_node_hash [5, sample_node_hash 7 ACCUMULATOR_PLACEHOLDER_HASH]
     (sample_node_hash (sample_node_hash 5 6) (sample_node_hash 7 ACCUMULATOR_PLACEHOLDER_HASH)) 6 1 = Ok ()"
  using accumulator_proof_complete [of 2 1 "[5, 6, 7]" sample_node_hash] by (simp add: numeral_2_eq_2)

text \<open>
  C30. Inclusion proofs are sound: a proof with as many siblings as the tree is deep that verifies at
  the index of a leaf proves that very leaf, when no two different pairs hashed in the tree or
  along the proof collide.
\<close>

theorem accumulator_proof_sound:
  assumes "unat index < length leaves" and "length leaves \<le> 2 ^ length siblings"
    and "accumulator_proof_verify h siblings (merkle_root h (length siblings) leaves) element index = Ok ()"
    and "inj_on (\<lambda>(a, b). h a b)
      (set (tree_pairs h (length siblings) leaves) \<union> set (path_pairs h element index siblings))"
  shows "element = leaves ! unat index"
proof -
  have idx: "unat index mod 2 ^ length siblings = unat index" using assms by simp
  have "fst (foldl (acc_proof_step h) (element, index) siblings) = merkle_root h (length siblings) leaves"
    using assms(3) by (auto simp: accumulator_proof_verify_def result_simps Let_def)
  then show ?thesis using acc_proof_fold_sound [OF refl assms(1,2) idx _ assms(4)] by simp
qed

theorem accumulator_proof_sound_witness:
  "accumulator_proof_verify sample_node_hash [5, sample_node_hash 7 8]
     (merkle_root sample_node_hash 2 [5, 6, 7, 8]) 6 1 = Ok () \<and>
   [5, 6, 7, 8] ! unat (1 :: u64) = (6 :: hash_value)"
proof
  have ver: "accumulator_proof_verify sample_node_hash [5, sample_node_hash 7 8]
      (merkle_root sample_node_hash 2 [5, 6, 7, 8]) 6 1 = Ok ()"
    by code_simp
  then show "accumulator_proof_verify sample_node_hash [5, sample_node_hash 7 8]
      (merkle_root sample_node_hash 2 [5, 6, 7, 8]) 6 1 = Ok ()" .
  let ?pairs = "[(sample_node_hash 5 6, sample_node_hash 7 8), (5, 6),
      (7, 8)]"
  have "distinct (map (\<lambda>(a, b). sample_node_hash a b) ?pairs)" by code_simp
  then have "inj_on (\<lambda>(a, b). sample_node_hash a b) (set ?pairs)" by (simp only: distinct_map)
  moreover have "set (tree_pairs sample_node_hash (length [5, sample_node_hash 7 8]) [5, 6, 7, 8]) \<union>
      set (path_pairs sample_node_hash 6 1 [5, sample_node_hash 7 8]) = set ?pairs"
    by auto
  ultimately have inj: "inj_on (\<lambda>(a, b). sample_node_hash a b)
      (set (tree_pairs sample_node_hash (length [5, sample_node_hash 7 8]) [5, 6, 7, 8]) \<union>
       set (path_pairs sample_node_hash 6 1 [5, sample_node_hash 7 8]))"
    by (simp only:)
  have two: "length [5, sample_node_hash 7 8] = 2" by simp
  show "[5, 6, 7, 8] ! unat (1 :: u64) = (6 :: hash_value)"
    by (rule accumulator_proof_sound [where h = sample_node_hash and siblings = "[5, sample_node_hash 7 8]", symmetric])
      (simp, simp, unfold two, rule ver, use inj in \<open>simp only: two\<close>)
qed

text \<open>
  C37. Of the index only as many low bits are checked as the proof has siblings: an inclusion proof
  that verifies at one index verifies at every index with the same low bits.
\<close>

theorem accumulator_proof_index_aliasing:
  assumes "unat index mod 2 ^ length siblings = unat index' mod 2 ^ length siblings"
  shows "accumulator_proof_verify h siblings root element index =
    accumulator_proof_verify h siblings root element index'"
proof -
  have "fst (foldl (acc_proof_step h) (element, index) siblings) =
      fst (foldl (acc_proof_step h) (element, index') siblings)"
    using assms
  proof (induction siblings rule: rev_induct)
    case (snoc s sibs)
    have "even (unat index div 2 ^ length sibs) \<longleftrightarrow> even (unat index' div 2 ^ length sibs)"
      "unat index mod 2 ^ length sibs = unat index' mod 2 ^ length sibs"
      using even_div_power [of "unat index" "length sibs"] even_div_power [of "unat index'" "length sibs"]
        snoc.prems by auto
    then show ?case using snoc.IH by (simp only: fst_acc_proof_fold_snoc)
  qed simp
  then show ?thesis by (simp add: accumulator_proof_verify_def)
qed

theorem accumulator_proof_index_aliasing_witness:
  "accumulator_proof_verify sample_node_hash [5] (sample_node_hash 5 6) 6 1 = Ok () \<and>
   accumulator_proof_verify sample_node_hash [5] (sample_node_hash 5 6) 6 3 = Ok ()"
proof -
  have "accumulator_proof_verify sample_node_hash [5] (sample_node_hash 5 6) 6 1 = Ok ()" by code_simp
  then show ?thesis
    using accumulator_proof_index_aliasing [of 1 "[5]" 3 sample_node_hash "sample_node_hash 5 6" 6] by simp
qed

end
