(* ===== verification/Consensus_Msgs.thy ===== *)
theory Consensus_Msgs
  imports Block Accumulator
begin

text \<open>
  The messages of the protocol in \<^verbatim>\<open>consensus/consensus-types\<close>: votes (\<^verbatim>\<open>vote.rs\<close>), what a voter is
  asked to vote on (\<^verbatim>\<open>vote_proposal.rs\<close>), its persistent safety data (\<^verbatim>\<open>safety_data.rs\<close>), the
  certificates peers exchange (\<^verbatim>\<open>sync_info.rs\<close>), proposals (\<^verbatim>\<open>proposal_msg.rs\<close>), vote messages
  (\<^verbatim>\<open>vote_msg.rs\<close>) and the commit phase of decoupled execution (\<^verbatim>\<open>experimental\<close>).
\<close>

section \<open>Votes\<close>

record vote =
  v_vote_data :: vote_data
  v_author :: author
  v_ledger_info :: ledger_info
  v_signature :: bls_signature
  v_two_chain_timeout :: "(two_chain_timeout \<times> bls_signature) option"

definition vote_new_with_signature :: "vote_data \<Rightarrow> author \<Rightarrow> ledger_info \<Rightarrow> bls_signature \<Rightarrow> vote" where
  "vote_new_with_signature vd author li signature =
     \<lparr>v_vote_data = vd, v_author = author, v_ledger_info = li, v_signature = signature,
      v_two_chain_timeout = None\<rparr>"

definition vote_new ::
  "crypto \<Rightarrow> vote_data \<Rightarrow> author \<Rightarrow> ledger_info \<Rightarrow> validator_signer \<Rightarrow> (vote, crypto_material_error) result" where
  "vote_new c vd author ledger_info_placeholder signer =
     and_then (crypto_hash c (msg_vote_data vd)) (\<lambda>h.
     let li = ledger_info_placeholder\<lparr>consensus_data_hash := h\<rparr> in
     and_then (signer_sign c signer (msg_ledger_info li)) (\<lambda>signature.
     Ok (vote_new_with_signature vd author li signature)))"

definition add_2chain_timeout :: "two_chain_timeout \<Rightarrow> bls_signature \<Rightarrow> vote \<Rightarrow> vote" where
  "add_2chain_timeout timeout signature v = v\<lparr>v_two_chain_timeout := Some (timeout, signature)\<rparr>"

definition v_epoch :: "vote \<Rightarrow> u64" where "v_epoch v = bi_epoch (vd_proposed (v_vote_data v))"
definition v_round :: "vote \<Rightarrow> round" where "v_round v = bi_round (vd_proposed (v_vote_data v))"

definition generate_2chain_timeout :: "vote \<Rightarrow> quorum_cert \<Rightarrow> two_chain_timeout" where
  "generate_2chain_timeout v qc =
     \<lparr>to_epoch = bi_epoch (vd_proposed (v_vote_data v)), to_round = bi_round (vd_proposed (v_vote_data v)),
      to_quorum_cert = qc\<rparr>"

definition is_timeout :: "vote \<Rightarrow> bool" where "is_timeout v \<longleftrightarrow> v_two_chain_timeout v \<noteq> None"

definition vote_verify :: "crypto \<Rightarrow> vote \<Rightarrow> validator_verifier \<Rightarrow> (unit, anyhow) result" where
  "vote_verify c v vv =
     and_then (crypto_hash c (msg_vote_data (v_vote_data v))) (\<lambda>h.
     and_then (ensure (consensus_data_hash (v_ledger_info v) = h)
       (Anyhow ''Vote's hash mismatch with LedgerInfo'')) (\<lambda>_.
     and_then (map_err FromVerifyError
       (verifier_verify c vv (v_author v) (msg_ledger_info (v_ledger_info v)) (v_signature v))) (\<lambda>_.
     and_then (case v_two_chain_timeout v of
         None \<Rightarrow> Ok ()
       | Some (timeout, signature) \<Rightarrow>
           and_then (ensure ((to_epoch timeout, to_round timeout) = (v_epoch v, v_round v))
             (Anyhow ''2-chain timeout has different (epoch, round) than Vote'')) (\<lambda>_.
           and_then (timeout_verify c timeout vv) (\<lambda>_.
           map_err FromVerifyError
             (verifier_verify c vv (v_author v) (msg_timeout (signing_format timeout)) signature)))) (\<lambda>_.
     vote_data_verify (v_vote_data v)))))"

text \<open>What a verified vote shows.\<close>

lemma vote_verify_OkD:
  assumes "vote_verify c v vv = Ok u"
  shows "message_hash c (msg_vote_data (v_vote_data v)) = Some (consensus_data_hash (v_ledger_info v))"
    and "verifier_verify c vv (v_author v) (msg_ledger_info (v_ledger_info v)) (v_signature v) = Ok ()"
    and "vote_data_verify (v_vote_data v) = Ok ()"
    and "v_two_chain_timeout v = Some (t, sg) \<Longrightarrow> to_epoch t = v_epoch v \<and> to_round t = v_round v \<and>
      timeout_verify c t vv = Ok () \<and> verifier_verify c vv (v_author v) (msg_timeout (signing_format t)) sg = Ok ()"
  using assms by (auto simp: vote_verify_def result_simps split: option.splits)

section \<open>Safety data\<close>

record safety_data =
  sfd_epoch :: u64
  last_voted_round :: u64
  preferred_round :: u64
  one_chain_round :: u64
  last_vote :: "vote option"

definition safety_data_new :: "u64 \<Rightarrow> u64 \<Rightarrow> u64 \<Rightarrow> u64 \<Rightarrow> vote option \<Rightarrow> safety_data" where
  "safety_data_new epoch lvr pr ocr lv =
     \<lparr>sfd_epoch = epoch, last_voted_round = lvr, preferred_round = pr, one_chain_round = ocr, last_vote = lv\<rparr>"

section \<open>Vote proposals\<close>

record vote_proposal =
  vp_accumulator_extension_proof :: accumulator_extension_proof
  vp_block :: block
  vp_next_epoch_state :: "epoch_state option"
  vp_decoupled_execution :: bool

definition vote_data_ordering_only :: "vote_proposal \<Rightarrow> vote_data" where
  "vote_data_ordering_only vp =
     \<lparr>vd_proposed = gen_block_info (vp_block vp) ACCUMULATOR_PLACEHOLDER_HASH 0 (vp_next_epoch_state vp),
      vd_parent = certified_block (b_quorum_cert (vp_block vp))\<rparr>"

definition vote_data_with_extension_proof :: "vote_proposal \<Rightarrow> in_memory_accumulator \<Rightarrow> vote_data" where
  "vote_data_with_extension_proof vp new_tree =
     \<lparr>vd_proposed = gen_block_info (vp_block vp) (root_hash new_tree) (acc_version new_tree) (vp_next_epoch_state vp),
      vd_parent = certified_block (b_quorum_cert (vp_block vp))\<rparr>"

definition transaction_accumulator_hasher :: "crypto \<Rightarrow> node_hasher" where
  "transaction_accumulator_hasher c = node_hash (sha3_256 c) ''TransactionAccumulator''"

definition gen_vote_data :: "crypto \<Rightarrow> vote_proposal \<Rightarrow> (vote_data, anyhow) result" where
  "gen_vote_data c vp =
     (if vp_decoupled_execution vp then Ok (vote_data_ordering_only vp)
      else and_then (aep_verify (transaction_accumulator_hasher c) (vp_accumulator_extension_proof vp)
          (bi_executed_state_id (certified_block (b_quorum_cert (vp_block vp))))) (\<lambda>new_tree.
        Ok (vote_data_with_extension_proof vp new_tree)))"

section \<open>Sync info\<close>

record sync_info =
  highest_quorum_cert :: quorum_cert
  si_highest_ordered_cert :: "quorum_cert option"
  highest_commit_cert :: quorum_cert
  highest_2chain_timeout_cert :: "two_chain_timeout_certificate option"

definition sync_info_new_decoupled ::
  "quorum_cert \<Rightarrow> quorum_cert \<Rightarrow> quorum_cert \<Rightarrow> two_chain_timeout_certificate option \<Rightarrow> sync_info" where
  "sync_info_new_decoupled hqc hoc hcc htc =
     \<lparr>highest_quorum_cert = hqc,
      si_highest_ordered_cert = (if hoc \<noteq> hqc then Some hoc else None),
      highest_commit_cert = hcc,
      highest_2chain_timeout_cert =
        (case htc of
           None \<Rightarrow> None
         | Some tc \<Rightarrow> if tc_round tc > bi_round (certified_block hqc) then Some tc else None)\<rparr>"

definition sync_info_new ::
  "quorum_cert \<Rightarrow> quorum_cert \<Rightarrow> two_chain_timeout_certificate option \<Rightarrow> sync_info" where
  "sync_info_new hqc hoc htc = sync_info_new_decoupled hqc hoc hoc htc"

definition highest_ordered_cert :: "sync_info \<Rightarrow> quorum_cert" where
  "highest_ordered_cert si =
     (case si_highest_ordered_cert si of Some qc \<Rightarrow> qc | None \<Rightarrow> highest_quorum_cert si)"

definition highest_certified_round :: "sync_info \<Rightarrow> round" where
  "highest_certified_round si = bi_round (certified_block (highest_quorum_cert si))"

definition highest_timeout_round :: "sync_info \<Rightarrow> round" where
  "highest_timeout_round si =
     (case highest_2chain_timeout_cert si of None \<Rightarrow> 0 | Some tc \<Rightarrow> tc_round tc)"

definition highest_ordered_round :: "sync_info \<Rightarrow> round" where
  "highest_ordered_round si = bi_round (qc_commit_info (highest_ordered_cert si))"

definition highest_commit_round :: "sync_info \<Rightarrow> round" where
  "highest_commit_round si = bi_round (qc_commit_info (highest_commit_cert si))"

definition highest_round :: "sync_info \<Rightarrow> round" where
  "highest_round si = max (highest_certified_round si) (highest_timeout_round si)"

definition si_epoch :: "sync_info \<Rightarrow> u64" where
  "si_epoch si = bi_epoch (certified_block (highest_quorum_cert si))"

definition sync_info_verify :: "crypto \<Rightarrow> sync_info \<Rightarrow> validator_verifier \<Rightarrow> (unit, anyhow) result" where
  "sync_info_verify c si vv =
     (let epoch = bi_epoch (certified_block (highest_quorum_cert si)) in
      and_then (ensure (epoch = bi_epoch (certified_block (highest_ordered_cert si)))
        (Anyhow ''Multi epoch in SyncInfo - HOC and HQC'')) (\<lambda>_.
      and_then (ensure (epoch = bi_epoch (qc_commit_info (highest_commit_cert si)))
        (Anyhow ''Multi epoch in SyncInfo - HOC and HCC'')) (\<lambda>_.
      and_then (case highest_2chain_timeout_cert si of
          None \<Rightarrow> Ok ()
        | Some tc \<Rightarrow> ensure (epoch = tc_epoch tc) (Anyhow ''Multi epoch in SyncInfo - TC and HQC'')) (\<lambda>_.
      and_then (ensure (bi_round (certified_block (highest_quorum_cert si)) \<ge>
          bi_round (certified_block (highest_ordered_cert si)))
        (Anyhow ''HQC has lower round than HOC'')) (\<lambda>_.
      and_then (ensure (bi_round (certified_block (highest_ordered_cert si)) \<ge> highest_commit_round si)
        (Anyhow ''HOC has lower round than HLI'')) (\<lambda>_.
      and_then (ensure (qc_commit_info (highest_ordered_cert si) \<noteq> block_info_empty)
        (Anyhow ''HOC has no committed block'')) (\<lambda>_.
      and_then (ensure (qc_commit_info (highest_commit_cert si) \<noteq> block_info_empty)
        (Anyhow ''HLI has empty commit info'')) (\<lambda>_.
      and_then (qc_verify c (highest_quorum_cert si) vv) (\<lambda>_.
      and_then (case si_highest_ordered_cert si of None \<Rightarrow> Ok () | Some cert \<Rightarrow> qc_verify c cert vv) (\<lambda>_.
      and_then (if bi_round (qc_commit_info (highest_commit_cert si)) > 0
        then qc_verify c (highest_commit_cert si) vv else Ok ()) (\<lambda>_.
      case highest_2chain_timeout_cert si of None \<Rightarrow> Ok () | Some tc \<Rightarrow> tc_verify c tc vv)))))))))))"

definition has_newer_certificates :: "sync_info \<Rightarrow> sync_info \<Rightarrow> bool" where
  "has_newer_certificates si other \<longleftrightarrow>
     highest_certified_round si > highest_certified_round other \<or>
     highest_timeout_round si > highest_timeout_round other \<or>
     highest_ordered_round si > highest_ordered_round other \<or>
     highest_commit_round si > highest_commit_round other"

section \<open>Proposal and vote messages\<close>

record proposal_msg =
  pm_proposal :: block
  pm_sync_info :: sync_info

definition proposal_msg_verify_well_formed :: "u64 \<Rightarrow> proposal_msg \<Rightarrow> (unit, anyhow) result" where
  "proposal_msg_verify_well_formed now_usecs m =
     (let proposal = pm_proposal m; si = pm_sync_info m in
      and_then (ensure (\<not> is_nil_block proposal) (Anyhow ''Proposal for a NIL block'')) (\<lambda>_.
      and_then (verify_well_formed now_usecs proposal) (\<lambda>_.
      and_then (ensure (b_round proposal > 0) (Anyhow ''Proposal has an incorrect round of 0'')) (\<lambda>_.
      and_then (ensure (b_epoch proposal = si_epoch si)
        (Anyhow ''ProposalMsg has different epoch number from SyncInfo'')) (\<lambda>_.
      and_then (ensure (b_parent_id proposal = bi_id (certified_block (highest_quorum_cert si)))
        (Anyhow ''Proposal HQC in SyncInfo certifies another block'')) (\<lambda>_.
      and_then (ok_or (checked_sub (b_round proposal) 1) (Anyhow ''proposal round overflowed!'')) (\<lambda>previous_round.
      let hcr = max (bi_round (certified_block (b_quorum_cert proposal))) (highest_timeout_round si) in
      and_then (ensure (previous_round = hcr) (Anyhow ''Proposal does not have a certified round'')) (\<lambda>_.
      ensure (b_author proposal \<noteq> None) (Anyhow ''Proposal does not define an author'')))))))))"

definition proposal_msg_verify ::
  "crypto \<Rightarrow> u64 \<Rightarrow> proposal_msg \<Rightarrow> validator_verifier \<Rightarrow> bool \<Rightarrow> (unit, anyhow) result" where
  "proposal_msg_verify c now_usecs m vv quorum_store_enabled =
     and_then (case b_payload (pm_proposal m) of
         None \<Rightarrow> Ok ()
       | Some p \<Rightarrow> payload_verify c p vv quorum_store_enabled) (\<lambda>_.
     and_then (validate_signature c (pm_proposal m) vv) (\<lambda>_.
     and_then (case highest_2chain_timeout_cert (pm_sync_info m) of
         None \<Rightarrow> Ok ()
       | Some tc \<Rightarrow> tc_verify c tc vv) (\<lambda>_.
     proposal_msg_verify_well_formed now_usecs m)))"

definition proposer :: "proposal_msg \<Rightarrow> (author, 'e) result" where
  "proposer m = expect (b_author (pm_proposal m))"

record vote_msg =
  vm_vote :: vote
  vm_sync_info :: sync_info

definition vote_msg_verify :: "crypto \<Rightarrow> vote_msg \<Rightarrow> validator_verifier \<Rightarrow> (unit, anyhow) result" where
  "vote_msg_verify c m vv =
     and_then (ensure (v_epoch (vm_vote m) = si_epoch (vm_sync_info m)) (Anyhow ''VoteMsg has different epoch'')) (\<lambda>_.
     and_then (ensure (v_round (vm_vote m) > highest_round (vm_sync_info m))
       (Anyhow ''Vote Round should be higher than SyncInfo'')) (\<lambda>_.
     and_then (case v_two_chain_timeout (vm_vote m) of
         None \<Rightarrow> Ok ()
       | Some (timeout, _) \<Rightarrow>
           ensure (hqc_round timeout \<le> highest_certified_round (vm_sync_info m))
             (Anyhow ''2-chain Timeout hqc should be less or equal than the sync info hqc'')) (\<lambda>_.
     vote_verify c (vm_vote m) vv)))"

section \<open>The commit phase\<close>

record commit_vote =
  cv_author :: author
  cv_ledger_info :: ledger_info
  cv_signature :: bls_signature

definition commit_vote_new ::
  "crypto \<Rightarrow> author \<Rightarrow> ledger_info \<Rightarrow> validator_signer \<Rightarrow> (commit_vote, crypto_material_error) result" where
  "commit_vote_new c author li signer =
     and_then (signer_sign c signer (msg_ledger_info li)) (\<lambda>signature.
     Ok \<lparr>cv_author = author, cv_ledger_info = li, cv_signature = signature\<rparr>)"

definition commit_vote_verify :: "crypto \<Rightarrow> commit_vote \<Rightarrow> validator_verifier \<Rightarrow> (unit, anyhow) result" where
  "commit_vote_verify c v vv =
     map_err FromVerifyError
       (verifier_verify c vv (cv_author v) (msg_ledger_info (cv_ledger_info v)) (cv_signature v))"

record commit_decision =
  cd_ledger_info :: ledger_info_with_signatures

definition commit_decision_verify ::
  "crypto \<Rightarrow> commit_decision \<Rightarrow> validator_verifier \<Rightarrow> (unit, anyhow) result" where
  "commit_decision_verify c d vv = map_err FromVerifyError (lis_verify_signatures c (cd_ledger_info d) vv)"

end
