(* ===== verification/Text_Format.thy ===== *)
theory Text_Format
  imports Hash_Value
begin

text \<open>
  Text of numbers and hashes: \<^verbatim>\<open>Display\<close> and \<^verbatim>\<open>FromStr\<close> of the standard library's \<^verbatim>\<open>u64\<close>,
  \<^verbatim>\<open>str::split\<close>, and the hexadecimal text of a \<^verbatim>\<open>HashValue\<close>
  (\<^verbatim>\<open>crates/aptos-crypto/src/hash.rs\<close>). Decoding hexadecimal digits is the \<^verbatim>\<open>hex\<close> crate's
  \<^verbatim>\<open>FromHex for [u8; 32]\<close>, the argument \<open>hex_decode\<close>.
\<close>

section \<open>Decimal numbers\<close>

definition digit_char :: "nat \<Rightarrow> char" where
  "digit_char d = char_of (48 + d)"

definition digit_value :: "char \<Rightarrow> nat option" where
  "digit_value ch =
     (let n = of_char ch :: nat in if 48 \<le> n \<and> n \<le> 57 then Some (n - 48) else None)"

function nat_to_dec :: "nat \<Rightarrow> string" where
  "nat_to_dec n = (if n < 10 then [digit_char n] else nat_to_dec (n div 10) @ [digit_char (n mod 10)])"
  by pat_completeness auto
termination by (relation "measure id") auto

declare nat_to_dec.simps [simp del]

definition u64_to_string :: "u64 \<Rightarrow> string" where
  "u64_to_string n = nat_to_dec (unat n)"

datatype parse_int_error = EmptyNumber | InvalidDigit | PosOverflow

definition parse_digits :: "string \<Rightarrow> (u64, parse_int_error) result" where
  "parse_digits s =
     for_each (\<lambda>n ch.
         and_then (ok_or (digit_value ch) InvalidDigit) (\<lambda>d.
         and_then (ok_or (checked_mul n 10) PosOverflow) (\<lambda>m.
         ok_or (checked_add m (of_nat d)) PosOverflow)))
       0 s"

definition parse_u64 :: "string \<Rightarrow> (u64, parse_int_error) result" where
  "parse_u64 s =
     (case s of
        [] \<Rightarrow> Err EmptyNumber
      | ch # rest \<Rightarrow>
          if ch = CHR ''+'' then (if rest = [] then Err InvalidDigit else parse_digits rest)
          else parse_digits s)"

fun split_on :: "char \<Rightarrow> string \<Rightarrow> string list" where
  "split_on d [] = [[]]"
| "split_on d (ch # s) =
     (if ch = d then [] # split_on d s
      else case split_on d s of p # ps \<Rightarrow> (ch # p) # ps | [] \<Rightarrow> [[ch]])"

section \<open>Hexadecimal hashes\<close>

definition hex_char :: "nat \<Rightarrow> char" where
  "hex_char d = char_of (if d < 10 then 48 + d else 87 + d)"

definition byte_to_hex :: "u8 \<Rightarrow> string" where
  "byte_to_hex b = [hex_char (unat b div 16), hex_char (unat b mod 16)]"

definition to_hex :: "hash_value \<Rightarrow> string" where
  "to_hex h = concat (map byte_to_hex (hv_bytes h))"

definition to_hex_literal :: "hash_value \<Rightarrow> string" where
  "to_hex_literal h = ''0x'' @ to_hex h"

definition from_hex :: "(string \<Rightarrow> u8 list option) \<Rightarrow> string \<Rightarrow> (hash_value, hash_value_parse_error) result" where
  "from_hex hex_decode s = map_ok hv_new (ok_or (hex_decode s) HashValueParseError)"

section \<open>Lemmas\<close>

lemma of_char_digit_char: "d < 10 \<Longrightarrow> of_char (digit_char d) = 48 + d"
  by (simp add: digit_char_def of_char_of)

lemma digit_value_digit_char [simp]: "d < 10 \<Longrightarrow> digit_value (digit_char d) = Some d"
  by (simp add: digit_value_def of_char_digit_char)

lemma digit_char_neq: "d < 10 \<Longrightarrow> digit_char d = ch \<Longrightarrow> of_char ch \<in> {48..(57 :: nat)}"
  using of_char_digit_char [of d] by auto

lemma set_nat_to_dec: "ch \<in> set (nat_to_dec n) \<Longrightarrow> of_char ch \<in> {48..(57 :: nat)}"
proof (induction n rule: nat_to_dec.induct)
  case (1 n)
  then show ?case
    by (subst (asm) nat_to_dec.simps)
      (auto split: if_splits simp: of_char_digit_char [of n] of_char_digit_char [of "n mod 10"])
qed

lemma nat_to_dec_neq_Nil: "nat_to_dec n \<noteq> []"
  by (subst nat_to_dec.simps) simp

lemma parse_digits_nat_to_dec:
  "n < 2 ^ 64 \<Longrightarrow> parse_digits (nat_to_dec n) = Ok (of_nat n)"
proof (induction n rule: nat_to_dec.induct)
  case (1 n)
  have step: "and_then (ok_or (checked_mul (of_nat m) 10) PosOverflow)
      (\<lambda>k. ok_or (checked_add k (of_nat d)) PosOverflow) = Ok (of_nat (10 * m + d) :: u64)"
    if "10 * m + d < 2 ^ 64" for m d
  proof -
    have lt: "m < 2 ^ LENGTH(64)" "d < 2 ^ LENGTH(64)" "m * 10 < 2 ^ LENGTH(64)"
      using that by simp_all
    have m: "unat (of_nat m :: u64) = m" by (rule unat_of_nat_small [OF lt(1)])
    have d: "unat (of_nat d :: u64) = d" by (rule unat_of_nat_small [OF lt(2)])
    have md: "unat (of_nat (m * 10) :: u64) = m * 10" by (rule unat_of_nat_small [OF lt(3)])
    have ten: "unat (10 :: u64) = 10" by simp
    have "checked_mul (of_nat m) 10 = Some (of_nat (m * 10) :: u64)"
      unfolding checked_mul_def m ten if_P [OF lt(3)] by simp
    moreover have "m * 10 + d < 2 ^ LENGTH(64)" using that by simp
    then have "checked_add (of_nat (m * 10)) (of_nat d) = Some (of_nat (10 * m + d) :: u64)"
      unfolding checked_add_def md d by (simp add: mult.commute)
    ultimately show ?thesis by (simp only: ok_or_def option.case and_then.simps)
  qed
  show ?case
  proof (cases "n < 10")
    case True
    then show ?thesis using step [of 0 n]
      by (subst nat_to_dec.simps) (simp add: parse_digits_def ok_or_def result_simps and_then_eq_Ok)
  next
    case False
    have "parse_digits (nat_to_dec (n div 10)) = Ok (of_nat (n div 10))"
      using 1 False by simp
    moreover have "10 * (n div 10) + n mod 10 < 2 ^ 64" using "1.prems" by simp
    ultimately show ?thesis using False step [of "n div 10" "n mod 10"]
      by (subst nat_to_dec.simps) (simp add: parse_digits_def for_each_append ok_or_def [of "Some _"] and_then_eq_Ok)
  qed
qed

lemma parse_u64_u64_to_string [simp]: "parse_u64 (u64_to_string n) = Ok n"
proof -
  obtain ch rest where s: "nat_to_dec (unat n) = ch # rest"
    by (cases "nat_to_dec (unat n)") (auto simp: nat_to_dec_neq_Nil)
  then have "of_char ch \<in> {48..(57 :: nat)}" using set_nat_to_dec [of ch "unat n"] by simp
  then have "ch \<noteq> CHR ''+''" by auto
  moreover have "unat n < 2 ^ 64" using unat_lt_2p [of n] by simp
  ultimately show ?thesis using s parse_digits_nat_to_dec [of "unat n"]
    by (simp add: parse_u64_def u64_to_string_def)
qed

lemma split_on_neq_Nil: "split_on d s \<noteq> []"
  by (induction s) (auto split: list.splits)

lemma split_on_plain: "d \<notin> set s \<Longrightarrow> split_on d s = [s]"
  by (induction s) auto

lemma split_on_append: "d \<notin> set s \<Longrightarrow> split_on d (s @ d # t) = s # split_on d t"
  by (induction s) auto

lemma of_char_hex_char: "d < 16 \<Longrightarrow> of_char (hex_char d) = (if d < 10 then 48 + d else 87 + d)"
  by (simp add: hex_char_def of_char_of)

lemma set_to_hex: "ch \<in> set (to_hex h) \<Longrightarrow> of_char ch \<in> {48..57} \<union> {97..(102 :: nat)}"
proof -
  assume "ch \<in> set (to_hex h)"
  then obtain b :: u8 where "ch = hex_char (unat b div 16) \<or> ch = hex_char (unat b mod 16)"
    by (auto simp: to_hex_def byte_to_hex_def)
  moreover have "unat b div 16 < 16" "unat b mod 16 < 16" using unat_lt_2p [of b] by simp_all
  ultimately obtain d where "d < 16" "ch = hex_char d" by blast
  then show ?thesis by (auto simp: of_char_hex_char)
qed

end
