(* ===== verification/Epoch_Change.thy ===== *)
theory Epoch_Change
  imports Accumulator Text_Format
begin

text \<open>
  Trust across epochs: \<^verbatim>\<open>types/src/waypoint.rs\<close>, \<^verbatim>\<open>epoch_change.rs\<close> and \<^verbatim>\<open>trusted_state.rs\<close>. The trait
  \<^verbatim>\<open>Verifier\<close> is the record \<open>ledger_verifier\<close> of its three methods, and its contract is the locale
  \<open>ledger_verifier_laws\<close>, interpreted for the three implementations. The lemmas show that a proof of
  epoch changes is accepted exactly as a chain in which every link is certified by the validator
  set the previous link installed, that a trusted state only moves along such chains, and that the
  text of a waypoint is read back.
\<close>

section \<open>Waypoints\<close>

record waypoint =
  wp_version :: version
  wp_value :: hash_value

record ledger2waypoint_converter =
  l2w_epoch :: u64
  l2w_root_hash :: hash_value
  l2w_version :: version
  l2w_timestamp_usecs :: u64
  l2w_next_epoch_state :: "epoch_state option"

definition l2w_new :: "ledger_info \<Rightarrow> ledger2waypoint_converter" where
  "l2w_new li =
     \<lparr>l2w_epoch = li_epoch li, l2w_root_hash = transaction_accumulator_hash li,
      l2w_version = li_version li, l2w_timestamp_usecs = li_timestamp_usecs li,
      l2w_next_epoch_state = li_next_epoch_state li\<rparr>"

definition msg_l2w :: "ledger2waypoint_converter \<Rightarrow> message" where
  "msg_l2w w =
     Message ''Ledger2WaypointConverter''
       (SStruct [SU64 (l2w_epoch w), SFixed (l2w_root_hash w), SU64 (l2w_version w),
         SU64 (l2w_timestamp_usecs w), ser_option ser_epoch_state (l2w_next_epoch_state w)])"

definition waypoint_new_any :: "crypto \<Rightarrow> ledger_info \<Rightarrow> (waypoint, 'e) result" where
  "waypoint_new_any c li =
     and_then (crypto_hash c (msg_l2w (l2w_new li))) (\<lambda>h.
     Ok \<lparr>wp_version = li_version li, wp_value = h\<rparr>)"

definition waypoint_new_epoch_boundary :: "crypto \<Rightarrow> ledger_info \<Rightarrow> (waypoint, anyhow) result" where
  "waypoint_new_epoch_boundary c li =
     and_then (ensure (ends_epoch li) (Anyhow ''No validator set'')) (\<lambda>_. waypoint_new_any c li)"

definition waypoint_verify :: "crypto \<Rightarrow> waypoint \<Rightarrow> ledger_info \<Rightarrow> (unit, anyhow) result" where
  "waypoint_verify c w li =
     and_then (ensure (li_version li = wp_version w) (Anyhow ''Waypoint version mismatch'')) (\<lambda>_.
     and_then (crypto_hash c (msg_l2w (l2w_new li))) (\<lambda>h.
     ensure (h = wp_value w) (Anyhow ''Waypoint value mismatch'')))"

definition WAYPOINT_DELIMITER :: char where "WAYPOINT_DELIMITER = CHR '':''"

definition waypoint_to_string :: "waypoint \<Rightarrow> string" where
  "waypoint_to_string w = u64_to_string (wp_version w) @ WAYPOINT_DELIMITER # to_hex (wp_value w)"

text \<open>The iterator of \<^verbatim>\<open>split\<close> yields at least one piece, so the first \<^verbatim>\<open>ok_or_else\<close> never fires.\<close>

definition waypoint_from_str :: "(string \<Rightarrow> u8 list option) \<Rightarrow> string \<Rightarrow> (waypoint, anyhow) result" where
  "waypoint_from_str hex_decode s =
     (case split_on WAYPOINT_DELIMITER s of
        [] \<Rightarrow> Err (Anyhow ''Failed to parse waypoint string'')
      | p # ps \<Rightarrow>
          and_then (map_err (\<lambda>_. FromParseIntError) (parse_u64 p)) (\<lambda>vers.
          and_then (case ps of
              [] \<Rightarrow> Err (Anyhow ''Failed to parse waypoint string'')
            | q # _ \<Rightarrow> map_err (\<lambda>_. FromHashValueParseError) (from_hex hex_decode q)) (\<lambda>val.
          Ok \<lparr>wp_version = vers, wp_value = val\<rparr>)))"

section \<open>Verifiers of ledger infos\<close>

record ledger_verifier =
  lv_verify :: "ledger_info_with_signatures \<Rightarrow> (unit, anyhow) result"
  lv_epoch_change_verification_required :: "u64 \<Rightarrow> bool"
  lv_is_ledger_info_stale :: "ledger_info \<Rightarrow> bool"

definition waypoint_verifier :: "crypto \<Rightarrow> waypoint \<Rightarrow> ledger_verifier" where
  "waypoint_verifier c w =
     \<lparr>lv_verify = (\<lambda>l. waypoint_verify c w (lis_ledger_info l)),
      lv_epoch_change_verification_required = (\<lambda>_. True),
      lv_is_ledger_info_stale = (\<lambda>li. li_version li < wp_version w)\<rparr>"

definition epoch_state_verify ::
  "crypto \<Rightarrow> epoch_state \<Rightarrow> ledger_info_with_signatures \<Rightarrow> (unit, anyhow) result" where
  "epoch_state_verify c es l =
     and_then (ensure (es_epoch es = li_epoch (lis_ledger_info l)) (Anyhow ''LedgerInfo has unexpected epoch'')) (\<lambda>_.
     map_err FromVerifyError (lis_verify_signatures c l (es_verifier es)))"

definition epoch_state_verifier :: "crypto \<Rightarrow> epoch_state \<Rightarrow> ledger_verifier" where
  "epoch_state_verifier c es =
     \<lparr>lv_verify = epoch_state_verify c es,
      lv_epoch_change_verification_required = (\<lambda>epoch. es_epoch es < epoch),
      lv_is_ledger_info_stale = (\<lambda>li. li_epoch li < es_epoch es)\<rparr>"

datatype trusted_state =
    EpochWaypoint waypoint
  | TrustedEpochState waypoint epoch_state

definition trusted_state_verifier :: "crypto \<Rightarrow> trusted_state \<Rightarrow> ledger_verifier" where
  "trusted_state_verifier c st =
     (case st of
        EpochWaypoint w \<Rightarrow> waypoint_verifier c w
      | TrustedEpochState _ es \<Rightarrow> epoch_state_verifier c es)"

section \<open>Epoch change proofs\<close>

record epoch_change_proof =
  ecp_ledger_info_with_sigs :: "ledger_info_with_signatures list"
  ecp_more :: bool

definition ecp_epoch :: "epoch_change_proof \<Rightarrow> (u64, anyhow) result" where
  "ecp_epoch p =
     (case ecp_ledger_info_with_sigs p of
        [] \<Rightarrow> Err (Anyhow ''Empty EpochChangeProof'')
      | l # _ \<Rightarrow> Ok (li_epoch (lis_ledger_info l)))"

definition ecp_link ::
  "crypto \<Rightarrow> ledger_verifier \<Rightarrow> ledger_info_with_signatures \<Rightarrow> (ledger_verifier, anyhow) result" where
  "ecp_link c verifier_ref l =
     and_then (lv_verify verifier_ref l) (\<lambda>_.
     and_then (ok_or (li_next_epoch_state (lis_ledger_info l))
       (Anyhow ''LedgerInfo doesn't carry a ValidatorSet'')) (\<lambda>es.
     Ok (epoch_state_verifier c es)))"

definition ecp_verify ::
  "crypto \<Rightarrow> epoch_change_proof \<Rightarrow> ledger_verifier \<Rightarrow> (ledger_info_with_signatures, anyhow) result" where
  "ecp_verify c p v =
     (let lis = ecp_ledger_info_with_sigs p in
      and_then (ensure (lis \<noteq> []) (Anyhow ''The EpochChangeProof is empty'')) (\<lambda>_.
      and_then (ensure (\<not> lv_is_ledger_info_stale v (lis_ledger_info (last lis)))
        (Anyhow ''The EpochChangeProof is stale as our verifier is already ahead'')) (\<lambda>_.
      and_then (for_each (ecp_link c) v
        (dropWhile (\<lambda>l. lv_is_ledger_info_stale v (lis_ledger_info l)) lis)) (\<lambda>_.
      Ok (last lis)))))"

section \<open>Trusted states\<close>

datatype trusted_state_change =
    VersionChange trusted_state
  | EpochChange trusted_state ledger_info_with_signatures
  | NoChange

fun ts_waypoint :: "trusted_state \<Rightarrow> waypoint" where
  "ts_waypoint (EpochWaypoint w) = w"
| "ts_waypoint (TrustedEpochState w es) = w"

definition ts_version :: "trusted_state \<Rightarrow> version" where
  "ts_version st = wp_version (ts_waypoint st)"

definition try_from_epoch_change_li ::
  "crypto \<Rightarrow> ledger_info \<Rightarrow> in_memory_accumulator \<Rightarrow> (trusted_state, anyhow) result" where
  "try_from_epoch_change_li c li acc =
     and_then (summary_verify_consistency acc li) (\<lambda>_.
     and_then (ok_or (li_next_epoch_state li) (Anyhow ''No EpochState in LedgerInfo'')) (\<lambda>es.
     and_then (waypoint_new_epoch_boundary c li) (\<lambda>w.
     Ok (TrustedEpochState w es))))"

definition verify_and_ratchet_inner ::
  "crypto \<Rightarrow> trusted_state \<Rightarrow> ledger_info_with_signatures \<Rightarrow> epoch_change_proof \<Rightarrow>
   (trusted_state_change, anyhow) result" where
  "verify_and_ratchet_inner c st latest_li epoch_change_proof =
     and_then (ensure (li_version (lis_ledger_info latest_li) \<ge> ts_version st)
       (Anyhow ''The target latest ledger info version is stale'')) (\<lambda>_.
     if lv_epoch_change_verification_required (trusted_state_verifier c st)
          (li_next_block_epoch (lis_ledger_info latest_li))
     then
       and_then (ecp_verify c epoch_change_proof (trusted_state_verifier c st)) (\<lambda>epoch_change_li.
       and_then (ok_or (li_next_epoch_state (lis_ledger_info epoch_change_li))
         (Anyhow ''A valid EpochChangeProof will never return a non-epoch change ledger info'')) (\<lambda>new_epoch_state.
       and_then
         (if epoch_change_li = latest_li then Ok latest_li
          else if li_epoch (lis_ledger_info latest_li) = es_epoch new_epoch_state
          then and_then (epoch_state_verify c new_epoch_state latest_li) (\<lambda>_. Ok latest_li)
          else if li_epoch (lis_ledger_info latest_li) > es_epoch new_epoch_state \<and> ecp_more epoch_change_proof
          then Ok epoch_change_li
          else Err (Anyhow ''Inconsistent epoch change proof and latest ledger info'')) (\<lambda>verified_ledger_info.
       and_then (waypoint_new_any c (lis_ledger_info verified_ledger_info)) (\<lambda>new_waypoint.
       Ok (EpochChange (TrustedEpochState new_waypoint new_epoch_state) epoch_change_li)))))
     else
       (case st of
          EpochWaypoint _ \<Rightarrow> Err (Anyhow ''EpochWaypoint can only verify an epoch change ledger info'')
        | TrustedEpochState curr_waypoint curr_epoch_state \<Rightarrow>
            and_then (waypoint_new_any c (lis_ledger_info latest_li)) (\<lambda>new_waypoint.
            if wp_version new_waypoint = wp_version curr_waypoint
            then and_then (ensure (new_waypoint = curr_waypoint) (Anyhow ''LedgerInfo doesn't match verified state''))
                   (\<lambda>_. Ok NoChange)
            else and_then (epoch_state_verify c curr_epoch_state latest_li) (\<lambda>_.
                 Ok (VersionChange (TrustedEpochState new_waypoint curr_epoch_state))))))"

definition new_state :: "trusted_state_change \<Rightarrow> trusted_state option" where
  "new_state ch =
     (case ch of VersionChange st \<Rightarrow> Some st | EpochChange st _ \<Rightarrow> Some st | NoChange \<Rightarrow> None)"

record state_proof =
  sp_latest_li_w_sigs :: ledger_info_with_signatures
  sp_epoch_changes :: epoch_change_proof

definition verify_and_ratchet ::
  "crypto \<Rightarrow> trusted_state \<Rightarrow> state_proof \<Rightarrow> (trusted_state_change, anyhow) result" where
  "verify_and_ratchet c st p = verify_and_ratchet_inner c st (sp_latest_li_w_sigs p) (sp_epoch_changes p)"

section \<open>The contract of a verifier\<close>

text \<open>
  A verifier never accepts what it calls stale. Then the ledger infos an accepted proof skips are
  exactly those it need not look at, and the one it starts with is fresh.
\<close>

locale ledger_verifier_laws =
  fixes v :: ledger_verifier
  assumes verified_not_stale: "lv_verify v l = Ok () \<Longrightarrow> \<not> lv_is_ledger_info_stale v (lis_ledger_info l)"
begin

lemma verified_prefix_not_skipped:
  "lv_verify v l = Ok () \<Longrightarrow>
   dropWhile (\<lambda>l. lv_is_ledger_info_stale v (lis_ledger_info l)) (l # ls) = l # ls"
  using verified_not_stale by simp

end

interpretation wv: ledger_verifier_laws "waypoint_verifier c w"
  by unfold_locales (auto simp: waypoint_verifier_def waypoint_verify_def result_simps)

interpretation ev: ledger_verifier_laws "epoch_state_verifier c es"
  by unfold_locales (auto simp: epoch_state_verifier_def epoch_state_verify_def result_simps)

interpretation tv: ledger_verifier_laws "trusted_state_verifier c st"
proof (cases st)
  case (EpochWaypoint w)
  then show "ledger_verifier_laws (trusted_state_verifier c st)"
    by (simp add: trusted_state_verifier_def wv.ledger_verifier_laws_axioms)
next
  case (TrustedEpochState w es)
  then show "ledger_verifier_laws (trusted_state_verifier c st)"
    by (simp add: trusted_state_verifier_def ev.ledger_verifier_laws_axioms)
qed

section \<open>Chains of epochs\<close>

text \<open>One epoch hands over to the next by a ledger info its validators certified.\<close>

definition handover :: "crypto \<Rightarrow> epoch_state \<Rightarrow> epoch_state \<Rightarrow> bool" where
  "handover c es es' \<longleftrightarrow>
     (\<exists>l. epoch_state_verify c es l = Ok () \<and> li_next_epoch_state (lis_ledger_info l) = Some es')"

fun epoch_chain :: "crypto \<Rightarrow> epoch_state \<Rightarrow> ledger_info_with_signatures list \<Rightarrow> bool" where
  "epoch_chain c es [] \<longleftrightarrow> True"
| "epoch_chain c es (l # ls) \<longleftrightarrow>
     epoch_state_verify c es l = Ok () \<and>
     (case li_next_epoch_state (lis_ledger_info l) of None \<Rightarrow> False | Some es' \<Rightarrow> epoch_chain c es' ls)"

text \<open>The epoch state at the end of a chain.\<close>

fun chain_end :: "epoch_state \<Rightarrow> ledger_info_with_signatures list \<Rightarrow> epoch_state" where
  "chain_end es [] = es"
| "chain_end es (l # ls) =
     chain_end (case li_next_epoch_state (lis_ledger_info l) of None \<Rightarrow> es | Some es' \<Rightarrow> es') ls"

lemma ecp_link_eq_Ok:
  "ecp_link c v l = Ok v' \<longleftrightarrow>
   lv_verify v l = Ok () \<and>
   (\<exists>es. li_next_epoch_state (lis_ledger_info l) = Some es \<and> v' = epoch_state_verifier c es)"
  by (auto simp: ecp_link_def result_simps)

lemma for_each_ecp_link:
  "(\<exists>v'. for_each (ecp_link c) (epoch_state_verifier c es) ls = Ok v') \<longleftrightarrow> epoch_chain c es ls"
proof (induction ls arbitrary: es)
  case (Cons l ls)
  have "lv_verify (epoch_state_verifier c es) = epoch_state_verify c es"
    by (simp add: epoch_state_verifier_def)
  then show ?case using Cons.IH
    by (auto simp: result_simps ecp_link_eq_Ok split: option.split)
qed simp

lemma epoch_chain_handover: "epoch_chain c es ls \<Longrightarrow> (handover c)\<^sup>*\<^sup>* es (chain_end es ls)"
proof (induction ls arbitrary: es)
  case (Cons l ls)
  then obtain es' where es': "li_next_epoch_state (lis_ledger_info l) = Some es'"
    and "epoch_state_verify c es l = Ok ()" "epoch_chain c es' ls"
    by (auto split: option.splits)
  moreover from this have "handover c es es'" by (auto simp: handover_def)
  ultimately have "handover c es es'" "(handover c)\<^sup>*\<^sup>* es' (chain_end es' ls)"
    using Cons.IH by blast+
  then show ?case using es' by (simp add: converse_rtranclp_into_rtranclp)
qed simp

lemma chain_end_last:
  "ls \<noteq> [] \<Longrightarrow> epoch_chain c es ls \<Longrightarrow> li_next_epoch_state (lis_ledger_info (last ls)) = Some (chain_end es ls)"
proof (induction ls arbitrary: es)
  case (Cons l ls)
  then show ?case by (cases ls) (auto split: option.splits)
qed simp

text \<open>
  The accepted proofs: a prefix of stale entries, then one entry the given verifier accepts, then a
  chain of epochs from the validator set that entry installs.
\<close>

definition ecp_accepted ::
  "crypto \<Rightarrow> ledger_verifier \<Rightarrow> ledger_info_with_signatures list \<Rightarrow> bool" where
  "ecp_accepted c v lis \<longleftrightarrow>
     (\<exists>old l es ls. lis = old @ l # ls \<and> (\<forall>k \<in> set old. lv_is_ledger_info_stale v (lis_ledger_info k)) \<and>
        \<not> lv_is_ledger_info_stale v (lis_ledger_info l) \<and> lv_verify v l = Ok () \<and>
        li_next_epoch_state (lis_ledger_info l) = Some es \<and> epoch_chain c es ls \<and>
        \<not> lv_is_ledger_info_stale v (lis_ledger_info (last lis)))"

lemma ecp_verify_iff:
  "ecp_verify c p v = Ok li \<longleftrightarrow>
   ecp_accepted c v (ecp_ledger_info_with_sigs p) \<and> li = last (ecp_ledger_info_with_sigs p)"
  (is "?l \<longleftrightarrow> ?r")
proof -
  let ?lis = "ecp_ledger_info_with_sigs p"
  let ?st = "\<lambda>l. lv_is_ledger_info_stale v (lis_ledger_info l)"
  have loop: "(\<exists>v'. for_each (ecp_link c) v (l # ls) = Ok v') \<longleftrightarrow>
      lv_verify v l = Ok () \<and>
      (\<exists>es. li_next_epoch_state (lis_ledger_info l) = Some es \<and> epoch_chain c es ls)" for l ls
    by (auto simp: result_simps ecp_link_eq_Ok for_each_ecp_link [symmetric])
  have "?l \<longleftrightarrow> ?lis \<noteq> [] \<and> \<not> ?st (last ?lis) \<and>
      (\<exists>v'. for_each (ecp_link c) v (dropWhile ?st ?lis) = Ok v') \<and> li = last ?lis"
    by (auto simp: ecp_verify_def Let_def result_simps)
  also have "\<dots> \<longleftrightarrow> ?r"
  proof
    assume a: "?lis \<noteq> [] \<and> \<not> ?st (last ?lis) \<and>
      (\<exists>v'. for_each (ecp_link c) v (dropWhile ?st ?lis) = Ok v') \<and> li = last ?lis"
    then have "dropWhile ?st ?lis \<noteq> []" by (metis dropWhile_eq_Nil_conv last_in_set)
    then obtain l ls where d: "dropWhile ?st ?lis = l # ls" by (cases "dropWhile ?st ?lis") auto
    then have split: "?lis = takeWhile ?st ?lis @ l # ls" by (metis takeWhile_dropWhile_id)
    have "\<not> ?st l" using d by (metis dropWhile_eq_Cons_conv)
    then show ?r using a split loop [of l ls] d set_takeWhileD [of _ ?st ?lis]
      unfolding ecp_accepted_def by (metis (no_types, lifting))
  next
    assume ?r
    then obtain old l es ls where s: "?lis = old @ l # ls" "\<forall>k \<in> set old. ?st k" "\<not> ?st l"
      "lv_verify v l = Ok ()" "li_next_epoch_state (lis_ledger_info l) = Some es" "epoch_chain c es ls"
      "\<not> ?st (last ?lis)" "li = last ?lis"
      unfolding ecp_accepted_def by blast
    then have "dropWhile ?st ?lis = l # ls" by (simp add: dropWhile_append2)
    then show "?lis \<noteq> [] \<and> \<not> ?st (last ?lis) \<and>
      (\<exists>v'. for_each (ecp_link c) v (dropWhile ?st ?lis) = Ok v') \<and> li = last ?lis"
      using s loop [of l ls] by (metis append_is_Nil_conv list.discI)
  qed
  finally show ?thesis .
qed


lemma epoch_chain_last_link:
  "ls \<noteq> [] \<Longrightarrow> epoch_chain c es ls \<Longrightarrow>
   \<exists>es'. (handover c)\<^sup>*\<^sup>* es es' \<and> epoch_state_verify c es' (last ls) = Ok ()"
proof (induction ls arbitrary: es)
  case (Cons l ls)
  then obtain es' where es': "li_next_epoch_state (lis_ledger_info l) = Some es'"
    and v: "epoch_state_verify c es l = Ok ()" and ch: "epoch_chain c es' ls"
    by (auto split: option.splits)
  show ?case
  proof (cases "ls = []")
    case True
    then show ?thesis using v by auto
  next
    case False
    then obtain e where e: "(handover c)\<^sup>*\<^sup>* es' e" "epoch_state_verify c e (last ls) = Ok ()"
      using Cons.IH ch by blast
    have "handover c es es'" using v es' by (auto simp: handover_def)
    then have "(handover c)\<^sup>*\<^sup>* es e" using e(1) by (rule converse_rtranclp_into_rtranclp)
    then show ?thesis using e(2) False by auto
  qed
qed simp

text \<open>
  The epochs and the ledger infos a trusted state vouches for: those reached by handovers from its
  validator set, or from the validator set of the ledger info its waypoint names.
\<close>

fun trusted_epoch :: "crypto \<Rightarrow> trusted_state \<Rightarrow> epoch_state \<Rightarrow> bool" where
  "trusted_epoch c (TrustedEpochState w es) es' \<longleftrightarrow> (handover c)\<^sup>*\<^sup>* es es'"
| "trusted_epoch c (EpochWaypoint w) es' \<longleftrightarrow>
     (\<exists>li es. waypoint_verify c w li = Ok () \<and> li_next_epoch_state li = Some es \<and> (handover c)\<^sup>*\<^sup>* es es')"

definition trusted_ledger_info :: "crypto \<Rightarrow> trusted_state \<Rightarrow> ledger_info_with_signatures \<Rightarrow> bool" where
  "trusted_ledger_info c st l \<longleftrightarrow>
     (\<exists>es. trusted_epoch c st es \<and> epoch_state_verify c es l = Ok ()) \<or>
     (\<exists>w. st = EpochWaypoint w \<and> waypoint_verify c w (lis_ledger_info l) = Ok ())"

lemma trusted_epoch_handover:
  "trusted_epoch c st es \<Longrightarrow> (handover c)\<^sup>*\<^sup>* es es' \<Longrightarrow> trusted_epoch c st es'"
  by (cases st) (auto intro: rtranclp_trans)

lemma verified_trusted:
  assumes v: "lv_verify (trusted_state_verifier c st) l = Ok ()"
  shows "trusted_ledger_info c st l"
    and "li_next_epoch_state (lis_ledger_info l) = Some es \<Longrightarrow> trusted_epoch c st es"
proof -
  have "trusted_ledger_info c st l \<and>
    (li_next_epoch_state (lis_ledger_info l) = Some es \<longrightarrow> trusted_epoch c st es)"
  proof (cases st)
    case (EpochWaypoint w)
    then have "waypoint_verify c w (lis_ledger_info l) = Ok ()"
      using v by (simp add: trusted_state_verifier_def waypoint_verifier_def)
    then show ?thesis unfolding EpochWaypoint trusted_ledger_info_def by auto
  next
    case (TrustedEpochState w es0)
    then have v0: "epoch_state_verify c es0 l = Ok ()"
      using v by (simp add: trusted_state_verifier_def epoch_state_verifier_def)
    have "(handover c)\<^sup>*\<^sup>* es0 es" if "li_next_epoch_state (lis_ledger_info l) = Some es"
      using v0 that by (intro r_into_rtranclp) (auto simp: handover_def)
    then show ?thesis using v0 unfolding TrustedEpochState trusted_ledger_info_def by auto
  qed
  then show "trusted_ledger_info c st l"
    and "li_next_epoch_state (lis_ledger_info l) = Some es \<Longrightarrow> trusted_epoch c st es" by blast+
qed

lemma ecp_accepted_trusted:
  assumes "ecp_accepted c (trusted_state_verifier c st) lis"
  shows "trusted_ledger_info c st (last lis)"
    and "\<exists>es. li_next_epoch_state (lis_ledger_info (last lis)) = Some es \<and> trusted_epoch c st es"
proof -
  from assms obtain old l es ls where lis: "lis = old @ l # ls"
    and v: "lv_verify (trusted_state_verifier c st) l = Ok ()"
    and es: "li_next_epoch_state (lis_ledger_info l) = Some es" and ch: "epoch_chain c es ls"
    unfolding ecp_accepted_def by blast
  have te: "trusted_epoch c st es" using verified_trusted(2) [OF v es] .
  show "trusted_ledger_info c st (last lis)"
  proof (cases "ls = []")
    case True
    then show ?thesis using lis verified_trusted(1) [OF v] by simp
  next
    case False
    then obtain e where "(handover c)\<^sup>*\<^sup>* es e" "epoch_state_verify c e (last ls) = Ok ()"
      using epoch_chain_last_link ch by blast
    then show ?thesis using lis False te trusted_epoch_handover by (auto simp: trusted_ledger_info_def)
  qed
  show "\<exists>es. li_next_epoch_state (lis_ledger_info (last lis)) = Some es \<and> trusted_epoch c st es"
  proof (cases "ls = []")
    case True
    then show ?thesis using lis es te by simp
  next
    case False
    then show ?thesis
      using lis chain_end_last [OF False ch] epoch_chain_handover [OF ch] te trusted_epoch_handover by auto
  qed
qed

lemma waypoint_new_any_version: "waypoint_new_any c li = Ok w \<Longrightarrow> wp_version w = li_version li"
  by (auto simp: waypoint_new_any_def result_simps)

section \<open>Properties\<close>

text \<open>
  C27. \<^verbatim>\<open>EpochChangeProof::verify\<close> accepts exactly the proofs that consist of entries the trusted state
  already covers, an entry it verifies, and a chain in which every entry is certified by the
  validators its predecessor installed. It returns the last entry, which installs validators too.
\<close>

theorem epoch_change_proof_accepted:
  "ecp_verify c p (trusted_state_verifier c st) = Ok li \<longleftrightarrow>
   ecp_accepted c (trusted_state_verifier c st) (ecp_ledger_info_with_sigs p) \<and>
   li = last (ecp_ledger_info_with_sigs p) \<and> li_next_epoch_state (lis_ledger_info li) \<noteq> None"
  using ecp_verify_iff [of c p "trusted_state_verifier c st" li]
    ecp_accepted_trusted(2) [of c st "ecp_ledger_info_with_sigs p"] by auto

text \<open>
  C26. A light client only ever moves to a state it can trust: the validators of its new epoch are
  reached from its old state by handovers that the validators of each epoch certified, its new
  waypoint commits to a ledger info that one of these epochs certified, and its version does not
  decrease unless the server said that more epoch changes follow.
\<close>

theorem trusted_state_ratchet_sound:
  assumes "verify_and_ratchet c st p = Ok ch" and "new_state ch = Some st'"
  shows "\<exists>w es l. st' = TrustedEpochState w es \<and> trusted_epoch c st es \<and> trusted_ledger_info c st l \<and>
    waypoint_new_any c (lis_ledger_info l) = (Ok w :: (waypoint, anyhow) result) \<and>
    (l = sp_latest_li_w_sigs p \<and> ts_version st \<le> ts_version st' \<or>
     l = last (ecp_ledger_info_with_sigs (sp_epoch_changes p)) \<and> ecp_more (sp_epoch_changes p))"
proof -
  let ?l = "sp_latest_li_w_sigs p" and ?e = "sp_epoch_changes p"
  let ?v = "trusted_state_verifier c st"
  have vers: "ts_version st \<le> li_version (lis_ledger_info ?l)"
    using assms(1) by (auto simp: verify_and_ratchet_def verify_and_ratchet_inner_def result_simps)
  show ?thesis
  proof (cases "lv_epoch_change_verification_required ?v (li_next_block_epoch (lis_ledger_info ?l))")
    case True
    with assms obtain cli es vli w where cli: "ecp_verify c ?e ?v = Ok cli"
      and es: "li_next_epoch_state (lis_ledger_info cli) = Some es"
      and vli: "vli = ?l \<and> (cli = ?l \<or> epoch_state_verify c es ?l = Ok ()) \<or> vli = cli \<and> ecp_more ?e"
      and w: "waypoint_new_any c (lis_ledger_info vli) = (Ok w :: (waypoint, anyhow) result)"
      and ch: "ch = EpochChange (TrustedEpochState w es) cli"
      by (auto simp: verify_and_ratchet_def verify_and_ratchet_inner_def result_simps split: if_splits)
    from cli have acc: "ecp_accepted c ?v (ecp_ledger_info_with_sigs ?e)"
      and last: "cli = last (ecp_ledger_info_with_sigs ?e)" by (simp_all add: ecp_verify_iff)
    have te: "trusted_epoch c st es" using ecp_accepted_trusted(2) [OF acc] es last by auto
    have "trusted_ledger_info c st vli"
      using vli te ecp_accepted_trusted(1) [OF acc] last by (auto simp: trusted_ledger_info_def)
    moreover have "st' = TrustedEpochState w es" using assms(2) ch by (simp add: new_state_def)
    ultimately show ?thesis
      using te w vli last vers waypoint_new_any_version [OF w] by (auto simp: ts_version_def)
  next
    case False
    with assms obtain w0 es w where st: "st = TrustedEpochState w0 es"
      and w: "waypoint_new_any c (lis_ledger_info ?l) = (Ok w :: (waypoint, anyhow) result)"
      and v: "epoch_state_verify c es ?l = Ok ()" and ch: "ch = VersionChange (TrustedEpochState w es)"
      by (auto simp: verify_and_ratchet_def verify_and_ratchet_inner_def result_simps new_state_def
          split: trusted_state.splits if_splits)
    have te: "trusted_epoch c st es" by (simp add: st)
    then have "trusted_ledger_info c st ?l" using v by (auto simp: trusted_ledger_info_def)
    moreover have "st' = TrustedEpochState w es" using assms(2) ch by (simp add: new_state_def)
    moreover have "ts_version st \<le> ts_version (TrustedEpochState w es)"
      using vers waypoint_new_any_version [OF w] by (simp add: ts_version_def)
    ultimately show ?thesis using te w by blast
  qed
qed

text \<open>A client in epoch 1 with the sample validators learns of a later version of that epoch.\<close>

definition sample_ledger_info :: "u64 \<Rightarrow> u64 \<Rightarrow> version \<Rightarrow> epoch_state option \<Rightarrow> ledger_info" where
  "sample_ledger_info epoch rnd vers next =
     \<lparr>commit_info = \<lparr>bi_epoch = epoch, bi_round = rnd, bi_id = 5, bi_executed_state_id = 6, bi_version = vers,
        bi_timestamp_usecs = 7, bi_next_epoch_state = next\<rparr>,
      consensus_data_hash = 8\<rparr>"

definition sample_signed :: "ledger_info \<Rightarrow> ledger_info_with_signatures" where
  "sample_signed li =
     \<lparr>lis_ledger_info = li, lis_signatures = sample_cert (msg_ledger_info li) [1, 2, 3]\<rparr>"

definition sample_epoch_state :: "u64 \<Rightarrow> epoch_state" where
  "sample_epoch_state epoch = \<lparr>es_epoch = epoch, es_verifier = sample_verifier\<rparr>"

lemma sample_signed_verifies:
  "li_epoch li = epoch \<Longrightarrow> epoch_state_verify sample_crypto (sample_epoch_state epoch) (sample_signed li) = Ok ()"
  by (simp add: epoch_state_verify_def sample_epoch_state_def sample_signed_def lis_verify_signatures_def
      sample_cert_ok ensure_def)

lemma sample_waypoint: "\<exists>w. waypoint_new_any sample_crypto li = Ok w \<and> wp_version w = li_version li"
  by (simp add: waypoint_new_any_def crypto_hash_def sample_crypto_def expect_def)

theorem trusted_state_ratchet_sound_witness:
  "\<exists>w es l. trusted_epoch sample_crypto (TrustedEpochState \<lparr>wp_version = 3, wp_value = 0\<rparr> (sample_epoch_state 1)) es \<and>
    trusted_ledger_info sample_crypto (TrustedEpochState \<lparr>wp_version = 3, wp_value = 0\<rparr> (sample_epoch_state 1)) l \<and>
    waypoint_new_any sample_crypto (lis_ledger_info l) = (Ok w :: (waypoint, anyhow) result)"
proof -
  let ?st = "TrustedEpochState \<lparr>wp_version = 3, wp_value = 0\<rparr> (sample_epoch_state 1)"
  let ?li = "sample_ledger_info 1 9 4 None"
  let ?p = "\<lparr>sp_latest_li_w_sigs = sample_signed ?li,
     sp_epoch_changes = \<lparr>ecp_ledger_info_with_sigs = [], ecp_more = False\<rparr>\<rparr>"
  have e: "li_epoch ?li = 1" and v: "li_version ?li = 4" and n: "li_next_block_epoch ?li = 1"
    by (simp_all add: sample_ledger_info_def li_epoch_def li_version_def li_next_block_epoch_def next_block_epoch_def)
  obtain w where w: "waypoint_new_any sample_crypto ?li = (Ok w :: (waypoint, anyhow) result)" "wp_version w = 4"
    using sample_waypoint [of ?li] v by (auto simp: waypoint_new_any_def crypto_hash_def sample_crypto_def expect_def)
  have "verify_and_ratchet sample_crypto ?st ?p =
      Ok (VersionChange (TrustedEpochState w (sample_epoch_state 1)))"
    using e v n w sample_signed_verifies [OF e]
    by (simp add: verify_and_ratchet_def verify_and_ratchet_inner_def trusted_state_verifier_def
        epoch_state_verifier_def ts_version_def ensure_def sample_epoch_state_def sample_signed_def)
  from trusted_state_ratchet_sound [OF this] show ?thesis by (auto simp: new_state_def)
qed

text \<open>
  C36. The text of a waypoint is read back to the same waypoint, given that the decoder of hexadecimal
  digits reads back the digits of the waypoint's hash.
\<close>

theorem waypoint_text_roundtrip:
  assumes "hex_decode (to_hex (wp_value w)) = Some (hv_bytes (wp_value w))"
  shows "waypoint_from_str hex_decode (waypoint_to_string w) = Ok w"
proof -
  have "WAYPOINT_DELIMITER \<notin> set (u64_to_string (wp_version w))"
    using set_nat_to_dec [of WAYPOINT_DELIMITER] by (auto simp: u64_to_string_def WAYPOINT_DELIMITER_def)
  moreover have "WAYPOINT_DELIMITER \<notin> set (to_hex (wp_value w))"
    using set_to_hex [of WAYPOINT_DELIMITER "wp_value w"] by (auto simp: WAYPOINT_DELIMITER_def)
  ultimately show ?thesis
    using assms
    by (simp add: waypoint_from_str_def waypoint_to_string_def split_on_append split_on_plain from_hex_def
        ok_or_def)
qed

definition hex_value :: "char \<Rightarrow> nat" where
  "hex_value ch = (let n = of_char ch :: nat in if n \<le> 57 then n - 48 else n - 87)"

fun sample_hex_decode :: "string \<Rightarrow> u8 list option" where
  "sample_hex_decode [] = Some []"
| "sample_hex_decode (a # b # s) =
     map_option (\<lambda>bs. of_nat (16 * hex_value a + hex_value b) # bs) (sample_hex_decode s)"
| "sample_hex_decode [a] = None"

lemma hex_value_hex_char [simp]: "d < 16 \<Longrightarrow> hex_value (hex_char d) = d"
  by (simp add: hex_value_def of_char_hex_char)

lemma sample_hex_decode_bytes: "sample_hex_decode (concat (map byte_to_hex bs)) = Some bs"
proof (induction bs)
  case (Cons b bs)
  have "unat b div 16 < 16" using unat_lt_2p [of b] by simp
  then show ?case using Cons by (simp add: byte_to_hex_def)
qed simp

theorem waypoint_text_roundtrip_witness:
  "waypoint_from_str sample_hex_decode (waypoint_to_string \<lparr>wp_version = 255, wp_value = 0xab\<rparr>) =
   Ok \<lparr>wp_version = 255, wp_value = 0xab\<rparr>"
  by (rule waypoint_text_roundtrip) (simp add: to_hex_def sample_hex_decode_bytes)

end
