(* ===== verification/Safety_Storage.thy ===== *)
theory Safety_Storage
  imports Consensus_Msgs Epoch_Change
begin

text \<open>
  Where a validator keeps what it must not forget: the key/value storage of
  \<^verbatim>\<open>secure/storage/src/{kv_storage, in_memory}.rs\<close>, the errors of \<^verbatim>\<open>consensus/safety-rules/src/error.rs\<close>
  and the cache in front of it, \<^verbatim>\<open>persistent_safety_storage.rs\<close>.

  A backend may fail at any access. The field \<open>kv_faults\<close> lists the outcomes of the coming accesses:
  an access takes the head of the list, and a write that is reported as failed may or may not have
  reached the backend. With no entry left an access succeeds. A stored value is kept
  as the value that was written; its JSON text is \<open>json_of\<close>, and reading decodes that text at the type the caller
  asks for.
\<close>

section \<open>Secure storage\<close>

datatype secure_storage_error =
    EntropyError
  | InternalStorageError
  | KeyAlreadyExists string
  | KeyNotSet string
  | PermissionDenied
  | StorageSerializationError
  | KeyVersionNotFound string string

section \<open>Errors of safety rules\<close>

datatype safety_error =
    IncorrectEpoch u64 u64
  | IncorrectRound u64
  | IncorrectLastVotedRound u64 u64
  | IncorrectPreferredRound u64 u64
  | InvalidAccumulatorExtension anyhow
  | InvalidEpochChangeProof anyhow
  | InternalError anyhow
  | InvalidLedgerInfo
  | InvalidProposal anyhow
  | InvalidQuorumCertificate anyhow
  | NotInitialized string
  | SecureStorageMissingDataError "secure_storage_error option"
  | SecureStorageUnexpectedError secure_storage_error
  | SerializationError crypto_material_error
  | ValidatorKeyNotFound "secure_storage_error option"
  | ValidatorNotInSet author
  | VoteProposalSignatureNotFound
  | NotSafeToVote u64 u64 u64 u64
  | NotSafeToTimeout u64 u64 u64 u64
  | InvalidTimeoutCertificate anyhow
  | InconsistentExecutionResult block_info block_info
  | InvalidOrderedLedgerInfo ledger_info
  | WaypointOutOfDate u64 u64 u64 u64
  | InvalidTimeout anyhow

section \<open>Stored values\<close>

datatype stored_value =
    StoredKey bls_private_key
  | StoredAuthor author
  | StoredSafetyData safety_data
  | StoredWaypoint waypoint

datatype fault = Fault secure_storage_error bool

record kv_storage =
  kv_data :: "string \<rightharpoonup> stored_value"
  kv_faults :: "fault option list"

definition next_fault :: "kv_storage \<Rightarrow> fault option" where
  "next_fault st = (case kv_faults st of [] \<Rightarrow> None | f # _ \<Rightarrow> f)"

definition drop_fault :: "kv_storage \<Rightarrow> kv_storage" where
  "drop_fault st = st\<lparr>kv_faults := tl (kv_faults st)\<rparr>"

definition kv_get :: "string \<Rightarrow> (kv_storage, stored_value, secure_storage_error) handler" where
  "kv_get key st =
     (case next_fault st of
        Some (Fault e _) \<Rightarrow> (Err e, drop_fault st)
      | None \<Rightarrow> (ok_or (kv_data st key) (KeyNotSet key), drop_fault st))"

definition kv_set :: "string \<Rightarrow> stored_value \<Rightarrow> (kv_storage, unit, secure_storage_error) handler" where
  "kv_set key val st =
     (let written = (drop_fault st)\<lparr>kv_data := (kv_data st)(key \<mapsto> val)\<rparr> in
      case next_fault st of
        Some (Fault e reached) \<Rightarrow> (Err e, if reached then written else drop_fault st)
      | None \<Rightarrow> (Ok (), written))"

text \<open>
  Reading at a type. A value is stored as its JSON text and read back at the type the caller expects.
  The derived encodings of serde are written out as far as the storage depends on them: numbers, null,
  options, structs (objects of their fields) and \<^verbatim>\<open>Result\<close> (an object with the single field \<^verbatim>\<open>Ok\<close> or
  \<^verbatim>\<open>Err\<close>). The texts of a key, an account, a waypoint, a vote and an error are taken whole.
\<close>

datatype json =
    JNull
  | JNumber u64
  | JObject "(string \<times> json) list"
  | JKey bls_private_key
  | JAuthor author
  | JWaypoint waypoint
  | JVote vote
  | JError safety_error

type_synonym 'a json_reader = "json \<Rightarrow> ('a, secure_storage_error) result"

fun encode_option :: "('a \<Rightarrow> json) \<Rightarrow> 'a option \<Rightarrow> json" where
  "encode_option enc None = JNull"
| "encode_option enc (Some a) = enc a"

definition encode_safety_data :: "safety_data \<Rightarrow> json" where
  "encode_safety_data d =
     JObject
       [(''epoch'', JNumber (sfd_epoch d)),
        (''last_voted_round'', JNumber (last_voted_round d)),
        (''preferred_round'', JNumber (preferred_round d)),
        (''one_chain_round'', JNumber (one_chain_round d)),
        (''last_vote'', encode_option JVote (last_vote d))]"

fun json_of :: "stored_value \<Rightarrow> json" where
  "json_of (StoredKey k) = JKey k"
| "json_of (StoredAuthor a) = JAuthor a"
| "json_of (StoredSafetyData d) = encode_safety_data d"
| "json_of (StoredWaypoint w) = JWaypoint w"

fun decode_u64 :: "u64 json_reader" where
  "decode_u64 (JNumber n) = Ok n"
| "decode_u64 _ = Err StorageSerializationError"

fun decode_vote :: "vote json_reader" where
  "decode_vote (JVote v) = Ok v"
| "decode_vote _ = Err StorageSerializationError"

fun decode_error :: "safety_error json_reader" where
  "decode_error (JError e) = Ok e"
| "decode_error _ = Err StorageSerializationError"

fun decode_option :: "'a json_reader \<Rightarrow> 'a option json_reader" where
  "decode_option dec JNull = Ok None"
| "decode_option dec j = map_ok Some (dec j)"

text \<open>A field of a struct, with the result of a missing one.\<close>

definition decode_field ::
  "'a json_reader \<Rightarrow> ('a, secure_storage_error) result \<Rightarrow> (string \<times> json) list \<Rightarrow> string \<Rightarrow>
   ('a, secure_storage_error) result" where
  "decode_field dec missing obj name =
     (case map_of obj name of None \<Rightarrow> missing | Some j \<Rightarrow> dec j)"

text \<open>
  The derived reader of \<^verbatim>\<open>SafetyData\<close>: fields in any order, unknown ones skipped, none of its own twice;
  \<^verbatim>\<open>one_chain_round\<close> has the attribute \<^verbatim>\<open>serde(default)\<close>, and a missing option is \<^verbatim>\<open>None\<close>.
\<close>

definition safety_data_fields :: "string list" where
  "safety_data_fields = [''epoch'', ''last_voted_round'', ''preferred_round'', ''one_chain_round'', ''last_vote'']"

fun decode_safety_data :: "safety_data json_reader" where
  "decode_safety_data (JObject obj) =
     (if \<not> distinct (filter (\<lambda>name. name \<in> set safety_data_fields) (map fst obj))
      then Err StorageSerializationError
      else
        and_then (decode_field decode_u64 (Err StorageSerializationError) obj ''epoch'') (\<lambda>e.
        and_then (decode_field decode_u64 (Err StorageSerializationError) obj ''last_voted_round'') (\<lambda>lvr.
        and_then (decode_field decode_u64 (Err StorageSerializationError) obj ''preferred_round'') (\<lambda>pr.
        and_then (decode_field decode_u64 (Ok 0) obj ''one_chain_round'') (\<lambda>ocr.
        and_then (decode_field (decode_option decode_vote) (Ok None) obj ''last_vote'') (\<lambda>lv.
        Ok (safety_data_new e lvr pr ocr lv)))))))"
| "decode_safety_data _ = Err StorageSerializationError"

text \<open>The reader of \<^verbatim>\<open>Result<T, E>\<close>: an enum of two variants, tagged by the one field of an object.\<close>

fun decode_result :: "'a json_reader \<Rightarrow> 'e json_reader \<Rightarrow> ('a, 'e) result json_reader" where
  "decode_result dec_ok dec_err (JObject [(tag, j)]) =
     (if tag = ''Ok'' then map_ok Ok (dec_ok j)
      else if tag = ''Err'' then map_ok Err (dec_err j)
      else Err StorageSerializationError)"
| "decode_result dec_ok dec_err _ = Err StorageSerializationError"

definition as_key :: "stored_value \<Rightarrow> (bls_private_key, secure_storage_error) result" where
  "as_key v = (case json_of v of JKey k \<Rightarrow> Ok k | _ \<Rightarrow> Err StorageSerializationError)"

definition as_author :: "stored_value \<Rightarrow> (author, secure_storage_error) result" where
  "as_author v = (case json_of v of JAuthor a \<Rightarrow> Ok a | _ \<Rightarrow> Err StorageSerializationError)"

definition as_safety_data :: "stored_value \<Rightarrow> (safety_data, secure_storage_error) result" where
  "as_safety_data v = decode_safety_data (json_of v)"

definition as_waypoint :: "stored_value \<Rightarrow> (waypoint, secure_storage_error) result" where
  "as_waypoint v = (case json_of v of JWaypoint w \<Rightarrow> Ok w | _ \<Rightarrow> Err StorageSerializationError)"

definition kv_get_as ::
  "(stored_value \<Rightarrow> ('a, secure_storage_error) result) \<Rightarrow> string \<Rightarrow> (kv_storage, 'a, secure_storage_error) handler" where
  "kv_get_as typed key = bind_h (kv_get key) (\<lambda>v. lift_h (\<lambda>_. typed v))"

section \<open>Conversion of storage errors\<close>

text \<open>\<^verbatim>\<open>impl From<aptos_secure_storage::Error> for Error\<close>: a lost permission is a panic.\<close>

fun from_storage_error :: "secure_storage_error \<Rightarrow> ('a, safety_error) result" where
  "from_storage_error PermissionDenied = Panic"
| "from_storage_error (KeyVersionNotFound k v) =
     Err (SecureStorageMissingDataError (Some (KeyVersionNotFound k v)))"
| "from_storage_error (KeyNotSet k) = Err (SecureStorageMissingDataError (Some (KeyNotSet k)))"
| "from_storage_error e = Err (SecureStorageUnexpectedError e)"

section \<open>Persistent safety storage\<close>

definition CONSENSUS_KEY :: string where "CONSENSUS_KEY = ''consensus''"
definition OWNER_ACCOUNT :: string where "OWNER_ACCOUNT = ''owner_account''"
definition SAFETY_DATA :: string where "SAFETY_DATA = ''safety_data''"
definition WAYPOINT :: string where "WAYPOINT = ''waypoint''"

record persistent_safety_storage =
  enable_cached_safety_data :: bool
  cached_safety_data :: "safety_data option"
  internal_store :: kv_storage

definition on_store :: "(kv_storage, 'a, 'e) handler \<Rightarrow> (persistent_safety_storage, 'a, 'e) handler" where
  "on_store = focus_h internal_store (\<lambda>st ps. ps\<lparr>internal_store := st\<rparr>)"

definition pss_author :: "(persistent_safety_storage, author, safety_error) handler" where
  "pss_author = convert_h from_storage_error (on_store (kv_get_as as_author OWNER_ACCOUNT))"

definition consensus_key_for_version ::
  "crypto \<Rightarrow> bls_public_key \<Rightarrow> (persistent_safety_storage, bls_private_key, safety_error) handler" where
  "consensus_key_for_version c version =
     bind_h (convert_h from_storage_error (on_store (kv_get_as as_key CONSENSUS_KEY))) (\<lambda>key.
     if sk_public_key c key \<noteq> version then throw_h (SecureStorageMissingDataError None)
     else return_h key)"

text \<open>
  The branch without the cache reads the stored text at the type \<^verbatim>\<open>Result<SafetyData, Error>\<close> (the
  \<^verbatim>\<open>?\<close> removes the outer result of the read and the function returns the inner one).
\<close>

definition as_safety_data_result ::
  "stored_value \<Rightarrow> ((safety_data, safety_error) result, secure_storage_error) result" where
  "as_safety_data_result v = decode_result decode_safety_data decode_error (json_of v)"

definition safety_data_uncached :: "(persistent_safety_storage, safety_data, safety_error) handler" where
  "safety_data_uncached =
     bind_h (convert_h from_storage_error (on_store (kv_get_as as_safety_data_result SAFETY_DATA))) (\<lambda>r.
     lift_h (\<lambda>_. r))"

definition pss_safety_data :: "(persistent_safety_storage, safety_data, safety_error) handler" where
  "pss_safety_data ps =
     (if \<not> enable_cached_safety_data ps then safety_data_uncached ps
      else case cached_safety_data ps of
        Some d \<Rightarrow> (Ok d, ps)
      | None \<Rightarrow>
          bind_h (convert_h from_storage_error (on_store (kv_get_as as_safety_data SAFETY_DATA))) (\<lambda>d.
          bind_h (modify_h (\<lambda>ps. ps\<lparr>cached_safety_data := Some d\<rparr>)) (\<lambda>_.
          return_h d)) ps)"

definition set_safety_data :: "safety_data \<Rightarrow> (persistent_safety_storage, unit, safety_error) handler" where
  "set_safety_data d ps =
     (case on_store (kv_set SAFETY_DATA (StoredSafetyData d)) ps of
        (Ok _, ps') \<Rightarrow> (Ok (), ps'\<lparr>cached_safety_data := Some d\<rparr>)
      | (Err e, ps') \<Rightarrow> (Err (SecureStorageUnexpectedError e), ps'\<lparr>cached_safety_data := None\<rparr>)
      | (Panic, ps') \<Rightarrow> (Panic, ps'))"

definition pss_waypoint :: "(persistent_safety_storage, waypoint, safety_error) handler" where
  "pss_waypoint = convert_h from_storage_error (on_store (kv_get_as as_waypoint WAYPOINT))"

definition set_waypoint :: "waypoint \<Rightarrow> (persistent_safety_storage, unit, safety_error) handler" where
  "set_waypoint w = convert_h from_storage_error (on_store (kv_set WAYPOINT (StoredWaypoint w)))"

text \<open>
  Only the error \<^verbatim>\<open>KeyAlreadyExists\<close> of the first write is looked at; after any other error the
  function goes on to the second write.
\<close>

definition initialize_keys_and_accounts ::
  "author \<Rightarrow> bls_private_key \<Rightarrow> (kv_storage, unit, safety_error) handler" where
  "initialize_keys_and_accounts author key st =
     (case kv_set CONSENSUS_KEY (StoredKey key) st of
        (Err (KeyAlreadyExists _), st') \<Rightarrow> (Ok (), st')
      | (Panic, st') \<Rightarrow> (Panic, st')
      | (_, st') \<Rightarrow> convert_h from_storage_error (kv_set OWNER_ACCOUNT (StoredAuthor author)) st')"

definition expect_h :: "('s, 'a, 'e) handler \<Rightarrow> ('s, 'a, 'f) handler" where
  "expect_h = convert_h (\<lambda>_. Panic)"

definition pss_initialize ::
  "author \<Rightarrow> bls_private_key \<Rightarrow> waypoint \<Rightarrow> bool \<Rightarrow> kv_storage \<Rightarrow>
   (unit, safety_error) result \<times> persistent_safety_storage" where
  "pss_initialize author key w enable st =
     (let d = safety_data_new 1 0 0 0 None;
          ps = \<lparr>enable_cached_safety_data = enable, cached_safety_data = Some d, internal_store = st\<rparr> in
      bind_h (expect_h (on_store (initialize_keys_and_accounts author key))) (\<lambda>_.
      bind_h (expect_h (set_safety_data d)) (\<lambda>_.
      expect_h (set_waypoint w))) ps)"

definition pss_new :: "kv_storage \<Rightarrow> bool \<Rightarrow> persistent_safety_storage" where
  "pss_new st enable = \<lparr>enable_cached_safety_data = enable, cached_safety_data = None, internal_store = st\<rparr>"

section \<open>The cache agrees with the storage\<close>

text \<open>
  What a restarted validator would read, and the invariant of the cache: when it is used, it holds
  nothing or the stored value.
\<close>

definition stored_safety_data :: "persistent_safety_storage \<Rightarrow> safety_data option" where
  "stored_safety_data ps =
     (case kv_data (internal_store ps) SAFETY_DATA of Some (StoredSafetyData d) \<Rightarrow> Some d | _ \<Rightarrow> None)"

definition coherent :: "persistent_safety_storage \<Rightarrow> bool" where
  "coherent ps \<longleftrightarrow>
     (\<forall>d. enable_cached_safety_data ps \<longrightarrow> cached_safety_data ps = Some d \<longrightarrow>
       stored_safety_data ps = Some d)"

named_theorems storage_keys \<open>the keys of the storage are distinct\<close>

lemma storage_keys_distinct [storage_keys, simp]:
  "SAFETY_DATA \<noteq> CONSENSUS_KEY" "SAFETY_DATA \<noteq> OWNER_ACCOUNT" "SAFETY_DATA \<noteq> WAYPOINT"
  "CONSENSUS_KEY \<noteq> SAFETY_DATA" "OWNER_ACCOUNT \<noteq> SAFETY_DATA" "WAYPOINT \<noteq> SAFETY_DATA"
  by (simp_all add: SAFETY_DATA_def CONSENSUS_KEY_def OWNER_ACCOUNT_def WAYPOINT_def)

lemma from_storage_error_neq_Ok [simp]: "from_storage_error e \<noteq> Ok a"
  by (cases e) auto

lemmas convert_storage_eq_Ok = convert_h_eq_Ok [where f = from_storage_error, simplified]

lemma drop_fault_data [simp]: "kv_data (drop_fault st) = kv_data st"
  by (simp add: drop_fault_def)

lemma kv_get_data: "kv_data (snd (kv_get key st)) = kv_data st"
  by (simp add: kv_get_def split: option.split fault.split)

lemma kv_get_as_data: "kv_data (snd (kv_get_as typed key st)) = kv_data st"
  using kv_get_data [of key st]
  by (auto simp: kv_get_as_def bind_h_def lift_h_def split: prod.split result.split)

lemma kv_get_as_eq_Ok:
  "kv_get_as typed key st = (Ok a, st') \<longleftrightarrow>
   (\<exists>v. next_fault st = None \<and> kv_data st key = Some v \<and> typed v = Ok a \<and> st' = drop_fault st)"
  by (auto simp: kv_get_as_def result_simps kv_get_def split: option.splits fault.splits)

lemma kv_set_data:
  "kv_set key val st = (r, st') \<Longrightarrow>
   kv_data st' = (kv_data st)(key \<mapsto> val) \<or> r \<noteq> Ok () \<and> kv_data st' = kv_data st"
  by (auto simp: kv_set_def Let_def split: option.splits fault.splits if_splits)

lemma kv_set_neq_Panic: "kv_set key val st \<noteq> (Panic, st')"
  by (auto simp: kv_set_def Let_def split: option.split fault.split)

text \<open>
  The safety data survive a write and a read, data written before the field \<^verbatim>\<open>one_chain_round\<close> existed are
  read with the round 0, and no text of safety data is the text of a \<^verbatim>\<open>Result\<close>.
\<close>

lemma decode_encode_option: "(\<And>a. enc a \<noteq> JNull \<and> dec (enc a) = Ok a) \<Longrightarrow> decode_option dec (encode_option enc x) = Ok x"
  by (cases x; cases "enc (the x)") (auto, (metis map_ok.simps(1))+)

lemma decode_encode_safety_data [simp]: "decode_safety_data (encode_safety_data d) = Ok d"
  using decode_encode_option [of JVote decode_vote "last_vote d"]
  by (simp add: encode_safety_data_def decode_field_def safety_data_new_def)

lemma decode_old_safety_data:
  "decode_safety_data (JObject
     [(''epoch'', JNumber e), (''last_voted_round'', JNumber lvr), (''preferred_round'', JNumber pr),
      (''last_vote'', JNull)]) = Ok (safety_data_new e lvr pr 0 None)"
  by (simp add: decode_field_def)

lemma encode_safety_data_not_result: "decode_result dec_ok dec_err (encode_safety_data d) = Err StorageSerializationError"
  by (simp add: encode_safety_data_def)

lemma as_typed_simps [simp]:
  "as_author (StoredAuthor a) = Ok a" "as_key (StoredKey k) = Ok k" "as_waypoint (StoredWaypoint w) = Ok w"
  "as_safety_data (StoredSafetyData d) = Ok d"
  by (simp_all add: as_author_def as_key_def as_waypoint_def as_safety_data_def)

lemma as_safety_data_eq_Ok [simp]: "as_safety_data v = Ok d \<longleftrightarrow> v = StoredSafetyData d"
  by (cases v) (auto simp: as_safety_data_def)

lemma as_author_eq_Ok: "as_author v = Ok a \<longleftrightarrow> v = StoredAuthor a"
  by (cases v) (auto simp: as_author_def encode_safety_data_def)

lemma as_safety_data_result_Err [simp]: "as_safety_data_result v = Err StorageSerializationError"
  by (cases v) (simp_all add: as_safety_data_result_def encode_safety_data_not_result)

text \<open>Reading and writing the safety data.\<close>

lemma coherent_pss_new [simp]: "coherent (pss_new st enable)"
  by (simp add: coherent_def pss_new_def)

lemma pss_safety_data_enabled: "pss_safety_data ps = (Ok d, ps') \<Longrightarrow> enable_cached_safety_data ps"
  by (rule ccontr)
    (auto simp: pss_safety_data_def safety_data_uncached_def result_simps convert_storage_eq_Ok
      on_store_def kv_get_as_eq_Ok)

lemma pss_safety_data_Ok:
  assumes "pss_safety_data ps = (Ok d, ps')" and "coherent ps"
  shows "stored_safety_data ps = Some d" and "stored_safety_data ps' = Some d" and "coherent ps'"
    and "enable_cached_safety_data ps' = enable_cached_safety_data ps"
    and "cached_safety_data ps' = Some d"
    and "enable_cached_safety_data ps"
proof -
  have en: "enable_cached_safety_data ps" by (rule pss_safety_data_enabled [OF assms(1)])
  show "enable_cached_safety_data ps" by (rule en)
  have *: "stored_safety_data ps = Some d \<and> stored_safety_data ps' = Some d \<and> coherent ps' \<and>
    enable_cached_safety_data ps' = enable_cached_safety_data ps \<and> cached_safety_data ps' = Some d"
  proof (cases "cached_safety_data ps")
    case (Some d')
    then have "d' = d" "ps' = ps" using assms(1) en by (auto simp: pss_safety_data_def)
    then show ?thesis using assms(2) Some en by (simp add: coherent_def)
  next
    case None
    then have "kv_data (internal_store ps) SAFETY_DATA = Some (StoredSafetyData d)"
      "ps' = ps\<lparr>internal_store := drop_fault (internal_store ps), cached_safety_data := Some d\<rparr>"
      using assms(1) en
      by (auto simp: pss_safety_data_def result_simps convert_storage_eq_Ok on_store_def kv_get_as_eq_Ok)
    then show ?thesis by (simp add: stored_safety_data_def coherent_def)
  qed
  then show "stored_safety_data ps = Some d" "stored_safety_data ps' = Some d" "coherent ps'"
    "enable_cached_safety_data ps' = enable_cached_safety_data ps" "cached_safety_data ps' = Some d"
    by auto
qed

text \<open>Whatever the outcome of a read, it leaves the storage alone; a write may reach it.\<close>

lemma on_store_get:
  "stored_safety_data (snd (on_store (kv_get_as typed key) ps)) = stored_safety_data ps"
  "cached_safety_data (snd (on_store (kv_get_as typed key) ps)) = cached_safety_data ps"
  "enable_cached_safety_data (snd (on_store (kv_get_as typed key) ps)) = enable_cached_safety_data ps"
  using kv_get_as_data [of typed key "internal_store ps"]
  by (auto simp: on_store_def focus_h_def stored_safety_data_def split: prod.splits)

lemma snd_convert_h [simp]: "snd (convert_h f m s) = snd (m s)"
  by (auto simp: convert_h_def split: prod.split result.split)

definition same_data :: "persistent_safety_storage \<Rightarrow> persistent_safety_storage \<Rightarrow> bool" where
  "same_data ps ps' \<longleftrightarrow>
     stored_safety_data ps' = stored_safety_data ps \<and>
     enable_cached_safety_data ps' = enable_cached_safety_data ps \<and> (coherent ps \<longrightarrow> coherent ps')"

lemma same_data_refl [simp]: "same_data ps ps"
  by (simp add: same_data_def)

lemma same_data_on_store_get: "same_data ps (snd (on_store (kv_get_as typed key) ps))"
  using on_store_get [of typed key ps] by (simp add: same_data_def coherent_def)

lemma pss_author_same: "same_data ps (snd (pss_author ps))"
  by (simp add: pss_author_def same_data_on_store_get)

lemma pss_waypoint_same: "same_data ps (snd (pss_waypoint ps))"
  by (simp add: pss_waypoint_def same_data_on_store_get)

lemma consensus_key_same: "same_data ps (snd (consensus_key_for_version c pk ps))"
  using same_data_on_store_get [of ps as_key CONSENSUS_KEY]
  by (auto simp: consensus_key_for_version_def bind_h_def convert_h_def throw_h_def return_h_def
      split: prod.splits result.splits)

lemma set_waypoint_same: "same_data ps (snd (set_waypoint w ps))"
  using kv_set_data [of WAYPOINT "StoredWaypoint w" "internal_store ps"]
  by (auto simp: set_waypoint_def on_store_def focus_h_def same_data_def coherent_def
      stored_safety_data_def split: prod.splits)

lemma safety_data_uncached_same: "same_data ps (snd (safety_data_uncached ps))"
  using same_data_on_store_get [of ps as_safety_data_result SAFETY_DATA]
  by (auto simp: safety_data_uncached_def bind_h_def convert_h_def lift_h_def
      split: prod.splits result.splits)

lemma pss_safety_data_same: "same_data ps (snd (pss_safety_data ps))"
proof (cases "enable_cached_safety_data ps \<and> cached_safety_data ps = None")
  case True
  define m where "m = convert_h from_storage_error (on_store (kv_get_as as_safety_data SAFETY_DATA))"
  have run: "pss_safety_data ps =
      bind_h m (\<lambda>d. bind_h (modify_h (\<lambda>ps. ps\<lparr>cached_safety_data := Some d\<rparr>)) (\<lambda>_. return_h d)) ps"
    using True by (simp add: pss_safety_data_def m_def)
  obtain r t where m: "m ps = (r, t)" by (cases "m ps")
  have same: "same_data ps t"
    using same_data_on_store_get [of ps as_safety_data SAFETY_DATA] snd_convert_h m unfolding m_def by (metis snd_conv)
  show ?thesis
  proof (cases r)
    case (Ok d)
    then have "stored_safety_data t = Some d" using m
      by (auto simp: m_def convert_storage_eq_Ok on_store_def result_simps kv_get_as_eq_Ok stored_safety_data_def)
    then show ?thesis using same Ok m
      by (auto simp: run bind_h_def modify_h_def return_h_def same_data_def coherent_def stored_safety_data_def)
  qed (use same m in \<open>simp_all add: run bind_h_def\<close>)
next
  case False
  then show ?thesis using safety_data_uncached_same [of ps]
    by (auto simp: pss_safety_data_def split: option.split)
qed

lemma set_safety_data_effect:
  assumes "set_safety_data d ps = (r, ps')"
  shows "stored_safety_data ps' = Some d \<or> r \<noteq> Ok () \<and> stored_safety_data ps' = stored_safety_data ps"
    and "coherent ps'" and "enable_cached_safety_data ps' = enable_cached_safety_data ps"
proof -
  obtain r1 st where kv: "kv_set SAFETY_DATA (StoredSafetyData d) (internal_store ps) = (r1, st)"
    by (cases "kv_set SAFETY_DATA (StoredSafetyData d) (internal_store ps)")
  then have data: "kv_data st = (kv_data (internal_store ps))(SAFETY_DATA \<mapsto> StoredSafetyData d) \<or>
      r1 \<noteq> Ok () \<and> kv_data st = kv_data (internal_store ps)" and np: "r1 \<noteq> Panic"
    using kv_set_data kv_set_neq_Panic by blast+
  have out: "set_safety_data d ps =
      (case r1 of Ok _ \<Rightarrow> (Ok (), ps\<lparr>internal_store := st, cached_safety_data := Some d\<rparr>)
       | Err e \<Rightarrow> (Err (SecureStorageUnexpectedError e), ps\<lparr>internal_store := st, cached_safety_data := None\<rparr>)
       | Panic \<Rightarrow> (Panic, ps\<lparr>internal_store := st\<rparr>))"
    by (simp add: set_safety_data_def on_store_def focus_h_def kv split: result.split)
  show "stored_safety_data ps' = Some d \<or> r \<noteq> Ok () \<and> stored_safety_data ps' = stored_safety_data ps"
    "coherent ps'" "enable_cached_safety_data ps' = enable_cached_safety_data ps"
    using assms data np unfolding out
    by (auto simp: stored_safety_data_def coherent_def split: result.splits)
qed

end
