(* ===== verification/Safety_Rules.thy ===== *)
theory Safety_Rules
  imports Safety_Storage
begin

text \<open>
  The validator's trusted core: \<^verbatim>\<open>consensus/safety-rules/src/safety_rules.rs\<close> and
  \<^verbatim>\<open>safety_rules_2chain.rs\<close>, with the public state of \<^verbatim>\<open>consensus_state.rs\<close>. A method on
  \<^verbatim>\<open>&mut self\<close> is a handler on the record \<open>safety_rules\<close>; \<open>now_usecs\<close> is the clock a proposal is
  checked against. The wrapper \<^verbatim>\<open>run_and_log\<close> only logs and counts, so a public method is its
  guarded method.

  The lemmas are the contract of this core: the cache agrees with the storage whatever fails, the
  stored rounds never decrease, and what a successful vote or timeout promises.
\<close>

section \<open>State\<close>

record safety_rules =
  sr_persistent_storage :: persistent_safety_storage
  sr_validator_signer :: "validator_signer option"
  sr_epoch_state :: "epoch_state option"

definition safety_rules_new :: "persistent_safety_storage \<Rightarrow> safety_rules" where
  "safety_rules_new ps = \<lparr>sr_persistent_storage = ps, sr_validator_signer = None, sr_epoch_state = None\<rparr>"

record consensus_state =
  cs_safety_data :: safety_data
  cs_waypoint :: waypoint
  cs_in_validator_set :: bool

definition next_round :: "round \<Rightarrow> (round, safety_error) result" where
  "next_round rnd = ok_or (checked_add rnd 1) (IncorrectRound rnd)"

definition on_storage ::
  "(persistent_safety_storage, 'a, 'e) handler \<Rightarrow> (safety_rules, 'a, 'e) handler" where
  "on_storage = focus_h sr_persistent_storage (\<lambda>ps sr. sr\<lparr>sr_persistent_storage := ps\<rparr>)"

definition sr_signer :: "safety_rules \<Rightarrow> (validator_signer, safety_error) result" where
  "sr_signer sr = ok_or (sr_validator_signer sr) (NotInitialized ''validator_signer'')"

definition sr_epoch :: "safety_rules \<Rightarrow> (epoch_state, safety_error) result" where
  "sr_epoch sr = ok_or (sr_epoch_state sr) (NotInitialized ''epoch_state'')"

definition sr_sign :: "crypto \<Rightarrow> message \<Rightarrow> safety_rules \<Rightarrow> (bls_signature, safety_error) result" where
  "sr_sign c m sr =
     and_then (sr_signer sr) (\<lambda>signer. map_err SerializationError (signer_sign c signer m))"

section \<open>Checks\<close>

definition verify_epoch :: "u64 \<Rightarrow> safety_data \<Rightarrow> (unit, safety_error) result" where
  "verify_epoch epoch d =
     (if epoch \<noteq> sfd_epoch d then Err (IncorrectEpoch epoch (sfd_epoch d)) else Ok ())"

definition sr_verify_qc :: "crypto \<Rightarrow> quorum_cert \<Rightarrow> safety_rules \<Rightarrow> (unit, safety_error) result" where
  "sr_verify_qc c qc sr =
     and_then (sr_epoch sr) (\<lambda>es. map_err InvalidQuorumCertificate (qc_verify c qc (es_verifier es)))"

definition sr_verify_tc ::
  "crypto \<Rightarrow> two_chain_timeout_certificate \<Rightarrow> safety_rules \<Rightarrow> (unit, safety_error) result" where
  "sr_verify_tc c tc sr =
     and_then (sr_epoch sr) (\<lambda>es. map_err InvalidTimeoutCertificate (tc_verify c tc (es_verifier es)))"

definition verify_maybe_tc ::
  "crypto \<Rightarrow> two_chain_timeout_certificate option \<Rightarrow> safety_rules \<Rightarrow> (unit, safety_error) result" where
  "verify_maybe_tc c maybe_tc sr = (case maybe_tc of None \<Rightarrow> Ok () | Some tc \<Rightarrow> sr_verify_tc c tc sr)"

definition verify_proposal ::
  "crypto \<Rightarrow> u64 \<Rightarrow> vote_proposal \<Rightarrow> (safety_rules, vote_data, safety_error) handler" where
  "verify_proposal c now_usecs vp =
     (let proposed_block = vp_block vp in
      bind_h (on_storage pss_safety_data) (\<lambda>d.
      lift_h (\<lambda>sr.
        and_then (verify_epoch (b_epoch proposed_block) d) (\<lambda>_.
        and_then (sr_verify_qc c (b_quorum_cert proposed_block) sr) (\<lambda>_.
        and_then (sr_epoch sr) (\<lambda>es.
        and_then (map_err InvalidProposal (validate_signature c proposed_block (es_verifier es))) (\<lambda>_.
        and_then (map_err InvalidProposal (verify_well_formed now_usecs proposed_block)) (\<lambda>_.
        map_err InvalidAccumulatorExtension (gen_vote_data c vp)))))))))"

text \<open>\<^verbatim>\<open>observe_qc\<close> returns whether it changed the data it was given.\<close>

definition observe_qc :: "quorum_cert \<Rightarrow> safety_data \<Rightarrow> bool \<times> safety_data" where
  "observe_qc qc d =
     (let one_chain = bi_round (certified_block qc);
          two_chain = bi_round (parent_block qc);
          (updated1, d1) = (if one_chain > one_chain_round d then (True, d\<lparr>one_chain_round := one_chain\<rparr>)
                            else (False, d))
      in if two_chain > preferred_round d1 then (True, d1\<lparr>preferred_round := two_chain\<rparr>)
         else (updated1, d1))"

definition verify_and_update_preferred_round ::
  "quorum_cert \<Rightarrow> safety_data \<Rightarrow> (bool \<times> safety_data, safety_error) result" where
  "verify_and_update_preferred_round qc d =
     (let pr = preferred_round d; one_chain = bi_round (certified_block qc) in
      if one_chain < pr then Err (IncorrectPreferredRound one_chain pr)
      else Ok (observe_qc qc d))"

definition verify_author :: "author option \<Rightarrow> safety_rules \<Rightarrow> (unit, safety_error) result" where
  "verify_author author sr =
     and_then (sr_signer sr) (\<lambda>signer.
     and_then (ok_or author (InvalidProposal (Anyhow ''No author found in the proposal''))) (\<lambda>a.
     if vs_author signer \<noteq> a then Err (InvalidProposal (Anyhow ''Proposal author is not validator signer!''))
     else Ok ()))"

definition verify_and_update_last_vote_round ::
  "round \<Rightarrow> safety_data \<Rightarrow> (safety_data, safety_error) result" where
  "verify_and_update_last_vote_round rnd d =
     (if rnd \<le> last_voted_round d then Err (IncorrectLastVotedRound rnd (last_voted_round d))
      else Ok (d\<lparr>last_voted_round := rnd\<rparr>))"

definition maybe_tc_round :: "two_chain_timeout_certificate option \<Rightarrow> round" where
  "maybe_tc_round maybe_tc = (case maybe_tc of None \<Rightarrow> 0 | Some tc \<Rightarrow> tc_round tc)"

definition maybe_hqc_round :: "two_chain_timeout_certificate option \<Rightarrow> round" where
  "maybe_hqc_round maybe_tc = (case maybe_tc of None \<Rightarrow> 0 | Some tc \<Rightarrow> highest_hqc_round tc)"

text \<open>\<^verbatim>\<open>||\<close> and \<^verbatim>\<open>&&\<close> evaluate \<^verbatim>\<open>next_round(tc_round)?\<close> only when the first comparison fails.\<close>

definition safe_to_timeout ::
  "two_chain_timeout \<Rightarrow> two_chain_timeout_certificate option \<Rightarrow> safety_data \<Rightarrow> (unit, safety_error) result" where
  "safe_to_timeout timeout maybe_tc d =
     (let rnd = to_round timeout; qc_round = hqc_round timeout; tcr = maybe_tc_round maybe_tc in
      and_then (next_round qc_round) (\<lambda>after_qc.
      and_then (if rnd = after_qc then Ok True
                else and_then (next_round tcr) (\<lambda>after_tc. Ok (rnd = after_tc))) (\<lambda>next.
      if next \<and> qc_round \<ge> one_chain_round d then Ok ()
      else Err (NotSafeToTimeout rnd qc_round tcr (one_chain_round d)))))"

definition safe_to_vote ::
  "block \<Rightarrow> two_chain_timeout_certificate option \<Rightarrow> (unit, safety_error) result" where
  "safe_to_vote b maybe_tc =
     (let rnd = b_round b; qc_round = bi_round (certified_block (b_quorum_cert b));
          tcr = maybe_tc_round maybe_tc; hqcr = maybe_hqc_round maybe_tc in
      and_then (next_round qc_round) (\<lambda>after_qc.
      and_then (if rnd = after_qc then Ok True
                else and_then (next_round tcr) (\<lambda>after_tc. Ok (rnd = after_tc \<and> qc_round \<ge> hqcr))) (\<lambda>safe.
      if safe then Ok () else Err (NotSafeToVote rnd qc_round tcr hqcr))))"

definition construct_ledger_info_2chain :: "block \<Rightarrow> hash_value \<Rightarrow> (ledger_info, safety_error) result" where
  "construct_ledger_info_2chain proposed_block hash =
     (let block1 = b_round proposed_block;
          block0 = bi_round (certified_block (b_quorum_cert proposed_block)) in
      and_then (next_round block0) (\<lambda>after0.
      Ok \<lparr>commit_info = (if after0 = block1 then certified_block (b_quorum_cert proposed_block)
                         else block_info_empty),
          consensus_data_hash = hash\<rparr>))"

section \<open>Operations\<close>

definition sign_timeout_with_qc ::
  "crypto \<Rightarrow> two_chain_timeout \<Rightarrow> two_chain_timeout_certificate option \<Rightarrow>
   (safety_rules, bls_signature, safety_error) handler" where
  "sign_timeout_with_qc c timeout timeout_cert =
     bind_h (lift_h sr_signer) (\<lambda>_.
     bind_h (on_storage pss_safety_data) (\<lambda>d.
     bind_h (lift_h (\<lambda>sr.
       and_then (verify_epoch (to_epoch timeout) d) (\<lambda>_.
       and_then (sr_epoch sr) (\<lambda>es.
       and_then (map_err InvalidTimeout (timeout_verify c timeout (es_verifier es))) (\<lambda>_.
       and_then (verify_maybe_tc c timeout_cert sr) (\<lambda>_.
       and_then (safe_to_timeout timeout timeout_cert d) (\<lambda>_.
       if to_round timeout < last_voted_round d
       then Err (IncorrectLastVotedRound (to_round timeout) (last_voted_round d)) else Ok ()))))))) (\<lambda>_.
     bind_h (if to_round timeout > last_voted_round d
       then bind_h (lift_h (\<lambda>_. verify_and_update_last_vote_round (to_round timeout) d)) (\<lambda>d'.
            on_storage (set_safety_data d'))
       else return_h ()) (\<lambda>_.
     lift_h (sr_sign c (msg_timeout (signing_format timeout)))))))"

definition already_voted :: "round \<Rightarrow> safety_data \<Rightarrow> vote option" where
  "already_voted rnd d =
     (case last_vote d of None \<Rightarrow> None | Some v \<Rightarrow> if v_round v = rnd then Some v else None)"

text \<open>The part of the handler after the check for an earlier vote: the two voting rules, the new vote, and its record.\<close>

definition new_vote_data ::
  "vote_proposal \<Rightarrow> two_chain_timeout_certificate option \<Rightarrow> safety_data \<Rightarrow> (safety_data, safety_error) result" where
  "new_vote_data vp timeout_cert d =
     and_then (verify_and_update_last_vote_round (b_round (vp_block vp)) d) (\<lambda>d1.
     and_then (safe_to_vote (vp_block vp) timeout_cert) (\<lambda>_.
     Ok (snd (observe_qc (b_quorum_cert (vp_block vp)) d1))))"

definition make_vote ::
  "crypto \<Rightarrow> vote_proposal \<Rightarrow> vote_data \<Rightarrow> safety_rules \<Rightarrow> (vote, safety_error) result" where
  "make_vote c vp vd sr =
     and_then (sr_signer sr) (\<lambda>signer.
     and_then (crypto_hash c (msg_vote_data vd)) (\<lambda>hash.
     and_then (construct_ledger_info_2chain (vp_block vp) hash) (\<lambda>li.
     and_then (sr_sign c (msg_ledger_info li) sr) (\<lambda>signature.
     Ok (vote_new_with_signature vd (vs_author signer) li signature)))))"

definition sign_new_vote ::
  "crypto \<Rightarrow> vote_proposal \<Rightarrow> two_chain_timeout_certificate option \<Rightarrow> vote_data \<Rightarrow> safety_data \<Rightarrow>
   (safety_rules, vote, safety_error) handler" where
  "sign_new_vote c vp timeout_cert vd d =
     bind_h (lift_h (\<lambda>_. new_vote_data vp timeout_cert d)) (\<lambda>d2.
     bind_h (lift_h (make_vote c vp vd)) (\<lambda>v.
     bind_h (on_storage (set_safety_data (d2\<lparr>last_vote := Some v\<rparr>))) (\<lambda>_.
     return_h v)))"

definition construct_and_sign_vote_two_chain ::
  "crypto \<Rightarrow> u64 \<Rightarrow> vote_proposal \<Rightarrow> two_chain_timeout_certificate option \<Rightarrow>
   (safety_rules, vote, safety_error) handler" where
  "construct_and_sign_vote_two_chain c now_usecs vp timeout_cert =
     bind_h (lift_h sr_signer) (\<lambda>_.
     bind_h (verify_proposal c now_usecs vp) (\<lambda>vd.
     bind_h (lift_h (verify_maybe_tc c timeout_cert)) (\<lambda>_.
     bind_h (on_storage pss_safety_data) (\<lambda>d.
     case already_voted (b_round (vp_block vp)) d of
       Some v \<Rightarrow> return_h v
     | None \<Rightarrow> sign_new_vote c vp timeout_cert vd d))))"

definition sign_proposal :: "crypto \<Rightarrow> block_data \<Rightarrow> (safety_rules, bls_signature, safety_error) handler" where
  "sign_proposal c bd =
     bind_h (lift_h sr_signer) (\<lambda>_.
     bind_h (lift_h (verify_author (bd_author bd))) (\<lambda>_.
     bind_h (on_storage pss_safety_data) (\<lambda>d.
     lift_h (\<lambda>sr.
       and_then (verify_epoch (bd_epoch bd) d) (\<lambda>_.
       and_then (if bd_round bd \<le> last_voted_round d
         then Err (InvalidProposal (Anyhow ''Proposed round is not higher than last voted round''))
         else Ok ()) (\<lambda>_.
       and_then (sr_verify_qc c (bd_quorum_cert bd) sr) (\<lambda>_.
       and_then (verify_and_update_preferred_round (bd_quorum_cert bd) d) (\<lambda>_.
       sr_sign c (msg_block_data bd) sr))))))))"

definition sign_commit_vote ::
  "crypto \<Rightarrow> ledger_info_with_signatures \<Rightarrow> ledger_info \<Rightarrow> (safety_rules, bls_signature, safety_error) handler" where
  "sign_commit_vote c l new_ledger_info =
     lift_h (\<lambda>sr.
       and_then (sr_signer sr) (\<lambda>_.
       let old_ledger_info = lis_ledger_info l in
       and_then (ensure (is_ordered_only (commit_info old_ledger_info))
         (InvalidOrderedLedgerInfo old_ledger_info)) (\<lambda>_.
       and_then (ensure (match_ordered_only (commit_info old_ledger_info) (commit_info new_ledger_info))
         (InconsistentExecutionResult (commit_info old_ledger_info) (commit_info new_ledger_info))) (\<lambda>_.
       and_then (sr_epoch sr) (\<lambda>es.
       and_then (map_err (\<lambda>e. InvalidQuorumCertificate (FromVerifyError e))
         (lis_verify_signatures c l (es_verifier es))) (\<lambda>_.
       sr_sign c (msg_ledger_info new_ledger_info) sr))))))"

text \<open>
  \<^verbatim>\<open>guarded_consensus_state\<close>. The author that the trace message of the function reads is left out, as
  tracing is off unless configured.
\<close>

definition get_consensus_state :: "(safety_rules, consensus_state, safety_error) handler" where
  "get_consensus_state =
     bind_h (on_storage pss_waypoint) (\<lambda>_.
     bind_h (on_storage pss_safety_data) (\<lambda>_.
     bind_h (on_storage pss_safety_data) (\<lambda>d.
     bind_h (on_storage pss_waypoint) (\<lambda>w.
     lift_h (\<lambda>sr. Ok \<lparr>cs_safety_data = d, cs_waypoint = w, cs_in_validator_set = is_ok (sr_signer sr)\<rparr>)))))"

text \<open>The end of \<^verbatim>\<open>guarded_initialize\<close>: the key of the validator in the new set.\<close>

definition reconcile_key :: "crypto \<Rightarrow> epoch_state \<Rightarrow> author \<Rightarrow> (safety_rules, unit, safety_error) handler" where
  "reconcile_key c es author sr =
     (case get_public_key (es_verifier es) author of
        None \<Rightarrow> (Err (ValidatorNotInSet author), sr)
      | Some expected_key \<Rightarrow>
          if map_option (signer_public_key c) (sr_validator_signer sr) = Some expected_key then (Ok (), sr)
          else case on_storage (consensus_key_for_version c expected_key) sr of
            (Ok key, sr') \<Rightarrow> (Ok (), sr'\<lparr>sr_validator_signer := Some \<lparr>vs_author = author, vs_private_key = key\<rparr>\<rparr>)
          | (Err (SecureStorageMissingDataError e), sr') \<Rightarrow> (Err (ValidatorKeyNotFound e), sr')
          | (Err e, sr') \<Rightarrow> (Err e, sr')
          | (Panic, sr') \<Rightarrow> (Panic, sr'))"

definition drop_signer_on_error :: "(safety_rules, unit, safety_error) handler \<Rightarrow> (safety_rules, unit, safety_error) handler" where
  "drop_signer_on_error m sr =
     (case m sr of
        (Err e, sr') \<Rightarrow> (Err e, sr'\<lparr>sr_validator_signer := None\<rparr>)
      | other \<Rightarrow> other)"

definition sr_initialize :: "crypto \<Rightarrow> epoch_change_proof \<Rightarrow> (safety_rules, unit, safety_error) handler" where
  "sr_initialize c proof =
     bind_h (on_storage pss_waypoint) (\<lambda>w.
     bind_h (lift_h (\<lambda>_.
       and_then (map_err InvalidEpochChangeProof (ecp_verify c proof (waypoint_verifier c w))) (\<lambda>last_li.
       let li = lis_ledger_info last_li in
       and_then (ok_or (li_next_epoch_state li) InvalidLedgerInfo) (\<lambda>es.
       and_then (map_err InternalError (waypoint_new_epoch_boundary c li)) (\<lambda>new_waypoint.
       Ok (es, new_waypoint)))))) (\<lambda>(es, new_waypoint).
     bind_h (if wp_version new_waypoint > wp_version w then on_storage (set_waypoint new_waypoint)
             else return_h ()) (\<lambda>_.
     bind_h (on_storage pss_safety_data) (\<lambda>d.
     bind_h (if sfd_epoch d > es_epoch es
       then throw_h (WaypointOutOfDate (wp_version w) (wp_version new_waypoint) (sfd_epoch d) (es_epoch es))
       else if sfd_epoch d < es_epoch es
       then on_storage (set_safety_data (safety_data_new (es_epoch es) 0 0 0 None))
       else return_h ()) (\<lambda>_.
     bind_h (modify_h (\<lambda>sr. sr\<lparr>sr_epoch_state := Some es\<rparr>)) (\<lambda>_.
     bind_h (on_storage pss_author) (\<lambda>author.
     drop_signer_on_error (reconcile_key c es author))))))))"

section \<open>Reading and writing the safety data\<close>

definition sr_data :: "safety_rules \<Rightarrow> safety_data option" where
  "sr_data sr = stored_safety_data (sr_persistent_storage sr)"

definition sr_coherent :: "safety_rules \<Rightarrow> bool" where
  "sr_coherent sr \<longleftrightarrow> coherent (sr_persistent_storage sr)"

text \<open>The states of a run that has not yet written: the data are \<open>D\<close>, the rest is as in \<open>sr0\<close>.\<close>

definition at_data :: "safety_data option \<Rightarrow> safety_rules \<Rightarrow> safety_rules \<Rightarrow> bool" where
  "at_data D sr0 sr \<longleftrightarrow>
     sr_coherent sr \<and> sr_data sr = D \<and> sr_epoch_state sr = sr_epoch_state sr0 \<and>
     sr_validator_signer sr = sr_validator_signer sr0 \<and>
     enable_cached_safety_data (sr_persistent_storage sr) =
       enable_cached_safety_data (sr_persistent_storage sr0)"

lemma at_data_self: "sr_coherent sr \<Longrightarrow> at_data (sr_data sr) sr sr"
  by (simp add: at_data_def)

lemma at_dataD:
  assumes "at_data D sr0 sr"
  shows "sr_coherent sr" "sr_data sr = D" "sr_epoch_state sr = sr_epoch_state sr0"
    "sr_validator_signer sr = sr_validator_signer sr0"
  using assms by (simp_all add: at_data_def)

lemma on_storage_eq:
  "on_storage m sr = (fst (m (sr_persistent_storage sr)),
     sr\<lparr>sr_persistent_storage := snd (m (sr_persistent_storage sr))\<rparr>)"
  by (simp add: on_storage_def focus_h_def split: prod.split)

lemma at_data_same:
  "at_data D sr0 sr \<Longrightarrow> same_data (sr_persistent_storage sr) ps' \<Longrightarrow>
   at_data D sr0 (sr\<lparr>sr_persistent_storage := ps'\<rparr>)"
  by (auto simp: at_data_def same_data_def sr_data_def sr_coherent_def)

lemma triple_read:
  assumes "\<And>ps. same_data ps (snd (m ps))"
  shows "triple (at_data D sr0) (on_storage m) (\<lambda>_. at_data D sr0) (at_data D sr0)"
  using at_data_same [OF _ assms] by (auto simp: triple_def on_storage_eq split: result.split)

lemma triple_safety_data:
  "triple (at_data D sr0) (on_storage pss_safety_data) (\<lambda>d sr. D = Some d \<and> at_data D sr0 sr) (at_data D sr0)"
proof (rule tripleI)
  fix sr d sr'
  assume at: "at_data D sr0 sr" and run: "on_storage pss_safety_data sr = (Ok d, sr')"
  then obtain ps' where ps: "pss_safety_data (sr_persistent_storage sr) = (Ok d, ps')"
    and sr': "sr' = sr\<lparr>sr_persistent_storage := ps'\<rparr>"
    by (auto simp: on_storage_def result_simps)
  then have "stored_safety_data (sr_persistent_storage sr) = Some d"
    using pss_safety_data_Ok(1) at by (auto simp: at_data_def sr_coherent_def)
  moreover have "at_data D sr0 sr'"
    using at_data_same [OF at pss_safety_data_same] ps sr' by simp
  ultimately show "D = Some d \<and> at_data D sr0 sr'" using at by (simp add: at_data_def sr_data_def)
next
  fix sr r sr'
  assume "at_data D sr0 sr" "on_storage pss_safety_data sr = (r, sr')"
  then show "at_data D sr0 sr'"
    using at_data_same [OF _ pss_safety_data_same] by (auto simp: on_storage_eq)
qed

lemma triple_set_safety_data:
  "triple (at_data D sr0) (on_storage (set_safety_data d)) (\<lambda>_. at_data (Some d) sr0)
     (\<lambda>sr. at_data D sr0 sr \<or> at_data (Some d) sr0 sr)"
proof -
  have "at_data (Some d) sr0 sr' \<or> r \<noteq> Ok () \<and> at_data D sr0 sr'"
    if at: "at_data D sr0 sr" and eff: "on_storage (set_safety_data d) sr = (r, sr')" for sr r sr'
  proof -
    obtain ps' where run: "set_safety_data d (sr_persistent_storage sr) = (r, ps')"
      and sr': "sr' = sr\<lparr>sr_persistent_storage := ps'\<rparr>"
      using eff by (cases "set_safety_data d (sr_persistent_storage sr)") (auto simp: on_storage_eq)
    show ?thesis using set_safety_data_effect [OF run] at
      by (auto simp: sr' at_data_def sr_data_def sr_coherent_def)
  qed
  then show ?thesis by (auto simp: triple_def split: result.split)
qed

lemmas triple_rules =
  triple_bind_h triple_lift_h triple_return_h triple_throw_h triple_modify_h

section \<open>What a vote promises\<close>

text \<open>The conditions under which a validator with safety data \<open>d\<close> makes the new vote \<open>v\<close>.\<close>

definition vote_allowed ::
  "crypto \<Rightarrow> u64 \<Rightarrow> epoch_state option \<Rightarrow> validator_signer option \<Rightarrow> safety_data \<Rightarrow> vote_proposal \<Rightarrow>
   two_chain_timeout_certificate option \<Rightarrow> vote \<Rightarrow> bool" where
  "vote_allowed c now_usecs epoch_state signer d vp tc v \<longleftrightarrow>
     (\<exists>es s. epoch_state = Some es \<and> signer = Some s \<and>
       sfd_epoch d = b_epoch (vp_block vp) \<and>
       qc_verify c (b_quorum_cert (vp_block vp)) (es_verifier es) = Ok () \<and>
       validate_signature c (vp_block vp) (es_verifier es) = Ok () \<and>
       verify_well_formed now_usecs (vp_block vp) = Ok () \<and>
       gen_vote_data c vp = Ok (v_vote_data v) \<and>
       (\<forall>t. tc = Some t \<longrightarrow> tc_verify c t (es_verifier es) = Ok ()) \<and>
       last_voted_round d < b_round (vp_block vp) \<and>
       safe_to_vote (vp_block vp) tc = Ok () \<and>
       crypto_hash c (msg_vote_data (v_vote_data v)) =
         (Ok (consensus_data_hash (v_ledger_info v)) :: (hash_value, safety_error) result) \<and>
       construct_ledger_info_2chain (vp_block vp) (consensus_data_hash (v_ledger_info v)) = Ok (v_ledger_info v) \<and>
       signer_sign c s (msg_ledger_info (v_ledger_info v)) = Ok (v_signature v) \<and>
       v_author v = vs_author s \<and> v_two_chain_timeout v = None)"

text \<open>The safety data after that vote.\<close>

definition voted_data :: "safety_data \<Rightarrow> vote_proposal \<Rightarrow> vote \<Rightarrow> safety_data" where
  "voted_data d vp v =
     (snd (observe_qc (b_quorum_cert (vp_block vp)) (d\<lparr>last_voted_round := b_round (vp_block vp)\<rparr>)))
       \<lparr>last_vote := Some v\<rparr>"

lemma observe_qc_data:
  "snd (observe_qc qc d) =
   d\<lparr>one_chain_round := max (one_chain_round d) (bi_round (certified_block qc)),
     preferred_round := max (preferred_round d) (bi_round (parent_block qc))\<rparr>"
  by (cases d) (auto simp: observe_qc_def Let_def max_def)

lemma voted_data_simps [simp]:
  "sfd_epoch (voted_data d vp v) = sfd_epoch d"
  "last_voted_round (voted_data d vp v) = b_round (vp_block vp)"
  "one_chain_round (voted_data d vp v) =
     max (one_chain_round d) (bi_round (certified_block (b_quorum_cert (vp_block vp))))"
  "preferred_round (voted_data d vp v) =
     max (preferred_round d) (bi_round (parent_block (b_quorum_cert (vp_block vp))))"
  "last_vote (voted_data d vp v) = Some v"
  by (simp_all add: voted_data_def observe_qc_data)

definition proposal_checked ::
  "crypto \<Rightarrow> u64 \<Rightarrow> epoch_state option \<Rightarrow> safety_data \<Rightarrow> vote_proposal \<Rightarrow> vote_data \<Rightarrow> bool" where
  "proposal_checked c now_usecs epoch_state d vp vd \<longleftrightarrow>
     (\<exists>es. epoch_state = Some es \<and> sfd_epoch d = b_epoch (vp_block vp) \<and>
       qc_verify c (b_quorum_cert (vp_block vp)) (es_verifier es) = Ok () \<and>
       validate_signature c (vp_block vp) (es_verifier es) = Ok () \<and>
       verify_well_formed now_usecs (vp_block vp) = Ok () \<and> gen_vote_data c vp = Ok vd)"

lemma triple_verify_proposal:
  "triple (at_data (Some d) sr0) (verify_proposal c now_usecs vp)
     (\<lambda>vd sr. proposal_checked c now_usecs (sr_epoch_state sr0) d vp vd \<and> at_data (Some d) sr0 sr)
     (at_data (Some d) sr0)"
  unfolding verify_proposal_def Let_def
  by (intro triple_bind_h [OF triple_safety_data] triple_lift_h)
    (auto simp: proposal_checked_def result_simps verify_epoch_def sr_verify_qc_def sr_epoch_def
      dest: at_dataD split: if_splits)

definition tc_checked ::
  "crypto \<Rightarrow> epoch_state option \<Rightarrow> two_chain_timeout_certificate option \<Rightarrow> bool" where
  "tc_checked c epoch_state tc \<longleftrightarrow>
     (\<forall>t. tc = Some t \<longrightarrow> (\<exists>es. epoch_state = Some es \<and> tc_verify c t (es_verifier es) = Ok ()))"

lemma triple_verify_maybe_tc:
  "triple (at_data D sr0) (lift_h (verify_maybe_tc c tc))
     (\<lambda>_ sr. tc_checked c (sr_epoch_state sr0) tc \<and> at_data D sr0 sr) (at_data D sr0)"
  by (rule triple_lift_h)
    (auto simp: tc_checked_def verify_maybe_tc_def sr_verify_tc_def sr_epoch_def result_simps
      at_dataD(3) split: option.splits)

lemma make_vote_allowed:
  assumes "proposal_checked c now_usecs (sr_epoch_state sr0) d vp vd" and "tc_checked c (sr_epoch_state sr0) tc"
    and "new_vote_data vp tc d = Ok d2" and at: "at_data D sr0 sr" and "make_vote c vp vd sr = Ok v"
  shows "vote_allowed c now_usecs (sr_epoch_state sr0) (sr_validator_signer sr0) d vp tc v"
    and "d2\<lparr>last_vote := Some v\<rparr> = voted_data d vp v"
proof -
  obtain es where es: "sr_epoch_state sr0 = Some es" using assms(1) by (auto simp: proposal_checked_def)
  obtain signer hash li signature where sg: "sr_validator_signer sr0 = Some signer"
    and h: "crypto_hash c (msg_vote_data vd) = (Ok hash :: (hash_value, safety_error) result)"
    and li: "construct_ledger_info_2chain (vp_block vp) hash = Ok li"
    and sign: "signer_sign c signer (msg_ledger_info li) = Ok signature"
    and v: "v = vote_new_with_signature vd (vs_author signer) li signature"
    using assms(5) by (auto simp: make_vote_def result_simps sr_signer_def sr_sign_def at_dataD(4) [OF at])
  have rules: "last_voted_round d < b_round (vp_block vp)" "safe_to_vote (vp_block vp) tc = Ok ()"
    "d2 = snd (observe_qc (b_quorum_cert (vp_block vp)) (d\<lparr>last_voted_round := b_round (vp_block vp)\<rparr>))"
    using assms(3) by (auto simp: new_vote_data_def result_simps verify_and_update_last_vote_round_def split: if_splits)
  have "consensus_data_hash li = hash" using li by (auto simp: construct_ledger_info_2chain_def Let_def result_simps)
  then show "vote_allowed c now_usecs (sr_epoch_state sr0) (sr_validator_signer sr0) d vp tc v"
    using assms(1,2) es sg h li sign rules(1,2)
    by (auto simp: vote_allowed_def proposal_checked_def tc_checked_def v vote_new_with_signature_def)
  show "d2\<lparr>last_vote := Some v\<rparr> = voted_data d vp v" by (simp add: rules(3) voted_data_def)
qed

text \<open>The two outcomes of the handler: nothing has changed, or the new vote is recorded.\<close>

definition vote_recorded ::
  "crypto \<Rightarrow> u64 \<Rightarrow> safety_rules \<Rightarrow> safety_data \<Rightarrow> vote_proposal \<Rightarrow> two_chain_timeout_certificate option \<Rightarrow>
   vote \<Rightarrow> safety_rules \<Rightarrow> bool" where
  "vote_recorded c now_usecs sr0 d vp tc v sr \<longleftrightarrow>
     vote_allowed c now_usecs (sr_epoch_state sr0) (sr_validator_signer sr0) d vp tc v \<and>
     at_data (Some (voted_data d vp v)) sr0 sr"

lemma triple_sign_new_vote:
  assumes "proposal_checked c now_usecs (sr_epoch_state sr0) d vp vd" and "tc_checked c (sr_epoch_state sr0) tc"
  shows "triple (at_data (Some d) sr0) (sign_new_vote c vp tc vd d) (vote_recorded c now_usecs sr0 d vp tc)
    (\<lambda>sr. at_data (Some d) sr0 sr \<or> (\<exists>v. vote_recorded c now_usecs sr0 d vp tc v sr))"
  (is "triple ?P _ ?Q ?E")
  unfolding sign_new_vote_def
proof (rule triple_bind_h)
  show "triple ?P (lift_h (\<lambda>_. new_vote_data vp tc d)) (\<lambda>d2 sr. new_vote_data vp tc d = Ok d2 \<and> ?P sr) ?E"
    by (rule triple_lift_h) simp_all
  fix d2
  show "triple (\<lambda>sr. new_vote_data vp tc d = Ok d2 \<and> ?P sr)
    (bind_h (lift_h (make_vote c vp vd)) (\<lambda>v.
     bind_h (on_storage (set_safety_data (d2\<lparr>last_vote := Some v\<rparr>))) (\<lambda>_. return_h v))) ?Q ?E"
  proof (rule triple_pre, rule triple_bind_h)
    assume new: "new_vote_data vp tc d = Ok d2"
    let ?ok = "\<lambda>v. vote_allowed c now_usecs (sr_epoch_state sr0) (sr_validator_signer sr0) d vp tc v \<and>
      d2\<lparr>last_vote := Some v\<rparr> = voted_data d vp v"
    show "triple ?P (lift_h (make_vote c vp vd)) (\<lambda>v sr. ?ok v \<and> ?P sr) ?E"
      using make_vote_allowed [OF assms new] by (intro triple_lift_h) blast+
    show "triple (\<lambda>sr. ?ok v \<and> ?P sr)
      (bind_h (on_storage (set_safety_data (d2\<lparr>last_vote := Some v\<rparr>))) (\<lambda>_. return_h v)) ?Q ?E" for v
    proof (rule triple_pre, rule triple_bind_h)
      assume ok: "?ok v"
      show "triple ?P (on_storage (set_safety_data (d2\<lparr>last_vote := Some v\<rparr>))) (\<lambda>_. ?Q v) ?E"
        by (rule triple_weaken [OF triple_set_safety_data [of "Some d" sr0 "voted_data d vp v", folded conjunct2 [OF ok]]])
          (use ok in \<open>auto simp: vote_recorded_def\<close>)
      show "triple (?Q v) (return_h v) ?Q ?E" by (rule triple_return_h)
    qed
  qed
qed

lemma triple_construct_and_sign_vote:
  "triple (at_data (Some d) sr0) (construct_and_sign_vote_two_chain c now_usecs vp tc)
     (\<lambda>v sr. already_voted (b_round (vp_block vp)) d = Some v \<and> at_data (Some d) sr0 sr \<or>
        vote_recorded c now_usecs sr0 d vp tc v sr)
     (\<lambda>sr. at_data (Some d) sr0 sr \<or> (\<exists>v. vote_recorded c now_usecs sr0 d vp tc v sr))"
  (is "triple ?P _ ?Q ?E")
  unfolding construct_and_sign_vote_two_chain_def
proof (rule triple_bind_h)
  have weaken: "triple P m R ?P \<Longrightarrow> triple P m R ?E"
    for P R and m :: "(safety_rules, 'x, safety_error) handler"
    by (erule triple_weaken) blast+
  show "triple ?P (lift_h sr_signer) (\<lambda>_. ?P) ?E" by (rule triple_lift_h) simp_all
  let ?rest = "\<lambda>vd d'. case already_voted (b_round (vp_block vp)) d' of
       Some v \<Rightarrow> return_h v
     | None \<Rightarrow> sign_new_vote c vp tc vd d'"
  show "triple ?P (bind_h (verify_proposal c now_usecs vp) (\<lambda>vd.
     bind_h (lift_h (verify_maybe_tc c tc)) (\<lambda>_.
     bind_h (on_storage pss_safety_data) (?rest vd)))) ?Q ?E"
  proof (rule triple_bind_h [OF weaken [OF triple_verify_proposal]], rule triple_pre,
      rule triple_bind_h [OF weaken [OF triple_verify_maybe_tc]], rule triple_pre,
      rule triple_bind_h [OF weaken [OF triple_safety_data]], rule triple_pre)
    fix vd d'
    assume ok: "proposal_checked c now_usecs (sr_epoch_state sr0) d vp vd" "tc_checked c (sr_epoch_state sr0) tc"
      and d': "Some d = Some d'"
    show "triple ?P (?rest vd d') ?Q ?E"
    proof (cases "already_voted (b_round (vp_block vp)) d'")
      case (Some v)
      then show ?thesis using d' by (auto intro!: triple_return_h)
    next
      case None
      then show ?thesis using triple_weaken [OF triple_sign_new_vote [OF ok]] d' by simp
    qed
  qed
qed

section \<open>What a timeout promises\<close>

definition timeout_allowed ::
  "crypto \<Rightarrow> epoch_state option \<Rightarrow> safety_data \<Rightarrow> two_chain_timeout \<Rightarrow>
   two_chain_timeout_certificate option \<Rightarrow> bool" where
  "timeout_allowed c epoch_state d timeout tc \<longleftrightarrow>
     (\<exists>es. epoch_state = Some es \<and> to_epoch timeout = sfd_epoch d \<and>
       timeout_verify c timeout (es_verifier es) = Ok () \<and> tc_checked c epoch_state tc \<and>
       safe_to_timeout timeout tc d = Ok () \<and> last_voted_round d \<le> to_round timeout)"

definition timeout_data :: "safety_data \<Rightarrow> two_chain_timeout \<Rightarrow> safety_data" where
  "timeout_data d timeout = d\<lparr>last_voted_round := max (last_voted_round d) (to_round timeout)\<rparr>"

lemma timeout_data_simps [simp]:
  "sfd_epoch (timeout_data d t) = sfd_epoch d"
  "one_chain_round (timeout_data d t) = one_chain_round d"
  "preferred_round (timeout_data d t) = preferred_round d"
  "last_vote (timeout_data d t) = last_vote d"
  "last_voted_round (timeout_data d t) = max (last_voted_round d) (to_round t)"
  by (simp_all add: timeout_data_def)

definition timeout_recorded ::
  "crypto \<Rightarrow> safety_rules \<Rightarrow> safety_data \<Rightarrow> two_chain_timeout \<Rightarrow> two_chain_timeout_certificate option \<Rightarrow>
   safety_rules \<Rightarrow> bool" where
  "timeout_recorded c sr0 d timeout tc sr \<longleftrightarrow>
     timeout_allowed c (sr_epoch_state sr0) d timeout tc \<and> at_data (Some (timeout_data d timeout)) sr0 sr"

lemma triple_sign_timeout:
  "triple (at_data (Some d) sr0) (sign_timeout_with_qc c timeout tc)
     (\<lambda>_. timeout_recorded c sr0 d timeout tc)
     (\<lambda>sr. at_data (Some d) sr0 sr \<or> timeout_recorded c sr0 d timeout tc sr)"
  (is "triple ?P _ (\<lambda>_. ?Q) ?E")
  unfolding sign_timeout_with_qc_def
proof (rule triple_bind_h)
  have weaken: "triple P m R ?P \<Longrightarrow> triple P m R ?E"
    for P R and m :: "(safety_rules, 'x, safety_error) handler"
    by (erule triple_weaken) blast+
  show "triple ?P (lift_h sr_signer) (\<lambda>_. ?P) ?E" by (rule triple_lift_h) simp_all
  let ?check = "\<lambda>d' sr. and_then (verify_epoch (to_epoch timeout) d') (\<lambda>_.
       and_then (sr_epoch sr) (\<lambda>es.
       and_then (map_err InvalidTimeout (timeout_verify c timeout (es_verifier es))) (\<lambda>_.
       and_then (verify_maybe_tc c tc sr) (\<lambda>_.
       and_then (safe_to_timeout timeout tc d') (\<lambda>_.
       if to_round timeout < last_voted_round d'
       then Err (IncorrectLastVotedRound (to_round timeout) (last_voted_round d')) else Ok ())))))"
  let ?upd = "\<lambda>d'. if to_round timeout > last_voted_round d'
       then bind_h (lift_h (\<lambda>_. verify_and_update_last_vote_round (to_round timeout) d')) (\<lambda>d2.
            on_storage (set_safety_data d2))
       else return_h ()"
  have recd: "triple ?P (?upd d) (\<lambda>_. ?Q) ?E" if ok: "timeout_allowed c (sr_epoch_state sr0) d timeout tc"
  proof (cases "to_round timeout > last_voted_round d")
    case True
    then have eq: "verify_and_update_last_vote_round (to_round timeout) d = Ok (timeout_data d timeout)"
      by (auto simp: verify_and_update_last_vote_round_def timeout_data_def max_def)
    show ?thesis unfolding eq if_P [OF True]
    proof (rule triple_bind_h)
      show "triple ?P (lift_h (\<lambda>_. Ok (timeout_data d timeout))) (\<lambda>d2 sr. d2 = timeout_data d timeout \<and> ?P sr) ?E"
        by (rule triple_lift_h) simp_all
      show "triple (\<lambda>sr. d2 = timeout_data d timeout \<and> ?P sr) (on_storage (set_safety_data d2)) (\<lambda>_. ?Q) ?E" for d2
        by (rule triple_pre, rule triple_weaken [OF triple_set_safety_data [of "Some d" sr0]])
          (use ok in \<open>auto simp: timeout_recorded_def\<close>)
    qed
  next
    case False
    then have same: "timeout_data d timeout = d" by (simp add: timeout_data_def max_def)
    show ?thesis using ok False by (auto intro!: triple_return_h simp: timeout_recorded_def same)
  qed
  have checked: "triple ?P (lift_h (?check d))
      (\<lambda>_ sr. timeout_allowed c (sr_epoch_state sr0) d timeout tc \<and> ?P sr) ?P"
    by (rule triple_lift_h)
      (auto simp: result_simps timeout_allowed_def tc_checked_def verify_epoch_def sr_epoch_def
        verify_maybe_tc_def sr_verify_tc_def at_dataD(3) split: if_splits option.splits)
  show "triple ?P (bind_h (on_storage pss_safety_data) (\<lambda>d'.
     bind_h (lift_h (?check d')) (\<lambda>_.
     bind_h (?upd d') (\<lambda>_.
     lift_h (sr_sign c (msg_timeout (signing_format timeout))))))) (\<lambda>_. ?Q) ?E"
  proof (rule triple_bind_h [OF weaken [OF triple_safety_data]], rule triple_pre)
    fix d'
    assume "Some d = Some d'"
    then have d': "d' = d" by simp
    show "triple ?P (bind_h (lift_h (?check d')) (\<lambda>_. bind_h (?upd d') (\<lambda>_.
        lift_h (sr_sign c (msg_timeout (signing_format timeout)))))) (\<lambda>_. ?Q) ?E"
      unfolding d'
    proof (rule triple_bind_h [OF weaken [OF checked]], rule triple_pre, rule triple_bind_h [OF recd])
      show "triple ?Q (lift_h (sr_sign c (msg_timeout (signing_format timeout)))) (\<lambda>_. ?Q) ?E"
        by (rule triple_lift_h) blast+
    qed
  qed
qed

section \<open>The other operations\<close>

lemma triple_sign_proposal:
  "triple (at_data D sr0) (sign_proposal c bd)
     (\<lambda>_ sr. (\<exists>d. D = Some d \<and> bd_epoch bd = sfd_epoch d \<and> last_voted_round d < bd_round bd \<and>
        preferred_round d \<le> bi_round (certified_block (bd_quorum_cert bd))) \<and> at_data D sr0 sr)
     (at_data D sr0)"
  unfolding sign_proposal_def
  by (rule triple_bind_h, rule triple_lift_h [where Q = "\<lambda>_. at_data D sr0"], assumption, assumption,
      rule triple_bind_h, rule triple_lift_h [where Q = "\<lambda>_. at_data D sr0"], assumption, assumption,
      rule triple_bind_h [OF triple_safety_data], rule triple_pre, rule triple_lift_h)
    (auto simp: result_simps verify_epoch_def verify_and_update_preferred_round_def Let_def split: if_splits)

lemma sign_commit_vote_state: "snd (sign_commit_vote c l li sr) = sr"
  by (simp add: sign_commit_vote_def lift_h_def)

lemma sign_commit_vote_Ok:
  assumes "sign_commit_vote c l li sr = (Ok s, sr')"
  shows "is_ordered_only (lis_commit_info l)" "match_ordered_only (lis_commit_info l) (commit_info li)"
    "\<exists>es. sr_epoch_state sr = Some es \<and> lis_verify_signatures c l (es_verifier es) = Ok ()"
  using assms
  by (auto simp: sign_commit_vote_def result_simps Let_def sr_epoch_def lis_commit_info_def)

text \<open>Initialization: the epoch state comes from the proof, and the data are reset only in a later epoch.\<close>

definition installs :: "crypto \<Rightarrow> epoch_change_proof \<Rightarrow> epoch_state \<Rightarrow> bool" where
  "installs c proof es \<longleftrightarrow>
     (\<exists>w li. ecp_verify c proof (waypoint_verifier c w) = Ok li \<and>
        li_next_epoch_state (lis_ledger_info li) = Some es)"

lemma installsI:
  "ecp_verify c proof (waypoint_verifier c w) = Ok li \<Longrightarrow> li_next_epoch_state (lis_ledger_info li) = Some es \<Longrightarrow>
   installs c proof es"
  unfolding installs_def by blast

definition init_data :: "safety_data \<Rightarrow> epoch_state \<Rightarrow> safety_data" where
  "init_data d es =
     (if sfd_epoch d < es_epoch es then safety_data_new (es_epoch es) 0 0 0 None else d)"

definition initialized :: "safety_data \<Rightarrow> epoch_state \<Rightarrow> safety_rules \<Rightarrow> bool" where
  "initialized d es sr \<longleftrightarrow>
     sr_coherent sr \<and> sr_data sr = Some (init_data d es) \<and> sr_epoch_state sr = Some es"

definition init_failed :: "crypto \<Rightarrow> epoch_change_proof \<Rightarrow> safety_rules \<Rightarrow> safety_data \<Rightarrow> safety_rules \<Rightarrow> bool" where
  "init_failed c proof sr0 d sr \<longleftrightarrow>
     at_data (Some d) sr0 sr \<or>
     (\<exists>es. installs c proof es \<and> sfd_epoch d \<le> es_epoch es \<and>
        (at_data (Some (init_data d es)) sr0 sr \<or> initialized d es sr))"

lemma initialized_same:
  "initialized d es sr \<Longrightarrow> same_data (sr_persistent_storage sr) ps' \<Longrightarrow>
   initialized d es (sr\<lparr>sr_persistent_storage := ps'\<rparr>)"
  by (auto simp: initialized_def same_data_def sr_data_def sr_coherent_def)

lemma initialized_signer [simp]: "initialized d es (sr\<lparr>sr_validator_signer := x\<rparr>) = initialized d es sr"
  by (simp add: initialized_def sr_data_def sr_coherent_def)

lemma triple_reconcile_key:
  "triple (initialized d es) (drop_signer_on_error (reconcile_key c es author)) (\<lambda>_. initialized d es) (initialized d es)"
proof -
  have "initialized d es (snd (reconcile_key c es author sr))" if "initialized d es sr" for sr
  proof (cases "get_public_key (es_verifier es) author")
    case None
    then show ?thesis using that by (simp add: reconcile_key_def)
  next
    case (Some k)
    obtain r ps' where run: "consensus_key_for_version c k (sr_persistent_storage sr) = (r, ps')"
      by (cases "consensus_key_for_version c k (sr_persistent_storage sr)")
    have "initialized d es (sr\<lparr>sr_persistent_storage := ps'\<rparr>)"
      using initialized_same [OF that] consensus_key_same [of "sr_persistent_storage sr" c k] run by simp
    then show ?thesis using that Some
      by (auto simp: reconcile_key_def on_storage_eq run split: result.split safety_error.split)
  qed
  then show ?thesis
    by (auto simp: triple_def drop_signer_on_error_def split: prod.splits result.splits) (metis initialized_signer snd_conv)+
qed

lemma triple_initialized_read:
  assumes "\<And>ps. same_data ps (snd (m ps))"
  shows "triple (initialized d es) (on_storage m) (\<lambda>_. initialized d es) (initialized d es)"
  using initialized_same [OF _ assms] by (auto simp: triple_def on_storage_eq split: result.split)

lemma triple_initialize:
  "triple (at_data (Some d) sr0) (sr_initialize c proof)
     (\<lambda>_ sr. \<exists>es. installs c proof es \<and> sfd_epoch d \<le> es_epoch es \<and> initialized d es sr)
     (init_failed c proof sr0 d)"
  (is "triple ?P _ ?Q ?E")
  unfolding sr_initialize_def
proof (rule triple_bind_h)
  have weaken: "triple P m R ?P \<Longrightarrow> triple P m R ?E"
    for P R and m :: "(safety_rules, 'x, safety_error) handler"
    by (erule triple_weaken) (auto simp: init_failed_def)
  show "triple ?P (on_storage pss_waypoint) (\<lambda>_. ?P) ?E"
    by (rule weaken [OF triple_read [OF pss_waypoint_same]])
  fix w
  show "triple ?P (bind_h (lift_h (\<lambda>_.
       and_then (map_err InvalidEpochChangeProof (ecp_verify c proof (waypoint_verifier c w))) (\<lambda>last_li.
       let li = lis_ledger_info last_li in
       and_then (ok_or (li_next_epoch_state li) InvalidLedgerInfo) (\<lambda>es.
       and_then (map_err InternalError (waypoint_new_epoch_boundary c li)) (\<lambda>new_waypoint.
       Ok (es, new_waypoint)))))) (\<lambda>(es, new_waypoint).
     bind_h (if wp_version new_waypoint > wp_version w then on_storage (set_waypoint new_waypoint)
             else return_h ()) (\<lambda>_.
     bind_h (on_storage pss_safety_data) (\<lambda>d.
     bind_h (if sfd_epoch d > es_epoch es
       then throw_h (WaypointOutOfDate (wp_version w) (wp_version new_waypoint) (sfd_epoch d) (es_epoch es))
       else if sfd_epoch d < es_epoch es
       then on_storage (set_safety_data (safety_data_new (es_epoch es) 0 0 0 None))
       else return_h ()) (\<lambda>_.
     bind_h (modify_h (\<lambda>sr. sr\<lparr>sr_epoch_state := Some es\<rparr>)) (\<lambda>_.
     bind_h (on_storage pss_author) (\<lambda>author.
     drop_signer_on_error (reconcile_key c es author)))))))) ?Q ?E" (is "triple ?P (bind_h ?lift ?rest) ?Q ?E")
  proof (rule triple_bind_h)
    show "triple ?P ?lift (\<lambda>x sr. installs c proof (fst x) \<and> ?P sr) ?E"
      by (rule weaken, rule triple_lift_h) (auto simp: result_simps Let_def intro: installsI)
    fix x :: "epoch_state \<times> waypoint"
    obtain es nw where x: "x = (es, nw)" by (cases x)
    show "triple (\<lambda>sr. installs c proof (fst x) \<and> ?P sr) (?rest x) ?Q ?E"
      unfolding x case_prod_conv fst_conv
    proof (rule triple_pre, rule triple_bind_h)
      assume inst: "installs c proof es"
      show "triple ?P (if wp_version nw > wp_version w then on_storage (set_waypoint nw) else return_h ()) (\<lambda>_. ?P) ?E"
        using weaken [OF triple_read [OF set_waypoint_same]] by (auto intro!: triple_return_h)
      let ?B = "\<lambda>sr. sfd_epoch d \<le> es_epoch es \<and> at_data (Some (init_data d es)) sr0 sr"
      have fresh: "triple ?P (if sfd_epoch d > es_epoch es
         then throw_h (WaypointOutOfDate (wp_version w) (wp_version nw) (sfd_epoch d) (es_epoch es))
         else if sfd_epoch d < es_epoch es
         then on_storage (set_safety_data (safety_data_new (es_epoch es) 0 0 0 None))
         else return_h ()) (\<lambda>_. ?B) ?E"
      proof (cases "sfd_epoch d" "es_epoch es" rule: linorder_cases)
        case less
        then have eq: "init_data d es = safety_data_new (es_epoch es) 0 0 0 None" by (simp add: init_data_def)
        have "triple ?P (on_storage (set_safety_data (safety_data_new (es_epoch es) 0 0 0 None))) (\<lambda>_. ?B) ?E"
          by (rule triple_weaken [OF triple_set_safety_data [of "Some d" sr0]])
            (use less inst eq in \<open>auto simp: init_failed_def\<close>)
        then show ?thesis using less by auto
      next
        case equal
        then have "init_data d es = d" by (simp add: init_data_def)
        then show ?thesis using equal by (auto intro!: triple_return_h)
      next
        case greater
        then show ?thesis by (auto intro!: triple_throw_h simp: init_failed_def)
      qed
      have keep: "triple (initialized d es) m (\<lambda>_. initialized d es) (initialized d es) \<Longrightarrow>
          sfd_epoch d \<le> es_epoch es \<Longrightarrow> triple (initialized d es) m (\<lambda>_. initialized d es) ?E"
        for m :: "(safety_rules, 'x, safety_error) handler"
        by (erule triple_weaken) (use inst in \<open>auto simp: init_failed_def\<close>)
      have tail: "triple ?B (bind_h (modify_h (\<lambda>sr. sr\<lparr>sr_epoch_state := Some es\<rparr>)) (\<lambda>_.
          bind_h (on_storage pss_author) (\<lambda>author. drop_signer_on_error (reconcile_key c es author)))) ?Q ?E"
      proof (rule triple_pre, rule triple_bind_h)
        assume le: "sfd_epoch d \<le> es_epoch es"
        show "triple (at_data (Some (init_data d es)) sr0) (modify_h (\<lambda>sr. sr\<lparr>sr_epoch_state := Some es\<rparr>))
            (\<lambda>_. initialized d es) ?E"
          by (rule triple_modify_h) (auto simp: at_data_def initialized_def sr_data_def sr_coherent_def)
        show "triple (initialized d es) (bind_h (on_storage pss_author)
            (\<lambda>author. drop_signer_on_error (reconcile_key c es author))) ?Q ?E"
          by (rule triple_bind_h [OF keep [OF triple_initialized_read [OF pss_author_same] le]],
              rule triple_weaken [OF keep [OF triple_reconcile_key le]])
            (use inst le in auto)
      qed
      show "triple ?P (bind_h (on_storage pss_safety_data) (\<lambda>d.
       bind_h (if sfd_epoch d > es_epoch es
         then throw_h (WaypointOutOfDate (wp_version w) (wp_version nw) (sfd_epoch d) (es_epoch es))
         else if sfd_epoch d < es_epoch es
         then on_storage (set_safety_data (safety_data_new (es_epoch es) 0 0 0 None))
         else return_h ()) (\<lambda>_.
       bind_h (modify_h (\<lambda>sr. sr\<lparr>sr_epoch_state := Some es\<rparr>)) (\<lambda>_.
       bind_h (on_storage pss_author) (\<lambda>author.
       drop_signer_on_error (reconcile_key c es author)))))) ?Q ?E"
        by (rule triple_bind_h [OF weaken [OF triple_safety_data]], rule triple_pre)
          (use triple_bind_h [OF fresh tail] in auto)
    qed
  qed
qed

text \<open>A service that can answer: the data are cached and the next access to the storage succeeds.\<close>

definition sr_ready :: "safety_rules \<Rightarrow> safety_data \<Rightarrow> bool" where
  "sr_ready sr d \<longleftrightarrow>
     enable_cached_safety_data (sr_persistent_storage sr) \<and>
     cached_safety_data (sr_persistent_storage sr) = Some d \<and>
     sr_data sr = Some d \<and> kv_faults (internal_store (sr_persistent_storage sr)) = []"

definition sr_store :: "safety_data \<Rightarrow> safety_rules \<Rightarrow> safety_rules" where
  "sr_store d sr = snd (on_storage (set_safety_data d) sr)"

lemma sr_ready_coherent: "sr_ready sr d \<Longrightarrow> sr_coherent sr"
  by (simp add: sr_ready_def sr_coherent_def coherent_def sr_data_def)

lemma sr_ready_read: "sr_ready sr d \<Longrightarrow> on_storage pss_safety_data sr = (Ok d, sr)"
  by (simp add: sr_ready_def on_storage_eq pss_safety_data_def)

lemma sr_ready_write:
  assumes "sr_ready sr d"
  shows "on_storage (set_safety_data d') sr = (Ok (), sr_store d' sr)" and "sr_ready (sr_store d' sr) d'"
    and "sr_epoch_state (sr_store d' sr) = sr_epoch_state sr"
    and "sr_validator_signer (sr_store d' sr) = sr_validator_signer sr"
    and "key \<noteq> SAFETY_DATA \<Longrightarrow> kv_data (internal_store (sr_persistent_storage (sr_store d' sr))) key =
      kv_data (internal_store (sr_persistent_storage sr)) key"
  using assms
  by (auto simp: sr_ready_def sr_store_def on_storage_eq set_safety_data_def on_store_def focus_h_def kv_set_def
      Let_def next_fault_def drop_fault_def sr_data_def stored_safety_data_def)

lemma construct_and_sign_vote_complete:
  assumes ready: "sr_ready sr d"
    and ok: "vote_allowed c now_usecs (sr_epoch_state sr) (sr_validator_signer sr) d vp tc v"
    and new: "already_voted (b_round (vp_block vp)) d = None"
  shows "construct_and_sign_vote_two_chain c now_usecs vp tc sr = (Ok v, sr_store (voted_data d vp v) sr)"
proof -
  obtain es s where es: "sr_epoch_state sr = Some es" and s: "sr_validator_signer sr = Some s"
    using ok by (auto simp: vote_allowed_def)
  have tc: "verify_maybe_tc c tc sr = Ok ()"
    using ok es by (auto simp: vote_allowed_def verify_maybe_tc_def sr_verify_tc_def sr_epoch_def ok_or_def
        split: option.split)
  have vp: "verify_proposal c now_usecs vp sr = (Ok (v_vote_data v), sr)"
    using ok es s sr_ready_read [OF ready]
    by (auto simp: vote_allowed_def verify_proposal_def bind_h_def lift_h_def sr_epoch_def ok_or_def
        verify_epoch_def sr_verify_qc_def Let_def)
  have upd: "new_vote_data vp tc d = Ok (snd (observe_qc (b_quorum_cert (vp_block vp))
      (d\<lparr>last_voted_round := b_round (vp_block vp)\<rparr>)))"
    using ok by (auto simp: vote_allowed_def new_vote_data_def verify_and_update_last_vote_round_def)
  have "vote_new_with_signature (v_vote_data v) (vs_author s) (v_ledger_info v) (v_signature v) = v"
    using ok s by (cases v) (auto simp: vote_allowed_def vote_new_with_signature_def)
  then have "make_vote c vp (v_vote_data v) sr = Ok v"
    using ok s es by (auto simp: vote_allowed_def make_vote_def sr_signer_def sr_sign_def ok_or_def)
  then show ?thesis
    using vp tc upd s sr_ready_read [OF ready] sr_ready_write(1) [OF ready] new
    by (simp add: construct_and_sign_vote_two_chain_def bind_h_def lift_h_def sr_signer_def ok_or_def
        sign_new_vote_def return_h_def voted_data_def)
qed


lemma sign_timeout_complete:
  assumes ready: "sr_ready sr d" and ok: "timeout_allowed c (sr_epoch_state sr) d timeout tc"
    and s: "sr_validator_signer sr = Some signer" "timeout_sign c timeout signer = Ok s"
  shows "\<exists>sr'. sign_timeout_with_qc c timeout tc sr = (Ok s, sr') \<and> sr_ready sr' (timeout_data d timeout) \<and>
    sr_epoch_state sr' = sr_epoch_state sr \<and> sr_validator_signer sr' = sr_validator_signer sr \<and>
    kv_data (internal_store (sr_persistent_storage sr')) OWNER_ACCOUNT =
      kv_data (internal_store (sr_persistent_storage sr)) OWNER_ACCOUNT"
proof -
  obtain es where es: "sr_epoch_state sr = Some es" "to_epoch timeout = sfd_epoch d"
    "timeout_verify c timeout (es_verifier es) = Ok ()" "safe_to_timeout timeout tc d = Ok ()"
    "last_voted_round d \<le> to_round timeout"
    using ok by (auto simp: timeout_allowed_def)
  have tc: "verify_maybe_tc c tc sr = Ok ()"
    using ok es by (auto simp: timeout_allowed_def tc_checked_def verify_maybe_tc_def sr_verify_tc_def sr_epoch_def ok_or_def
        split: option.split)
  let ?sr' = "if to_round timeout > last_voted_round d then sr_store (timeout_data d timeout) sr else sr"
  have d: "d\<lparr>last_voted_round := to_round timeout\<rparr> = timeout_data d timeout"
    using es(5) by (simp add: timeout_data_def max_absorb2)
  have same: "timeout_data d timeout = d" if "\<not> to_round timeout > last_voted_round d"
    using that es(5) by (simp add: timeout_data_def)
  have "sign_timeout_with_qc c timeout tc sr = (Ok s, ?sr')"
    using es tc s sr_ready_read [OF ready] sr_ready_write [OF ready]
    by (simp add: sign_timeout_with_qc_def bind_h_def lift_h_def sr_signer_def ok_or_def verify_epoch_def sr_epoch_def
        verify_and_update_last_vote_round_def return_h_def sr_sign_def timeout_sign_def d not_less)
  moreover have "sr_ready ?sr' (timeout_data d timeout)"
    using ready sr_ready_write(2) [OF ready] by (simp add: same)
  ultimately show ?thesis using sr_ready_write(3-5) [OF ready] by auto
qed

section \<open>A sample proposal\<close>

text \<open>The sample validators at work: a genesis certificate, blocks on a certificate, and their votes.\<close>

definition sample_hash :: "message \<Rightarrow> hash_value" where
  "sample_hash m =
     sha3_256 sample_crypto (default_hasher_new (sha3_256 sample_crypto) (str_bytes (type_name m)) @ sample_bcs (contents m))"

definition sample_qc :: "vote_data \<Rightarrow> block_info \<Rightarrow> quorum_cert" where
  "sample_qc vd committed =
     \<lparr>qc_vote_data = vd,
      qc_signed_ledger_info =
        sample_signed \<lparr>commit_info = committed, consensus_data_hash = sample_hash (msg_vote_data vd)\<rparr>\<rparr>"

definition sample_genesis_info :: block_info where
  "sample_genesis_info = block_info_empty\<lparr>bi_epoch := 1\<rparr>"

definition sample_genesis_qc :: quorum_cert where
  "sample_genesis_qc =
     (let vd = \<lparr>vd_proposed = sample_genesis_info, vd_parent = sample_genesis_info\<rparr> in
      \<lparr>qc_vote_data = vd,
       qc_signed_ledger_info =
         \<lparr>lis_ledger_info = \<lparr>commit_info = sample_genesis_info, consensus_data_hash = sample_hash (msg_vote_data vd)\<rparr>,
          lis_signatures = aggregate_signature_empty\<rparr>\<rparr>)"

definition sample_signer :: "author \<Rightarrow> validator_signer" where
  "sample_signer a = \<lparr>vs_author = a, vs_private_key = [ucast a]\<rparr>"

definition sample_sign :: "author \<Rightarrow> message \<Rightarrow> bls_signature" where
  "sample_sign a m = (case sk_sign sample_crypto [ucast a] m of Ok s \<Rightarrow> s | _ \<Rightarrow> [])"

text \<open>Validator 1 proposes an empty block in the round after the certificate's.\<close>

definition sample_block :: "quorum_cert \<Rightarrow> block" where
  "sample_block qc =
     (let parent = certified_block qc;
          bd = bd_new_proposal (DirectMempool []) 1 [] (bi_round parent + 1) (bi_timestamp_usecs parent + 1) qc in
      \<lparr>b_id = sample_hash (msg_block_data bd), b_block_data = bd,
       b_signature = Some (sample_sign 1 (msg_block_data bd))\<rparr>)"

definition sample_vote_proposal :: "quorum_cert \<Rightarrow> vote_proposal" where
  "sample_vote_proposal qc =
     \<lparr>vp_accumulator_extension_proof = \<lparr>aep_frozen_subtree_roots = [], aep_num_leaves = 0, aep_leaves = []\<rparr>,
      vp_block = sample_block qc, vp_next_epoch_state = None, vp_decoupled_execution = True\<rparr>"

definition sample_vote :: "author \<Rightarrow> quorum_cert \<Rightarrow> vote" where
  "sample_vote a qc =
     (let vd = vote_data_ordering_only (sample_vote_proposal qc);
          li = \<lparr>commit_info = certified_block qc, consensus_data_hash = sample_hash (msg_vote_data vd)\<rparr> in
      vote_new_with_signature vd a li (sample_sign a (msg_ledger_info li)))"

lemma crypto_hash_sample [simp]: "crypto_hash sample_crypto m = Ok (sample_hash m)"
  by (simp add: crypto_hash_def sample_hash_def expect_def) (simp add: sample_crypto_def)

lemma sample_sign_Ok [simp]: "signer_sign sample_crypto (sample_signer a) m = Ok (sample_sign a m)"
  by (simp add: signer_sign_def sample_signer_def sample_sign_def sk_sign_def signing_message_def ok_or_def)
    (simp add: sample_crypto_def)

lemma sample_genesis_qc_verifies [simp]: "qc_verify sample_crypto sample_genesis_qc sample_verifier = Ok ()"
proof -
  have "lis_get_num_voters (qc_signed_ledger_info sample_genesis_qc) = 0"
    by (simp add: sample_genesis_qc_def Let_def lis_get_num_voters_def) code_simp
  then show ?thesis
    by (simp add: qc_verify_def ensure_def)
      (simp add: sample_genesis_qc_def certified_block_def parent_block_def qc_commit_info_def sample_genesis_info_def
        block_info_empty_def Let_def)
qed

lemma sample_qc_verifies:
  "bi_round (vd_proposed vd) \<noteq> 0 \<Longrightarrow> vote_data_verify vd = Ok () \<Longrightarrow>
   qc_verify sample_crypto (sample_qc vd committed) sample_verifier = Ok ()"
  by (simp add: qc_verify_def ensure_def sample_qc_def certified_block_def sample_signed_def lis_verify_signatures_def
      sample_cert_ok)

text \<open>Certificates on which the sample block is well-formed.\<close>

definition sample_parent :: "quorum_cert \<Rightarrow> bool" where
  "sample_parent qc \<longleftrightarrow>
     qc_verify sample_crypto qc sample_verifier = Ok () \<and> bi_epoch (certified_block qc) = 1 \<and>
     bi_round (certified_block qc) < 100 \<and> bi_timestamp_usecs (certified_block qc) < 100 \<and>
     bi_next_epoch_state (certified_block qc) = None \<and> \<not> qc_ends_epoch qc"

lemma checked_add_0: "checked_add (x :: u64) 0 = Some x"
  using unsigned_less [of x] by (simp add: checked_add_def)

lemma small_word_succ:
  fixes x :: u64
  assumes "x < 100"
  shows "x < x + 1" "x + 1 \<le> saturating_add 100 TIMEBOUND" "checked_add x 1 = Some (x + 1)"
proof -
  have x: "unat x < 100" using assms by (simp add: word_less_nat_alt)
  then have s: "unat (x + 1) = unat x + 1" by (simp add: unat_word_ariths)
  show "x < x + 1" by (simp add: word_less_nat_alt s)
  have "saturating_add 100 TIMEBOUND = (300000100 :: u64)" by (simp add: TIMEBOUND_def) code_simp
  then show "x + 1 \<le> saturating_add 100 TIMEBOUND" using x by (simp add: word_le_nat_alt s)
  show "checked_add x 1 = Some (x + 1)" using x by (simp add: checked_add_def s)
qed

lemma sample_block_simps [simp]:
  "b_epoch (sample_block qc) = bi_epoch (certified_block qc)"
  "b_round (sample_block qc) = bi_round (certified_block qc) + 1"
  "b_timestamp_usecs (sample_block qc) = bi_timestamp_usecs (certified_block qc) + 1"
  "b_quorum_cert (sample_block qc) = qc"
  "\<not> is_genesis_block (sample_block qc)" "\<not> is_nil_block (sample_block qc)"
  "bd_failed_authors (b_block_data (sample_block qc)) = Some []"
  "b_payload (sample_block qc) = Some (DirectMempool [])"
  "vp_block (sample_vote_proposal qc) = sample_block qc"
  by (simp_all add: sample_block_def Let_def b_epoch_def b_round_def b_timestamp_usecs_def b_quorum_cert_def
      is_genesis_block_def bd_is_genesis_block_def is_nil_block_def bd_is_nil_block_def bd_failed_authors_def
      b_payload_def bd_payload_def bd_new_proposal_def sample_vote_proposal_def)

lemma sample_block_well_formed:
  assumes "sample_parent qc"
  shows "verify_well_formed 100 (sample_block qc) = Ok ()"
    and "validate_signature sample_crypto (sample_block qc) sample_verifier = Ok ()"
proof -
  have p: "bi_round (certified_block qc) < 100" "bi_timestamp_usecs (certified_block qc) < 100"
    "bi_next_epoch_state (certified_block qc) = None" "\<not> qc_ends_epoch qc"
    "qc_verify sample_crypto qc sample_verifier = Ok ()"
    using assms by (auto simp: sample_parent_def)
  note r = small_word_succ [OF p(1)] and t = small_word_succ [OF p(2)]
  show "verify_well_formed 100 (sample_block qc) = Ok ()"
    using r t p(3,4)
    by (simp add: verify_well_formed_def ensure_def has_reconfiguration_def plus_or_panic_def check_failed_authors_def
        checked_sub_def ok_or_def expect_def checked_add_0 Let_def)
  show "validate_signature sample_crypto (sample_block qc) sample_verifier = Ok ()"
    using p(5) sample_signature_verifies [of 1]
    by (simp add: validate_signature_def)
      (simp add: sample_block_def Let_def bd_new_proposal_def ok_or_def sample_sign_def b_quorum_cert_def)
qed

lemma sample_vote_allowed:
  assumes p: "sample_parent qc" and d: "sfd_epoch d = 1" "last_voted_round d \<le> bi_round (certified_block qc)"
  shows "vote_allowed sample_crypto 100 (Some (sample_epoch_state 1)) (Some (sample_signer a)) d
    (sample_vote_proposal qc) None (sample_vote a qc)"
proof -
  have q: "bi_round (certified_block qc) < 100" "bi_epoch (certified_block qc) = 1"
    "qc_verify sample_crypto qc sample_verifier = Ok ()"
    using p by (auto simp: sample_parent_def)
  note r = small_word_succ [OF q(1)]
  have n: "next_round (bi_round (certified_block qc)) = Ok (bi_round (certified_block qc) + 1)"
    using r(3) by (simp add: next_round_def ok_or_def)
  have l: "last_voted_round d < bi_round (certified_block qc) + 1" using d(2) r(1) by (rule order.strict_trans1)
  have "gen_vote_data sample_crypto (sample_vote_proposal qc) = Ok (vote_data_ordering_only (sample_vote_proposal qc))"
    by (simp add: gen_vote_data_def) (simp add: sample_vote_proposal_def)
  then show ?thesis
    using q d l n sample_block_well_formed [OF p]
    by (simp add: vote_allowed_def sample_epoch_state_def safe_to_vote_def construct_ledger_info_2chain_def Let_def
        sample_vote_def vote_new_with_signature_def) (simp add: sample_signer_def)
qed

lemma sample_parent_genesis [simp]: "sample_parent sample_genesis_qc"
  by (simp add: sample_parent_def)
    (simp add: sample_genesis_qc_def sample_genesis_info_def certified_block_def qc_ends_epoch_def
      ends_epoch_def li_next_epoch_state_def block_info_empty_def Let_def)

text \<open>
  The voting rule on the rounds as numbers: the block directly follows its parent, or it directly
  follows the round of a timeout certificate none of whose signers knew a certificate newer than the
  parent's.
\<close>

definition vote_rule :: "block \<Rightarrow> two_chain_timeout_certificate option \<Rightarrow> bool" where
  "vote_rule b tc \<longleftrightarrow>
     (let parent_round = unat (bi_round (certified_block (b_quorum_cert b))) in
      unat (b_round b) = parent_round + 1 \<or>
      (\<exists>t. tc = Some t \<and> unat (b_round b) = unat (to_round (tc_timeout t)) + 1 \<and>
         unat (bi_round (certified_block (to_quorum_cert (tc_timeout t)))) \<le> parent_round))"

text \<open>
  What a vote says: the block and its parent, with the result of its execution (none if the execution is
  decoupled), and a ledger info that commits the parent exactly when the rounds are consecutive.
\<close>

definition execution_result :: "crypto \<Rightarrow> vote_proposal \<Rightarrow> hash_value \<Rightarrow> version \<Rightarrow> bool" where
  "execution_result c vp root vers \<longleftrightarrow>
     (if vp_decoupled_execution vp then root = ACCUMULATOR_PLACEHOLDER_HASH \<and> vers = 0
      else \<exists>tree. aep_verify (transaction_accumulator_hasher c) (vp_accumulator_extension_proof vp)
          (bi_executed_state_id (certified_block (b_quorum_cert (vp_block vp)))) = Ok tree \<and>
        root = root_hash tree \<and> vers = acc_version tree)"

definition vote_for :: "crypto \<Rightarrow> vote_proposal \<Rightarrow> vote \<Rightarrow> bool" where
  "vote_for c vp v \<longleftrightarrow>
     (let b = vp_block vp; parent = certified_block (b_quorum_cert b) in
      \<exists>root vers h.
        execution_result c vp root vers \<and>
        v_vote_data v =
          \<lparr>vd_proposed = \<lparr>bi_epoch = b_epoch b, bi_round = b_round b, bi_id = b_id b, bi_executed_state_id = root,
             bi_version = vers, bi_timestamp_usecs = b_timestamp_usecs b, bi_next_epoch_state = vp_next_epoch_state vp\<rparr>,
           vd_parent = parent\<rparr> \<and>
        message_hash c (msg_vote_data (v_vote_data v)) = Some h \<and>
        v_ledger_info v =
          \<lparr>commit_info = (if unat (b_round b) = unat (bi_round parent) + 1 then parent else block_info_empty),
           consensus_data_hash = h\<rparr>)"

definition may_vote ::
  "crypto \<Rightarrow> u64 \<Rightarrow> epoch_state \<Rightarrow> validator_signer \<Rightarrow> safety_data \<Rightarrow> vote_proposal \<Rightarrow>
   two_chain_timeout_certificate option \<Rightarrow> vote \<Rightarrow> bool" where
  "may_vote c now_usecs es s d vp tc v \<longleftrightarrow>
     (let b = vp_block vp in
      b_epoch b = sfd_epoch d \<and> unat (last_voted_round d) < unat (b_round b) \<and>
      qc_verify c (b_quorum_cert b) (es_verifier es) = Ok () \<and>
      validate_signature c b (es_verifier es) = Ok () \<and> verify_well_formed now_usecs b = Ok () \<and>
      (\<forall>t. tc = Some t \<longrightarrow> tc_verify c t (es_verifier es) = Ok ()) \<and>
      vote_rule b tc \<and> vote_for c vp v \<and>
      sk_sign c (vs_private_key s) (msg_ledger_info (v_ledger_info v)) = Ok (v_signature v) \<and>
      v_author v = vs_author s \<and> v_two_chain_timeout v = None)"

lemma next_round_eq_Ok: "next_round r = Ok r' \<longleftrightarrow> unat r' = unat r + 1"
proof
  assume r: "unat r' = unat r + 1"
  then have fits: "unat r + 1 < 2 ^ LENGTH(64)" using unsigned_less [of r', where ?'a = nat] by simp
  then have "r' = r + 1" using r by (simp add: word_unat_eq_iff unat_word_ariths)
  then show "next_round r = Ok r'" using fits by (simp add: next_round_def checked_add_def ok_or_def)
qed (auto simp: next_round_def result_simps dest!: checked_add_SomeD)

lemma next_round_below:
  assumes "(p :: round) < r"
  obtains q where "next_round p = Ok q" "r = q \<longleftrightarrow> unat r = unat p + 1"
proof -
  have "unat p + 1 < 2 ^ 64" using assms unsigned_less [of r, where ?'a = nat] by (simp add: word_less_nat_alt)
  then have "unat (p + 1) = unat p + 1" by (simp add: unat_word_ariths)
  then show ?thesis using that [of "p + 1"] by (simp add: next_round_eq_Ok word_unat_eq_iff)
qed

lemma safe_to_vote_iff:
  assumes "bi_round (certified_block (b_quorum_cert b)) < b_round b"
  shows "safe_to_vote b tc = Ok () \<longleftrightarrow> vote_rule b tc"
proof -
  let ?p = "bi_round (certified_block (b_quorum_cert b))"
  obtain q where q: "next_round ?p = Ok q" "b_round b = q \<longleftrightarrow> unat (b_round b) = unat ?p + 1"
    by (rule next_round_below [OF assms])
  have lt: "unat ?p < unat (b_round b)" using assms by (simp add: word_less_nat_alt)
  have "safe_to_vote b tc = Ok () \<longleftrightarrow> unat (b_round b) = unat ?p + 1 \<or>
      next_round (maybe_tc_round tc) = Ok (b_round b) \<and> maybe_hqc_round tc \<le> ?p"
    using q by (auto simp: safe_to_vote_def Let_def result_simps split: if_splits)
  then show ?thesis
    using lt by (cases tc) (auto simp: vote_rule_def Let_def maybe_tc_round_def maybe_hqc_round_def next_round_eq_Ok
        tc_round_def highest_hqc_round_def hqc_round_def word_le_nat_alt)
qed

lemma construct_ledger_info_iff:
  assumes "bi_round (certified_block (b_quorum_cert b)) < b_round b"
  shows "construct_ledger_info_2chain b h = Ok li \<longleftrightarrow>
    li = \<lparr>commit_info = (if unat (b_round b) = unat (bi_round (certified_block (b_quorum_cert b))) + 1
                         then certified_block (b_quorum_cert b) else block_info_empty),
          consensus_data_hash = h\<rparr>"
proof -
  obtain q where "next_round (bi_round (certified_block (b_quorum_cert b))) = Ok q"
    "b_round b = q \<longleftrightarrow> unat (b_round b) = unat (bi_round (certified_block (b_quorum_cert b))) + 1"
    by (rule next_round_below [OF assms])
  then show ?thesis by (auto simp: construct_ledger_info_2chain_def Let_def)
qed

lemma gen_vote_data_iff:
  "gen_vote_data c vp = Ok vd \<longleftrightarrow>
   (\<exists>root vers. execution_result c vp root vers \<and>
      vd = \<lparr>vd_proposed = \<lparr>bi_epoch = b_epoch (vp_block vp), bi_round = b_round (vp_block vp), bi_id = b_id (vp_block vp),
              bi_executed_state_id = root, bi_version = vers, bi_timestamp_usecs = b_timestamp_usecs (vp_block vp),
              bi_next_epoch_state = vp_next_epoch_state vp\<rparr>,
            vd_parent = certified_block (b_quorum_cert (vp_block vp))\<rparr>)"
  by (auto simp: gen_vote_data_def execution_result_def vote_data_ordering_only_def vote_data_with_extension_proof_def
      gen_block_info_def result_simps)

lemma vote_allowed_iff_may_vote:
  "vote_allowed c now_usecs (Some es) (Some s) d vp tc v \<longleftrightarrow> may_vote c now_usecs es s d vp tc v"
proof (cases "verify_well_formed now_usecs (vp_block vp) = Ok ()")
  case True
  note lt = verify_well_formed_OkD(2) [OF True]
  note iff = safe_to_vote_iff [OF lt] construct_ledger_info_iff [OF lt] gen_vote_data_iff
  have li: "\<And>x y. (v_ledger_info v = \<lparr>commit_info = x, consensus_data_hash = y\<rparr>) \<longleftrightarrow>
      commit_info (v_ledger_info v) = x \<and> consensus_data_hash (v_ledger_info v) = y" by (cases "v_ledger_info v") auto
  show ?thesis
    unfolding vote_allowed_def may_vote_def vote_for_def Let_def iff crypto_hash_eq_Ok li signer_sign_def word_less_nat_alt
    by auto
qed (simp add: vote_allowed_def may_vote_def Let_def)

text \<open>
  C5. When a vote is made. A service whose data are cached and whose storage answers, and whose last
  recorded vote is not of the proposal's round, returns the vote \<open>v\<close> exactly if: it has an epoch state and
  a signer; the proposal is of its epoch and of a round above the last voted one; the proposal, its
  certificate and the timeout certificate, if one is given, verify; the block directly follows its parent, or it
  directly follows the round of the timeout certificate and the parent's round is no smaller than the highest
  certified round that certificate reports (\<open>vote_rule\<close>); and \<open>v\<close> carries the block, its parent and the
  result of execution, with a signed ledger info over their hash that commits the parent exactly if
  the rounds are consecutive (\<open>vote_for\<close>). The storage then holds that vote, the round of the block as the
  last voted one, and the rounds of the parent and of its parent as lower bounds of the one-chain
  and the preferred round.
\<close>

theorem vote_made_iff_allowed:
  assumes "sr_ready sr d" and "\<forall>u. last_vote d = Some u \<longrightarrow> v_round u \<noteq> b_round (vp_block vp)"
  shows "(\<exists>sr'. construct_and_sign_vote_two_chain c now_usecs vp tc sr = (Ok v, sr') \<and>
      sr_data sr' = Some (d\<lparr>last_voted_round := b_round (vp_block vp),
        one_chain_round := max (one_chain_round d) (bi_round (certified_block (b_quorum_cert (vp_block vp)))),
        preferred_round := max (preferred_round d) (bi_round (parent_block (b_quorum_cert (vp_block vp)))),
        last_vote := Some v\<rparr>)) \<longleftrightarrow>
    (\<exists>es s. sr_epoch_state sr = Some es \<and> sr_validator_signer sr = Some s \<and> may_vote c now_usecs es s d vp tc v)"
  (is "(\<exists>sr'. ?made sr' \<and> sr_data sr' = Some ?d') \<longleftrightarrow> ?may")
proof -
  have d': "voted_data d vp v = ?d'" by (simp add: voted_data_def observe_qc_data)
  have new: "already_voted (b_round (vp_block vp)) d = None"
    using assms(2) by (simp add: already_voted_def split: option.split)
  have may: "?may \<longleftrightarrow> vote_allowed c now_usecs (sr_epoch_state sr) (sr_validator_signer sr) d vp tc v"
    by (cases "sr_epoch_state sr"; cases "sr_validator_signer sr")
      (simp_all add: vote_allowed_iff_may_vote, simp_all add: vote_allowed_def)
  have at: "at_data (Some d) sr sr"
    using at_data_self [OF sr_ready_coherent [OF assms(1)]] assms(1) by (simp add: sr_ready_def)
  show ?thesis
  proof
    assume ?may
    then have "?made (sr_store ?d' sr)"
      using construct_and_sign_vote_complete [OF assms(1) _ new, of c now_usecs tc v] may d' by simp
    then show "\<exists>sr'. ?made sr' \<and> sr_data sr' = Some ?d'"
      using sr_ready_write(2) [OF assms(1), of ?d'] by (auto simp: sr_ready_def)
  next
    assume "\<exists>sr'. ?made sr' \<and> sr_data sr' = Some ?d'"
    then obtain sr' where "?made sr'" by blast
    from tripleD_Ok [OF triple_construct_and_sign_vote at this] show ?may
      using new may by (simp add: vote_recorded_def)
  qed
qed

definition sample_service :: "author \<Rightarrow> safety_rules" where
  "sample_service a =
     (let d = safety_data_new 1 0 0 0 None in
      \<lparr>sr_persistent_storage =
         \<lparr>enable_cached_safety_data = True, cached_safety_data = Some d,
          internal_store = \<lparr>kv_data = [SAFETY_DATA \<mapsto> StoredSafetyData d, OWNER_ACCOUNT \<mapsto> StoredAuthor a,
            CONSENSUS_KEY \<mapsto> StoredKey [ucast a]], kv_faults = []\<rparr>\<rparr>,
       sr_validator_signer = Some (sample_signer a), sr_epoch_state = Some (sample_epoch_state 1)\<rparr>)"

lemma sample_service_ready [simp]:
  "sr_ready (sample_service a) (safety_data_new 1 0 0 0 None)"
  "sr_validator_signer (sample_service a) = Some (sample_signer a)"
  "sr_epoch_state (sample_service a) = Some (sample_epoch_state 1)"
  by (simp_all add: sr_ready_def sample_service_def Let_def sr_data_def stored_safety_data_def)

theorem vote_made_iff_allowed_witness:
  "\<exists>sr'. construct_and_sign_vote_two_chain sample_crypto 100 (sample_vote_proposal sample_genesis_qc) None
      (sample_service 2) = (Ok (sample_vote 2 sample_genesis_qc), sr') \<and>
    (\<exists>d'. sr_data sr' = Some d' \<and> last_voted_round d' = 1 \<and> last_vote d' = Some (sample_vote 2 sample_genesis_qc))"
proof -
  let ?d = "safety_data_new 1 0 0 0 None" and ?vp = "sample_vote_proposal sample_genesis_qc"
  have "vote_allowed sample_crypto 100 (Some (sample_epoch_state 1)) (Some (sample_signer 2)) ?d ?vp None
      (sample_vote 2 sample_genesis_qc)"
    by (rule sample_vote_allowed) (simp_all add: safety_data_new_def)
  moreover have "bi_round (certified_block sample_genesis_qc) = 0"
    by (simp add: sample_genesis_qc_def certified_block_def sample_genesis_info_def block_info_empty_def Let_def)
  moreover have "last_vote ?d = None" by (simp add: safety_data_new_def)
  ultimately show ?thesis
    using vote_made_iff_allowed [of "sample_service 2" ?d ?vp sample_crypto 100 None "sample_vote 2 sample_genesis_qc"]
    by (auto simp: vote_allowed_iff_may_vote)
qed

text \<open>
  C38. A service configured without the cache never votes. It reads the safety data at the type of a
  result rather than of the data, and the JSON object of the data, which has their five fields, does not
  decode as the object of one field \<^verbatim>\<open>Ok\<close> or \<^verbatim>\<open>Err\<close> that a result is: every such read is a deserialization error.
\<close>

theorem uncached_service_never_votes:
  assumes "\<not> enable_cached_safety_data (sr_persistent_storage sr)"
  shows "fst (construct_and_sign_vote_two_chain c now_usecs vp tc sr) \<noteq> Ok v"
proof
  assume "fst (construct_and_sign_vote_two_chain c now_usecs vp tc sr) = Ok v"
  then obtain d ps' where "pss_safety_data (sr_persistent_storage sr) = (Ok d, ps')"
    by (cases "construct_and_sign_vote_two_chain c now_usecs vp tc sr")
      (auto simp: construct_and_sign_vote_two_chain_def verify_proposal_def Let_def result_simps on_storage_def)
  then show False using assms pss_safety_data_enabled by blast
qed

theorem uncached_service_never_votes_witness:
  "fst (construct_and_sign_vote_two_chain sample_crypto 100 (sample_vote_proposal sample_genesis_qc) None
     ((sample_service 2)\<lparr>sr_persistent_storage :=
       (sr_persistent_storage (sample_service 2))\<lparr>enable_cached_safety_data := False\<rparr>\<rparr>)) \<noteq>
   Ok (sample_vote 2 sample_genesis_qc)"
  by (rule uncached_service_never_votes) simp

end
