(* ===== verification/Safety_Service.thy ===== *)
theory Safety_Service
  imports Safety_Rules
begin

text \<open>
  A validator's signing service over its life: the requests of
  \<^verbatim>\<open>consensus/safety-rules/src/serializer.rs\<close>, and restarts, each of which runs the start-up of
  \<^verbatim>\<open>safety_rules_manager.rs\<close>. The invariant \<open>history_inv\<close> relates the stored safety data to
  everything the service has signed; from it follow the two promises the protocol rests on: one
  vote per round, and no timeout that forgets a vote. Both hold under every storage fault of a request, for
  whatever the caller asks, and over every restart that finds its storage initialized; the last section shows that
  a fault of the read at start-up can lose what they rest on.
\<close>

section \<open>Requests\<close>

datatype safety_rules_input =
    ConsensusState
  | Initialize epoch_change_proof
  | SignProposal block_data
  | SignTimeoutWithQC two_chain_timeout "two_chain_timeout_certificate option"
  | ConstructAndSignVoteTwoChain vote_proposal "two_chain_timeout_certificate option"
  | SignCommitVote ledger_info_with_signatures ledger_info

datatype safety_rules_output =
    OutState "(consensus_state, safety_error) result"
  | OutUnit "(unit, safety_error) result"
  | OutSignature "(bls_signature, safety_error) result"
  | OutVote "(vote, safety_error) result"

text \<open>The JSON encoding of requests and replies is left out.\<close>

definition handle_message ::
  "crypto \<Rightarrow> u64 \<Rightarrow> safety_rules_input \<Rightarrow> safety_rules \<Rightarrow> safety_rules_output \<times> safety_rules" where
  "handle_message c now_usecs input sr =
     (case input of
        ConsensusState \<Rightarrow> map_prod OutState id (get_consensus_state sr)
      | Initialize proof \<Rightarrow> map_prod OutUnit id (sr_initialize c proof sr)
      | SignProposal bd \<Rightarrow> map_prod OutSignature id (sign_proposal c bd sr)
      | SignTimeoutWithQC timeout tc \<Rightarrow> map_prod OutSignature id (sign_timeout_with_qc c timeout tc sr)
      | ConstructAndSignVoteTwoChain vp tc \<Rightarrow>
          map_prod OutVote id (construct_and_sign_vote_two_chain c now_usecs vp tc sr)
      | SignCommitVote l li \<Rightarrow> map_prod OutSignature id (sign_commit_vote c l li sr))"

text \<open>What a reply gives out a signature on.\<close>

datatype signed =
    SignedVote vote
  | SignedTimeout two_chain_timeout
  | SignedProposal block_data
  | SignedCommit ledger_info_with_signatures ledger_info

fun signed_by :: "safety_rules_input \<Rightarrow> safety_rules_output \<Rightarrow> signed option" where
  "signed_by (ConstructAndSignVoteTwoChain vp tc) (OutVote (Ok v)) = Some (SignedVote v)"
| "signed_by (SignTimeoutWithQC timeout tc) (OutSignature (Ok s)) = Some (SignedTimeout timeout)"
| "signed_by (SignProposal bd) (OutSignature (Ok s)) = Some (SignedProposal bd)"
| "signed_by (SignCommitVote l li) (OutSignature (Ok s)) = Some (SignedCommit l li)"
| "signed_by _ _ = None"

section \<open>Start-up\<close>

record safety_rules_config =
  cfg_test :: "(author \<times> bls_private_key \<times> waypoint) option"
  cfg_initial :: "(author \<times> bls_private_key \<times> waypoint) option"
  cfg_enable_cached_safety_data :: bool

text \<open>
  \<^verbatim>\<open>storage\<close> on an available backend. The backend is opened a second time before it is initialized;
  both handles read and write the same data.
\<close>

definition manager_storage ::
  "safety_rules_config \<Rightarrow> kv_storage \<Rightarrow> (unit, safety_error) result \<times> persistent_safety_storage" where
  "manager_storage cfg st =
     (let enable = cfg_enable_cached_safety_data cfg in
      case cfg_test cfg of
        Some (author, key, w) \<Rightarrow> pss_initialize author key w enable st
      | None \<Rightarrow>
          (case pss_author (pss_new st enable) of
             (Ok _, ps) \<Rightarrow> (Ok (), ps)
           | (Panic, ps) \<Rightarrow> (Panic, ps)
           | (Err _, ps) \<Rightarrow>
               (case cfg_initial cfg of
                  Some (author, key, w) \<Rightarrow> pss_initialize author key w enable (internal_store ps)
                | None \<Rightarrow> (Panic, ps))))"

text \<open>
  \<^verbatim>\<open>SafetyRulesManager::new\<close>, for the services that run with the validator (\<^verbatim>\<open>Local\<close>, \<^verbatim>\<open>Serializer\<close>,
  \<^verbatim>\<open>Thread\<close>): each wraps a new \<^verbatim>\<open>SafetyRules\<close> over the storage; a service in its own process is started in the
  same way there (\<^verbatim>\<open>process.rs\<close>). The cache, the signer and the epoch state start empty. A start-up that
  panics leaves no running service; what it leaves of the storage is kept for the next start-up.
\<close>

record service =
  sv_running :: bool
  sv_rules :: safety_rules

abbreviation sv_storage :: "service \<Rightarrow> kv_storage" where
  "sv_storage sv \<equiv> internal_store (sr_persistent_storage (sv_rules sv))"

definition manager_new :: "safety_rules_config \<Rightarrow> kv_storage \<Rightarrow> service" where
  "manager_new cfg st =
     (case manager_storage cfg st of (r, ps) \<Rightarrow> \<lparr>sv_running = is_ok r, sv_rules = safety_rules_new ps\<rparr>)"

section \<open>Histories\<close>

text \<open>
  A service is sent requests and is restarted, each time with a configuration of its own. Requests to a service that is
  not running are not answered.
\<close>

datatype service_event = Request u64 safety_rules_input | Restart safety_rules_config

definition request_step ::
  "crypto \<Rightarrow> u64 \<Rightarrow> safety_rules_input \<Rightarrow> safety_rules \<Rightarrow> signed option \<times> safety_rules" where
  "request_step c now_usecs input sr =
     (case handle_message c now_usecs input sr of (out, sr') \<Rightarrow> (signed_by input out, sr'))"

fun service_step :: "crypto \<Rightarrow> service_event \<Rightarrow> service \<Rightarrow> signed option \<times> service" where
  "service_step c (Request now_usecs input) sv =
     (if sv_running sv
      then (case request_step c now_usecs input (sv_rules sv) of (out, sr') \<Rightarrow> (out, sv\<lparr>sv_rules := sr'\<rparr>))
      else (None, sv))"
| "service_step c (Restart cfg) sv = (None, manager_new cfg (sv_storage sv))"

fun service_run :: "crypto \<Rightarrow> service_event list \<Rightarrow> service \<Rightarrow> signed list \<times> service" where
  "service_run c [] sv = ([], sv)"
| "service_run c (e # es) sv =
     (case service_step c e sv of (out, sv') \<Rightarrow>
      case service_run c es sv' of (log, sv'') \<Rightarrow>
      (case out of None \<Rightarrow> log | Some x \<Rightarrow> x # log, sv''))"

text \<open>
  The start-ups that do not initialize the storage again: there is no test configuration, and there is no
  initial configuration either, or the read of the author is answered and finds one. \<open>start_ups_keep\<close> says
  that all start-ups of a history are of this kind.
\<close>

definition finds_author :: "kv_storage \<Rightarrow> bool" where
  "finds_author st \<longleftrightarrow>
     next_fault st = None \<and> (case kv_data st OWNER_ACCOUNT of Some (StoredAuthor _) \<Rightarrow> True | _ \<Rightarrow> False)"

definition start_up_keeps :: "safety_rules_config \<Rightarrow> kv_storage \<Rightarrow> bool" where
  "start_up_keeps cfg st \<longleftrightarrow> cfg_test cfg = None \<and> (cfg_initial cfg = None \<or> finds_author st)"

fun event_keeps :: "service_event \<Rightarrow> service \<Rightarrow> bool" where
  "event_keeps (Request now_usecs input) sv \<longleftrightarrow> True"
| "event_keeps (Restart cfg) sv \<longleftrightarrow> start_up_keeps cfg (sv_storage sv)"

fun start_ups_keep :: "crypto \<Rightarrow> service_event list \<Rightarrow> service \<Rightarrow> bool" where
  "start_ups_keep c [] sv \<longleftrightarrow> True"
| "start_ups_keep c (e # es) sv \<longleftrightarrow> event_keeps e sv \<and> start_ups_keep c es (snd (service_step c e sv))"

definition v_parent_round :: "vote \<Rightarrow> round" where
  "v_parent_round v = bi_round (vd_parent (v_vote_data v))"

text \<open>
  The stored data bound everything signed: \<open>V\<close> are the votes made (a vote whose record reached the
  storage counts as made even if the reply was an error), \<open>T\<close> the timeouts.
\<close>

definition history_inv :: "safety_data \<Rightarrow> vote set \<Rightarrow> two_chain_timeout set \<Rightarrow> bool" where
  "history_inv d V T \<longleftrightarrow>
     (\<forall>v \<in> V. v_epoch v \<le> sfd_epoch d \<and>
        (v_epoch v = sfd_epoch d \<longrightarrow> v_round v \<le> last_voted_round d \<and> v_parent_round v \<le> one_chain_round d \<and>
          (\<exists>lv. last_vote d = Some lv \<and> (v_round v < v_round lv \<or> v = lv)))) \<and>
     (\<forall>lv. last_vote d = Some lv \<longrightarrow> lv \<in> V \<and> v_epoch lv = sfd_epoch d) \<and>
     (\<forall>t \<in> T. to_epoch t \<le> sfd_epoch d \<and> (to_epoch t = sfd_epoch d \<longrightarrow> to_round t \<le> last_voted_round d)) \<and>
     (\<forall>v \<in> V. \<forall>v' \<in> V. v_epoch v = v_epoch v' \<longrightarrow> v_round v = v_round v' \<longrightarrow> v = v') \<and>
     (\<forall>v \<in> V. \<forall>t \<in> T. v_epoch v = to_epoch t \<longrightarrow> v_round v \<le> to_round t \<longrightarrow>
        v_parent_round v \<le> hqc_round t)"

text \<open>Order of safety data: a later epoch, or the same epoch and no smaller rounds.\<close>

definition data_le :: "safety_data \<Rightarrow> safety_data \<Rightarrow> bool" where
  "data_le d d' \<longleftrightarrow>
     sfd_epoch d < sfd_epoch d' \<or>
     sfd_epoch d = sfd_epoch d' \<and> last_voted_round d \<le> last_voted_round d' \<and>
     one_chain_round d \<le> one_chain_round d' \<and> preferred_round d \<le> preferred_round d'"

section \<open>One step\<close>

lemma data_le_refl [simp]: "data_le d d"
  by (simp add: data_le_def)

lemma data_le_trans: "data_le d1 d2 \<Longrightarrow> data_le d2 d3 \<Longrightarrow> data_le d1 d3"
  by (auto simp: data_le_def)

lemma data_le_timeout_data [simp]: "data_le d (timeout_data d t)"
  by (simp add: data_le_def)

lemma data_le_init_data: "sfd_epoch d \<le> es_epoch es \<Longrightarrow> data_le d (init_data d es)"
  by (auto simp: data_le_def init_data_def safety_data_new_def)

lemma gen_vote_data_Ok:
  assumes "gen_vote_data c vp = Ok vd"
  shows "vd_parent vd = certified_block (b_quorum_cert (vp_block vp))"
    and "bi_round (vd_proposed vd) = b_round (vp_block vp)"
    and "bi_epoch (vd_proposed vd) = b_epoch (vp_block vp)"
    and "bi_id (vd_proposed vd) = b_id (vp_block vp)"
  using assms
  by (auto simp: gen_vote_data_def result_simps vote_data_ordering_only_def vote_data_with_extension_proof_def
      gen_block_info_def split: if_splits)

lemma vote_allowed_facts:
  assumes "vote_allowed c now_usecs epoch_state signer d vp tc v"
  shows "v_epoch v = sfd_epoch d" and "v_round v = b_round (vp_block vp)"
    and "v_parent_round v = bi_round (certified_block (b_quorum_cert (vp_block vp)))"
    and "last_voted_round d < v_round v"
  using assms gen_vote_data_Ok [of c vp "v_vote_data v"]
  by (auto simp: vote_allowed_def v_epoch_def v_round_def v_parent_round_def)

lemma data_le_voted_data:
  "vote_allowed c now_usecs es sg d vp tc v \<Longrightarrow> data_le d (voted_data d vp v)"
  by (auto simp: data_le_def vote_allowed_def)

lemma history_invI:
  assumes "\<And>v. v \<in> V \<Longrightarrow> v_epoch v \<le> sfd_epoch d"
    and "\<And>v. v \<in> V \<Longrightarrow> v_epoch v = sfd_epoch d \<Longrightarrow> v_round v \<le> last_voted_round d"
    and "\<And>v. v \<in> V \<Longrightarrow> v_epoch v = sfd_epoch d \<Longrightarrow> v_parent_round v \<le> one_chain_round d"
    and "\<And>v. v \<in> V \<Longrightarrow> v_epoch v = sfd_epoch d \<Longrightarrow>
      \<exists>lv. last_vote d = Some lv \<and> (v_round v < v_round lv \<or> v = lv)"
    and "\<And>lv. last_vote d = Some lv \<Longrightarrow> lv \<in> V \<and> v_epoch lv = sfd_epoch d"
    and "\<And>t. t \<in> T \<Longrightarrow> to_epoch t \<le> sfd_epoch d"
    and "\<And>t. t \<in> T \<Longrightarrow> to_epoch t = sfd_epoch d \<Longrightarrow> to_round t \<le> last_voted_round d"
    and "\<And>v v'. v \<in> V \<Longrightarrow> v' \<in> V \<Longrightarrow> v_epoch v = v_epoch v' \<Longrightarrow> v_round v = v_round v' \<Longrightarrow> v = v'"
    and "\<And>v t. v \<in> V \<Longrightarrow> t \<in> T \<Longrightarrow> v_epoch v = to_epoch t \<Longrightarrow> v_round v \<le> to_round t \<Longrightarrow>
      v_parent_round v \<le> hqc_round t"
  shows "history_inv d V T"
  unfolding history_inv_def using assms by blast

lemma history_invD:
  assumes "history_inv d V T"
  shows "v \<in> V \<Longrightarrow> v_epoch v \<le> sfd_epoch d"
    and "v \<in> V \<Longrightarrow> v_epoch v = sfd_epoch d \<Longrightarrow> v_round v \<le> last_voted_round d"
    and "v \<in> V \<Longrightarrow> v_epoch v = sfd_epoch d \<Longrightarrow> v_parent_round v \<le> one_chain_round d"
    and "v \<in> V \<Longrightarrow> v_epoch v = sfd_epoch d \<Longrightarrow>
      \<exists>lv. last_vote d = Some lv \<and> (v_round v < v_round lv \<or> v = lv)"
    and "last_vote d = Some v \<Longrightarrow> v \<in> V"
    and "last_vote d = Some v \<Longrightarrow> v_epoch v = sfd_epoch d"
    and "t \<in> T \<Longrightarrow> to_epoch t \<le> sfd_epoch d"
    and "t \<in> T \<Longrightarrow> to_epoch t = sfd_epoch d \<Longrightarrow> to_round t \<le> last_voted_round d"
    and "v \<in> V \<Longrightarrow> v' \<in> V \<Longrightarrow> v_epoch v = v_epoch v' \<Longrightarrow> v_round v = v_round v' \<Longrightarrow> v = v'"
    and "v \<in> V \<Longrightarrow> t \<in> T \<Longrightarrow> v_epoch v = to_epoch t \<Longrightarrow> v_round v \<le> to_round t \<Longrightarrow>
      v_parent_round v \<le> hqc_round t"
  using assms unfolding history_inv_def by blast+

lemma history_inv_vote:
  assumes inv: "history_inv d V T" and ok: "vote_allowed c now_usecs es sg d vp tc v"
  shows "history_inv (voted_data d vp v) (insert v V) T"
proof -
  note f = vote_allowed_facts [OF ok] and I = history_invD [OF inv]
  have lvr: "last_voted_round (voted_data d vp v) = v_round v"
    and ocr: "one_chain_round (voted_data d vp v) = max (one_chain_round d) (v_parent_round v)"
    using f by simp_all
  have less: "v_round u < v_round v" if "u \<in> V" "v_epoch u = sfd_epoch d" for u
    using I(2) [OF that] f(4) by (rule order.strict_trans1)
  have tless: "to_round t < v_round v" if "t \<in> T" "to_epoch t = sfd_epoch d" for t
    using I(8) [OF that] f(4) by (rule order.strict_trans1)
  show ?thesis
  proof (rule history_invI, goal_cases)
    case (1 u) then show ?case using I(1) f(1) by auto
  next
    case (2 u) then show ?case unfolding lvr using less by (auto intro: less_imp_le)
  next
    case (3 u) then show ?case unfolding ocr using I(3) by (auto simp: le_max_iff_disj)
  next
    case (4 u) then show ?case using less by auto
  next
    case (5 u) then show ?case using f(1) by simp
  next
    case (6 t) then show ?case using I(7) by simp
  next
    case (7 t) then show ?case unfolding lvr using tless by (auto intro: less_imp_le)
  next
    case (8 u u') then show ?case using I(9) less f(1) by (metis insertE less_irrefl)
  next
    case (9 u t) then show ?case using I(10) tless f(1) by (metis insertE leD)
  qed
qed

lemma safe_to_timeout_Ok:
  "safe_to_timeout t tc d = Ok () \<Longrightarrow> one_chain_round d \<le> hqc_round t"
  by (auto simp: safe_to_timeout_def Let_def result_simps split: if_splits)

lemma history_inv_timeout:
  assumes inv: "history_inv d V T" and ok: "timeout_allowed c es d t tc"
  shows "history_inv (timeout_data d t) V (insert t T)"
proof -
  have t: "to_epoch t = sfd_epoch d" "one_chain_round d \<le> hqc_round t"
    using ok safe_to_timeout_Ok by (auto simp: timeout_allowed_def)
  note I = history_invD [OF inv]
  show ?thesis
  proof (rule history_invI, goal_cases)
    case (2 v) then show ?case using I(2) by (simp add: le_max_iff_disj)
  next
    case (7 u) then show ?case using I(8) by (auto simp: le_max_iff_disj)
  next
    case (9 v u)
    show ?case
    proof (cases "u = t")
      case True
      then show ?thesis using 9 I(3) [of v] t by simp
    next
      case False
      then show ?thesis using 9 I(10) by blast
    qed
  qed (use I t in auto)
qed

lemma history_inv_init:
  assumes inv: "history_inv d V T" and "sfd_epoch d \<le> es_epoch es"
  shows "history_inv (init_data d es) V T"
proof (cases "sfd_epoch d < es_epoch es")
  case True
  note I = history_invD [OF inv]
  have v: "v_epoch v < es_epoch es" if "v \<in> V" for v using I(1) [OF that] True by (rule order.strict_trans1)
  have t: "to_epoch t < es_epoch es" if "t \<in> T" for t using I(7) [OF that] True by (rule order.strict_trans1)
  have d: "init_data d es = safety_data_new (es_epoch es) 0 0 0 None" using True by (simp add: init_data_def)
  show ?thesis unfolding d
    by (rule history_invI)
      (auto simp: safety_data_new_def less_imp_neq [OF v] less_imp_neq [OF t] less_imp_le [OF v] less_imp_le [OF t]
        intro: I(9,10))
qed (use inv in \<open>simp add: init_data_def\<close>)

text \<open>
  The states a service can be in after it has made the votes \<open>V\<close> and the timeouts \<open>T\<close>, and what one
  event adds to them.
\<close>

definition service_inv :: "vote set \<Rightarrow> two_chain_timeout set \<Rightarrow> safety_rules \<Rightarrow> bool" where
  "service_inv V T sr \<longleftrightarrow> sr_coherent sr \<and> (\<exists>d. sr_data sr = Some d \<and> history_inv d V T)"

definition service_mono :: "safety_rules \<Rightarrow> safety_rules \<Rightarrow> bool" where
  "service_mono sr sr' \<longleftrightarrow> (\<forall>d. sr_data sr = Some d \<longrightarrow> (\<exists>d'. sr_data sr' = Some d' \<and> data_le d d'))"

lemma service_mono_trans: "service_mono a b \<Longrightarrow> service_mono b c \<Longrightarrow> service_mono a c"
  unfolding service_mono_def using data_le_trans by blast

lemma history_inv_already_voted:
  "history_inv d V T \<Longrightarrow> already_voted rnd d = Some v \<Longrightarrow> v \<in> V"
  using history_invD(5) [of d V T] by (auto simp: already_voted_def split: option.splits if_splits)

lemma construct_and_sign_vote_inv:
  assumes inv: "sr_coherent sr" "sr_data sr = Some d" "history_inv d V T"
    and run: "construct_and_sign_vote_two_chain c now_usecs vp tc sr = (r, sr')"
  shows "\<exists>V'. V \<subseteq> V' \<and> service_inv V' T sr' \<and> service_mono sr sr' \<and> (\<forall>v. r = Ok v \<longrightarrow> v \<in> V') \<and>
    (V' = V \<or> (\<exists>v. V' = insert v V \<and> vote_allowed c now_usecs (sr_epoch_state sr) (sr_validator_signer sr) d vp tc v)) \<and>
    sr_epoch_state sr' = sr_epoch_state sr \<and> (\<exists>d'. sr_data sr' = Some d' \<and> sfd_epoch d' = sfd_epoch d)"
proof -
  have at: "at_data (Some d) sr sr" using at_data_self [OF inv(1)] inv(2) by simp
  have unchanged: ?thesis if "at_data (Some d) sr sr'" "\<forall>v. r = Ok v \<longrightarrow> v \<in> V"
    using that inv by (intro exI [of _ V]) (auto simp: at_data_def service_inv_def service_mono_def)
  have new: ?thesis if "vote_recorded c now_usecs sr d vp tc v sr'" "\<forall>u. r = Ok u \<longrightarrow> u = v" for v
  proof (intro exI [of _ "insert v V"] conjI)
    have ok: "vote_allowed c now_usecs (sr_epoch_state sr) (sr_validator_signer sr) d vp tc v"
      and at': "at_data (Some (voted_data d vp v)) sr sr'"
      using that(1) by (auto simp: vote_recorded_def)
    show "service_inv (insert v V) T sr'"
      using at' history_inv_vote [OF inv(3) ok] by (auto simp: service_inv_def at_data_def)
    show "service_mono sr sr'"
      using inv(2) at' data_le_voted_data [OF ok] by (auto simp: service_mono_def at_data_def)
    show "insert v V = V \<or> (\<exists>u. insert v V = insert u V \<and>
        vote_allowed c now_usecs (sr_epoch_state sr) (sr_validator_signer sr) d vp tc u)" using ok by blast
    show "sr_epoch_state sr' = sr_epoch_state sr" using at' by (simp add: at_data_def)
    show "\<exists>d'. sr_data sr' = Some d' \<and> sfd_epoch d' = sfd_epoch d" using at' by (simp add: at_data_def)
  qed (use that(2) in auto)
  show ?thesis
  proof (cases "\<exists>v. r = Ok v")
    case True
    then obtain v where r: "r = Ok v" by blast
    from tripleD_Ok [OF triple_construct_and_sign_vote at run [unfolded r]] show ?thesis
    proof (elim disjE conjE)
      assume "already_voted (b_round (vp_block vp)) d = Some v" "at_data (Some d) sr sr'"
      then show ?thesis using unchanged r history_inv_already_voted [OF inv(3)] by simp
    next
      assume "vote_recorded c now_usecs sr d vp tc v sr'"
      then show ?thesis by (rule new) (simp add: r)
    qed
  next
    case False
    then have "at_data (Some d) sr sr' \<or> (\<exists>v. vote_recorded c now_usecs sr d vp tc v sr')"
      using tripleD_fail [OF triple_construct_and_sign_vote at run] by blast
    then show ?thesis
    proof (elim disjE exE)
      assume "at_data (Some d) sr sr'"
      then show ?thesis by (rule unchanged) (use False in blast)
    next
      fix v
      assume "vote_recorded c now_usecs sr d vp tc v sr'"
      then show ?thesis by (rule new) (use False in blast)
    qed
  qed
qed

lemma sign_timeout_inv:
  assumes inv: "sr_coherent sr" "sr_data sr = Some d" "history_inv d V T"
    and run: "sign_timeout_with_qc c timeout tc sr = (r, sr')"
  shows "\<exists>T'. T \<subseteq> T' \<and> T' \<subseteq> insert timeout T \<and> service_inv V T' sr' \<and> service_mono sr sr' \<and>
    (\<forall>s. r = Ok s \<longrightarrow> timeout \<in> T' \<and> to_epoch timeout = sfd_epoch d) \<and> sr_epoch_state sr' = sr_epoch_state sr \<and> (\<exists>d'. sr_data sr' = Some d' \<and> sfd_epoch d' = sfd_epoch d)"
proof -
  have at: "at_data (Some d) sr sr" using at_data_self [OF inv(1)] inv(2) by simp
  have unchanged: ?thesis if "at_data (Some d) sr sr'" "\<forall>s. r \<noteq> Ok s"
    using that inv by (intro exI [of _ T]) (auto simp: at_data_def service_inv_def service_mono_def)
  have new: ?thesis if rec: "timeout_recorded c sr d timeout tc sr'"
  proof (intro exI [of _ "insert timeout T"] conjI)
    have ok: "timeout_allowed c (sr_epoch_state sr) d timeout tc"
      and at': "at_data (Some (timeout_data d timeout)) sr sr'"
      using rec by (auto simp: timeout_recorded_def)
    show "service_inv V (insert timeout T) sr'"
      using at' history_inv_timeout [OF inv(3) ok] by (auto simp: service_inv_def at_data_def)
    show "service_mono sr sr'" using inv(2) at' by (auto simp: service_mono_def at_data_def)
    show "sr_epoch_state sr' = sr_epoch_state sr" using at' by (simp add: at_data_def)
    show "\<exists>d'. sr_data sr' = Some d' \<and> sfd_epoch d' = sfd_epoch d" using at' by (simp add: at_data_def)
    show "\<forall>s. r = Ok s \<longrightarrow> timeout \<in> insert timeout T \<and> to_epoch timeout = sfd_epoch d"
      using ok by (auto simp: timeout_allowed_def)
  qed auto
  show ?thesis
  proof (cases "\<exists>s. r = Ok s")
    case True
    then obtain s where r: "r = Ok s" by blast
    show ?thesis by (rule new, rule tripleD_Ok [OF triple_sign_timeout at run [unfolded r]])
  next
    case False
    then have fail: "\<And>s. r \<noteq> Ok s" by blast
    from tripleD_fail [OF triple_sign_timeout at run fail] show ?thesis
      by (rule disjE) (rule unchanged, assumption, use fail in blast, rule new)
  qed
qed

lemma initialize_inv:
  assumes inv: "sr_coherent sr" "sr_data sr = Some d" "history_inv d V T"
    and run: "sr_initialize c proof sr = (r, sr')"
  shows "service_inv V T sr'" and "service_mono sr sr'"
    and "sr_epoch_state sr' = sr_epoch_state sr \<or>
      (\<exists>es. installs c proof es \<and> sfd_epoch d \<le> es_epoch es \<and> sr_epoch_state sr' = Some es)"
    and "sr_data sr' = Some d \<or>
      (\<exists>es. installs c proof es \<and> sfd_epoch d \<le> es_epoch es \<and> sr_data sr' = Some (init_data d es))"
proof -
  have at: "at_data (Some d) sr sr" using at_data_self [OF inv(1)] inv(2) by simp
  have "init_failed c proof sr d sr'"
  proof (cases "\<exists>u. r = Ok u")
    case True
    then show ?thesis using tripleD_Ok [OF triple_initialize at] run by (auto simp: init_failed_def)
  next
    case False
    then show ?thesis using tripleD_fail [OF triple_initialize at run] by blast
  qed
  then consider "at_data (Some d) sr sr'"
    | es where "installs c proof es" "sfd_epoch d \<le> es_epoch es"
      "at_data (Some (init_data d es)) sr sr' \<or> initialized d es sr'"
    by (auto simp: init_failed_def)
  then have "service_inv V T sr' \<and> service_mono sr sr' \<and>
    (sr_epoch_state sr' = sr_epoch_state sr \<or>
      (\<exists>es. installs c proof es \<and> sfd_epoch d \<le> es_epoch es \<and> sr_epoch_state sr' = Some es)) \<and>
    (sr_data sr' = Some d \<or>
      (\<exists>es. installs c proof es \<and> sfd_epoch d \<le> es_epoch es \<and> sr_data sr' = Some (init_data d es)))"
  proof cases
    case 1
    then show ?thesis using inv by (auto simp: at_data_def service_inv_def service_mono_def)
  next
    case (2 es)
    then show ?thesis
      using inv(2) history_inv_init [OF inv(3) 2(2)] data_le_init_data [OF 2(2)]
      by (auto simp: at_data_def initialized_def service_inv_def service_mono_def)
  qed
  then show "service_inv V T sr'" "service_mono sr sr'"
    "sr_epoch_state sr' = sr_epoch_state sr \<or>
      (\<exists>es. installs c proof es \<and> sfd_epoch d \<le> es_epoch es \<and> sr_epoch_state sr' = Some es)"
    "sr_data sr' = Some d \<or>
      (\<exists>es. installs c proof es \<and> sfd_epoch d \<le> es_epoch es \<and> sr_data sr' = Some (init_data d es))" by blast+
qed

lemma triple_consensus_state:
  "triple (at_data D sr0) get_consensus_state (\<lambda>_. at_data D sr0) (at_data D sr0)"
proof -
  have read: "triple (at_data D sr0) (on_storage pss_safety_data) (\<lambda>_. at_data D sr0) (at_data D sr0)"
    by (rule triple_read [OF pss_safety_data_same])
  note wp = triple_read [OF pss_waypoint_same, of D sr0]
  show ?thesis unfolding get_consensus_state_def
    by (rule triple_bind_h [OF wp], rule triple_bind_h [OF read], rule triple_bind_h [OF read],
        rule triple_bind_h [OF wp], rule triple_lift_h)
qed

lemma unchanged_inv:
  assumes "triple (at_data (Some d) sr) m (\<lambda>_. at_data (Some d) sr) (at_data (Some d) sr)"
    and "sr_coherent sr" "sr_data sr = Some d" "history_inv d V T" and "m sr = (r, sr')"
  shows "service_inv V T sr'" "service_mono sr sr'" "sr_epoch_state sr' = sr_epoch_state sr" "sr_data sr' = Some d"
proof -
  have "at_data (Some d) sr sr" using at_data_self [OF assms(2)] assms(3) by simp
  then have "at_data (Some d) sr sr'" using assms(1,5) by (cases r) (auto simp: triple_def)
  then show "service_inv V T sr'" "service_mono sr sr'" "sr_epoch_state sr' = sr_epoch_state sr" "sr_data sr' = Some d"
    using assms(3,4) by (auto simp: at_data_def service_inv_def service_mono_def)
qed

lemma triple_sign_proposal_same:
  "triple (at_data D sr0) (sign_proposal c bd) (\<lambda>_. at_data D sr0) (at_data D sr0)"
  by (rule triple_weaken [OF triple_sign_proposal]) auto

lemma finds_author_read:
  "finds_author st \<Longrightarrow> \<exists>a. pss_author (pss_new st enable) = (Ok a, pss_new (drop_fault st) enable)"
  by (auto simp: finds_author_def pss_author_def on_store_def focus_h_def convert_h_def kv_get_as_def
      bind_h_def kv_get_def ok_or_def lift_h_def pss_new_def split: option.splits stored_value.splits)

text \<open>Such a start-up keeps the safety data, and the service runs if the author was found.\<close>

lemma manager_storage_same:
  assumes "start_up_keeps cfg st"
  shows "same_data (pss_new st (cfg_enable_cached_safety_data cfg)) (snd (manager_storage cfg st))"
proof (cases "pss_author (pss_new st (cfg_enable_cached_safety_data cfg))")
  case (Pair r ps)
  have "same_data (pss_new st (cfg_enable_cached_safety_data cfg)) ps"
    using pss_author_same [of "pss_new st (cfg_enable_cached_safety_data cfg)"] Pair by simp
  moreover have "snd (manager_storage cfg st) = ps"
    using assms finds_author_read [of st "cfg_enable_cached_safety_data cfg"] Pair
    by (auto simp: start_up_keeps_def manager_storage_def Let_def split: result.split)
  ultimately show ?thesis by simp
qed

lemma manager_new_data:
  assumes "start_up_keeps cfg (sv_storage sv)"
  shows "sr_data (sv_rules (manager_new cfg (sv_storage sv))) = sr_data (sv_rules sv)"
    and "sr_coherent (sv_rules (manager_new cfg (sv_storage sv)))"
    and "sr_epoch_state (sv_rules (manager_new cfg (sv_storage sv))) = None"
  using manager_storage_same [OF assms] coherent_pss_new
  by (auto simp: manager_new_def safety_rules_new_def sr_data_def sr_coherent_def same_data_def
      stored_safety_data_def pss_new_def split: prod.split)

lemma manager_new_running: "cfg_test cfg = None \<Longrightarrow> finds_author st \<Longrightarrow> sv_running (manager_new cfg st)"
  using finds_author_read [of st "cfg_enable_cached_safety_data cfg"]
  by (auto simp: manager_new_def manager_storage_def Let_def)

lemma map_prod_id_eq: "map_prod f id x = (y, s) \<longleftrightarrow> (\<exists>r. x = (r, s) \<and> y = f r)"
  by (cases x) auto

lemma request_step_inv:
  assumes inv: "service_inv V T sr" and run: "request_step c now input sr = (out, sr')"
  shows "\<exists>V' T'. V \<subseteq> V' \<and> T \<subseteq> T' \<and> service_inv V' T' sr' \<and> service_mono sr sr' \<and>
    (\<forall>v. out = Some (SignedVote v) \<longrightarrow> v \<in> V') \<and> (\<forall>t. out = Some (SignedTimeout t) \<longrightarrow> t \<in> T')"
proof -
  obtain d where d: "sr_coherent sr" "sr_data sr = Some d" "history_inv d V T"
    using inv by (auto simp: service_inv_def)
  have quiet: ?thesis if "service_inv V T sr'" "service_mono sr sr'"
    "\<And>v. out \<noteq> Some (SignedVote v)" "\<And>t. out \<noteq> Some (SignedTimeout t)"
    using that by blast
  show ?thesis
  proof (cases input)
    case ConsensusState
    obtain r where "get_consensus_state sr = (r, sr')" "out = None"
      using run ConsensusState by (auto simp: request_step_def handle_message_def map_prod_id_eq split: prod.splits)
    then show ?thesis using unchanged_inv(1,2) [OF triple_consensus_state d] by (intro quiet) auto
  next
    case (Initialize ecp)
    obtain r where "sr_initialize c ecp sr = (r, sr')" "out = None"
      using run Initialize by (auto simp: request_step_def handle_message_def map_prod_id_eq split: prod.splits)
    then show ?thesis using initialize_inv(1,2) [OF d] by (intro quiet) auto
  next
    case (SignProposal bd)
    obtain r where r: "sign_proposal c bd sr = (r, sr')" "out = signed_by input (OutSignature r)"
      using run SignProposal by (auto simp: request_step_def handle_message_def map_prod_id_eq split: prod.splits)
    then show ?thesis using unchanged_inv(1,2) [OF triple_sign_proposal_same d r(1)]
      by (cases r) (auto intro!: quiet simp: SignProposal)
  next
    case (SignCommitVote l li)
    obtain r where r: "sign_commit_vote c l li sr = (r, sr')" "out = signed_by input (OutSignature r)"
      using run SignCommitVote by (auto simp: request_step_def handle_message_def map_prod_id_eq split: prod.splits)
    then have "sr' = sr" using sign_commit_vote_state [of c l li sr] by simp
    then show ?thesis using inv r(2)
      by (cases r) (auto intro!: quiet simp: SignCommitVote service_mono_def)
  next
    case (SignTimeoutWithQC t tc)
    obtain r where r: "sign_timeout_with_qc c t tc sr = (r, sr')" "out = signed_by input (OutSignature r)"
      using run SignTimeoutWithQC by (auto simp: request_step_def handle_message_def map_prod_id_eq split: prod.splits)
    obtain T' where T': "T \<subseteq> T'" "service_inv V T' sr'" "service_mono sr sr'" "\<forall>s. r = Ok s \<longrightarrow> t \<in> T'"
      using sign_timeout_inv [OF d r(1)] by blast
    have "(\<forall>v. out = Some (SignedVote v) \<longrightarrow> v \<in> V) \<and> (\<forall>u. out = Some (SignedTimeout u) \<longrightarrow> u \<in> T')"
      using r(2) T'(4) by (cases r) (simp_all add: SignTimeoutWithQC)
    then show ?thesis using T'(1-3) by blast
  next
    case (ConstructAndSignVoteTwoChain vp tc)
    obtain r where r: "construct_and_sign_vote_two_chain c now vp tc sr = (r, sr')"
      "out = signed_by input (OutVote r)"
      using run ConstructAndSignVoteTwoChain by (auto simp: request_step_def handle_message_def map_prod_id_eq split: prod.splits)
    obtain V' where V': "V \<subseteq> V'" "service_inv V' T sr'" "service_mono sr sr'" "\<forall>v. r = Ok v \<longrightarrow> v \<in> V'"
      using construct_and_sign_vote_inv [OF d r(1)] by blast
    have "(\<forall>v. out = Some (SignedVote v) \<longrightarrow> v \<in> V') \<and> (\<forall>u. out = Some (SignedTimeout u) \<longrightarrow> u \<in> T)"
      using r(2) V'(4) by (cases r) (simp_all add: ConstructAndSignVoteTwoChain)
    then show ?thesis using V'(1-3) by blast
  qed
qed

lemma service_step_inv:
  assumes inv: "service_inv V T (sv_rules sv)" and run: "service_step c e sv = (out, sv')" and keeps: "event_keeps e sv"
  shows "\<exists>V' T'. V \<subseteq> V' \<and> T \<subseteq> T' \<and> service_inv V' T' (sv_rules sv') \<and> service_mono (sv_rules sv) (sv_rules sv') \<and>
    (\<forall>v. out = Some (SignedVote v) \<longrightarrow> v \<in> V') \<and> (\<forall>t. out = Some (SignedTimeout t) \<longrightarrow> t \<in> T')"
proof (cases e)
  case (Restart cfg)
  then have "start_up_keeps cfg (sv_storage sv)" using keeps by simp
  from manager_new_data [OF this] show ?thesis
    using inv run Restart by (auto simp: service_inv_def service_mono_def)
next
  case (Request now input)
  show ?thesis
  proof (cases "sv_running sv")
    case True
    then obtain sr' where "request_step c now input (sv_rules sv) = (out, sr')" "sv' = sv\<lparr>sv_rules := sr'\<rparr>"
      using run Request by (auto split: prod.splits)
    then show ?thesis using request_step_inv [OF inv] by simp
  next
    case False
    then have "sv' = sv" "out = None" using run Request by auto
    then show ?thesis using inv by (auto simp: service_mono_def)
  qed
qed

section \<open>Whole histories\<close>

lemma service_run_inv:
  assumes "service_inv V T (sv_rules sv)" and "service_run c es sv = (log, sv')" and "start_ups_keep c es sv"
  shows "\<exists>V' T'. V \<subseteq> V' \<and> T \<subseteq> T' \<and> service_inv V' T' (sv_rules sv') \<and> service_mono (sv_rules sv) (sv_rules sv') \<and>
    (\<forall>v. SignedVote v \<in> set log \<longrightarrow> v \<in> V') \<and> (\<forall>t. SignedTimeout t \<in> set log \<longrightarrow> t \<in> T')"
  using assms
proof (induction es arbitrary: V T sv log)
  case Nil
  then show ?case by (intro exI [of _ V] exI [of _ T]) (auto simp: service_mono_def)
next
  case (Cons e es)
  obtain out sv1 where step: "service_step c e sv = (out, sv1)" by (cases "service_step c e sv")
  have keeps: "event_keeps e sv" "start_ups_keep c es sv1" using Cons.prems(3) step by simp_all
  obtain log1 where run: "service_run c es sv1 = (log1, sv')"
    and log: "log = (case out of None \<Rightarrow> log1 | Some x \<Rightarrow> x # log1)"
    using Cons.prems(2) step by (auto split: prod.splits)
  obtain V1 T1 where 1: "V \<subseteq> V1" "T \<subseteq> T1" "service_inv V1 T1 (sv_rules sv1)" "service_mono (sv_rules sv) (sv_rules sv1)"
    "\<forall>v. out = Some (SignedVote v) \<longrightarrow> v \<in> V1" "\<forall>t. out = Some (SignedTimeout t) \<longrightarrow> t \<in> T1"
    using service_step_inv [OF Cons.prems(1) step keeps(1)] by blast
  obtain V2 T2 where 2: "V1 \<subseteq> V2" "T1 \<subseteq> T2" "service_inv V2 T2 (sv_rules sv')"
    "service_mono (sv_rules sv1) (sv_rules sv')"
    "\<forall>v. SignedVote v \<in> set log1 \<longrightarrow> v \<in> V2" "\<forall>t. SignedTimeout t \<in> set log1 \<longrightarrow> t \<in> T2"
    using Cons.IH [OF 1(3) run keeps(2)] by blast
  have mono: "service_mono (sv_rules sv) (sv_rules sv')" by (rule service_mono_trans [OF 1(4) 2(4)])
  have "(\<forall>v. SignedVote v \<in> set log \<longrightarrow> v \<in> V2) \<and> (\<forall>t. SignedTimeout t \<in> set log \<longrightarrow> t \<in> T2)"
    using 1(5,6) 2(1,2,5,6) log by (cases out) auto
  then show ?case using 1(1,2) 2(1-3) mono by (intro exI [of _ V2] exI [of _ T2]) auto
qed

text \<open>A service whose stored data record no vote yet.\<close>

definition service_start :: "safety_rules \<Rightarrow> bool" where
  "service_start sr \<longleftrightarrow> sr_coherent sr \<and> (\<exists>d. sr_data sr = Some d \<and> last_vote d = None)"

lemma service_start_inv: "service_start sr \<Longrightarrow> service_inv {} {} sr"
  by (auto simp: service_start_def service_inv_def history_inv_def)

lemma service_history:
  assumes "service_start (sv_rules sv)" and "service_run c es sv = (log, sv')" and "start_ups_keep c es sv"
  shows "SignedVote v \<in> set log \<Longrightarrow> SignedVote v' \<in> set log \<Longrightarrow> v_epoch v = v_epoch v' \<Longrightarrow>
       v_round v = v_round v' \<Longrightarrow> v = v'"
    and "SignedVote v \<in> set log \<Longrightarrow> SignedTimeout t \<in> set log \<Longrightarrow> v_epoch v = to_epoch t \<Longrightarrow>
       v_round v \<le> to_round t \<Longrightarrow> v_parent_round v \<le> hqc_round t"
proof -
  obtain V T d where inv: "history_inv d V T"
    and V: "\<forall>v. SignedVote v \<in> set log \<longrightarrow> v \<in> V" and T: "\<forall>t. SignedTimeout t \<in> set log \<longrightarrow> t \<in> T"
    using service_run_inv [OF service_start_inv [OF assms(1)] assms(2,3)] by (auto simp: service_inv_def)
  show "SignedVote v \<in> set log \<Longrightarrow> SignedVote v' \<in> set log \<Longrightarrow> v_epoch v = v_epoch v' \<Longrightarrow>
       v_round v = v_round v' \<Longrightarrow> v = v'"
    and "SignedVote v \<in> set log \<Longrightarrow> SignedTimeout t \<in> set log \<Longrightarrow> v_epoch v = to_epoch t \<Longrightarrow>
       v_round v \<le> to_round t \<Longrightarrow> v_parent_round v \<le> hqc_round t"
    using history_invD(9) [OF inv, of v v'] history_invD(10) [OF inv, of v t] V T by simp_all
qed

section \<open>The promises of the service\<close>

text \<open>
  C2. No double voting. Over the life of a service (any requests, any storage faults, restarts in
  between), the votes it gives out for one epoch and round are one and the same vote, provided that no
  start-up initializes its storage again (\<open>start_ups_keep\<close>): the service is not started with a test
  configuration, and if it has an initial configuration, the read of the author at start-up finds one. (The
  last section of this theory shows what a start-up costs that does initialize the storage again.)
\<close>

theorem no_double_vote:
  assumes "service_start (sv_rules sv)" and "start_ups_keep c es sv"
    and "SignedVote v \<in> set (fst (service_run c es sv))" and "SignedVote v' \<in> set (fst (service_run c es sv))"
    and "v_epoch v = v_epoch v'" and "v_round v = v_round v'"
  shows "v = v'"
proof -
  obtain log sv' where run: "service_run c es sv = (log, sv')" by (cases "service_run c es sv")
  show ?thesis using service_history(1) [OF assms(1) run assms(2), of v v'] assms(3-6) run by simp
qed

text \<open>
  C3. Timeouts do not forget votes. A timeout the service signs for the round of one of its votes or
  a later one, before or after that vote, reports a quorum certificate of at least the round of the
  vote's parent. (This is what lets a timeout certificate justify a later proposal.) The service may be restarted any
  number of times by start-ups that do not initialize its storage again (\<open>start_ups_keep\<close>).
\<close>

theorem timeout_respects_votes:
  assumes "service_start (sv_rules sv)" and "start_ups_keep c es sv"
    and "SignedVote v \<in> set (fst (service_run c es sv))" and "SignedTimeout t \<in> set (fst (service_run c es sv))"
    and "v_epoch v = to_epoch t" and "v_round v \<le> to_round t"
  shows "bi_round (vd_parent (v_vote_data v)) \<le> hqc_round t"
proof -
  obtain log sv' where run: "service_run c es sv = (log, sv')" by (cases "service_run c es sv")
  show ?thesis using service_history(2) [OF assms(1) run assms(2), of v t] assms(3-6) run by (simp add: v_parent_round_def)
qed

text \<open>
  C4. The safety data are never lost and never go back. Whatever is asked and whatever storage access
  of a request fails, the storage keeps holding safety data, in a later epoch or with no smaller rounds, and the
  cache never disagrees with it; also over restarts, provided that no start-up initializes the storage again
  (\<open>start_ups_keep\<close>): no test configuration, and with an initial configuration the author is found.
\<close>

theorem safety_data_monotone:
  assumes "service_start (sv_rules sv)" and "start_ups_keep c es sv" and "service_run c es sv = (log, sv')"
    and "sr_data (sv_rules sv) = Some d"
  shows "coherent (sr_persistent_storage (sv_rules sv')) \<and> (\<exists>d'. sr_data (sv_rules sv') = Some d' \<and> data_le d d')"
  using service_run_inv [OF service_start_inv [OF assms(1)] assms(3,2)] assms(4)
  by (auto simp: service_inv_def service_mono_def sr_coherent_def)

text \<open>A sample life: validator 2 votes in round 1, times out in round 1, and is restarted.\<close>

definition sample_timeout :: two_chain_timeout where
  "sample_timeout = \<lparr>to_epoch = 1, to_round = 1, to_quorum_cert = sample_genesis_qc\<rparr>"

definition sample_config :: safety_rules_config where
  "sample_config =
     \<lparr>cfg_test = None, cfg_initial = Some (2, [2], \<lparr>wp_version = 0, wp_value = 0\<rparr>),
      cfg_enable_cached_safety_data = True\<rparr>"

definition sample_events :: "service_event list" where
  "sample_events =
     [Request 100 (ConstructAndSignVoteTwoChain (sample_vote_proposal sample_genesis_qc) None),
      Request 100 (SignTimeoutWithQC sample_timeout None), Restart sample_config]"

definition sample_running :: "author \<Rightarrow> service" where
  "sample_running a = \<lparr>sv_running = True, sv_rules = sample_service a\<rparr>"

lemma sample_running_simps [simp]: "sv_running (sample_running a)" "sv_rules (sample_running a) = sample_service a"
  by (simp_all add: sample_running_def)

lemma sample_genesis_qc_simps [simp]:
  "bi_round (certified_block sample_genesis_qc) = 0" "bi_epoch (certified_block sample_genesis_qc) = 1"
  "bi_round (parent_block sample_genesis_qc) = 0"
  by (simp_all add: sample_genesis_qc_def Let_def certified_block_def parent_block_def sample_genesis_info_def
      block_info_empty_def)

lemma sample_vote_simps [simp]:
  "v_round (sample_vote a qc) = bi_round (certified_block qc) + 1" "v_epoch (sample_vote a qc) = bi_epoch (certified_block qc)"
  "vd_parent (v_vote_data (sample_vote a qc)) = certified_block qc"
  by (simp_all add: sample_vote_def Let_def vote_new_with_signature_def v_round_def v_epoch_def
      vote_data_ordering_only_def gen_block_info_def)

lemma sample_run:
  "\<exists>sv'. service_run sample_crypto sample_events (sample_running 2) =
     ([SignedVote (sample_vote 2 sample_genesis_qc), SignedTimeout sample_timeout], sv') \<and>
   start_ups_keep sample_crypto sample_events (sample_running 2) \<and> sv_running sv'"
proof -
  let ?d = "safety_data_new 1 0 0 0 None" and ?vp = "sample_vote_proposal sample_genesis_qc"
    and ?v = "sample_vote 2 sample_genesis_qc"
  let ?sr1 = "sr_store (voted_data ?d ?vp ?v) (sample_service 2)"
  have vote: "construct_and_sign_vote_two_chain sample_crypto 100 ?vp None (sample_service 2) = (Ok ?v, ?sr1)"
    by (rule construct_and_sign_vote_complete [OF sample_service_ready(1)])
      (auto intro!: sample_vote_allowed simp: already_voted_def safety_data_new_def)
  note w = sr_ready_write [OF sample_service_ready(1) [of 2], where d' = "voted_data ?d ?vp ?v"]
  have "next_round 0 = Ok 1" by (simp add: next_round_def checked_add_def ok_or_def)
  then have "timeout_allowed sample_crypto (sr_epoch_state ?sr1) (voted_data ?d ?vp ?v) sample_timeout None"
    using w(3) by (simp add: timeout_allowed_def sample_timeout_def tc_checked_def timeout_verify_def hqc_round_def
        safe_to_timeout_def Let_def ensure_def sample_epoch_state_def safety_data_new_def)
  then obtain sr2 where sr2: "sign_timeout_with_qc sample_crypto sample_timeout None ?sr1 =
      (Ok (sample_sign 2 (msg_timeout (signing_format sample_timeout))), sr2)"
    "sr_ready sr2 (timeout_data (voted_data ?d ?vp ?v) sample_timeout)"
    "kv_data (internal_store (sr_persistent_storage sr2)) OWNER_ACCOUNT =
      kv_data (internal_store (sr_persistent_storage ?sr1)) OWNER_ACCOUNT"
    using sign_timeout_complete [OF w(2), of sample_crypto sample_timeout None "sample_signer 2"] w(4)
    by (auto simp: timeout_sign_def)
  have "kv_data (internal_store (sr_persistent_storage ?sr1)) OWNER_ACCOUNT = Some (StoredAuthor 2)"
    using w(5) [of OWNER_ACCOUNT] by (simp add: sample_service_def Let_def storage_keys_distinct)
      (simp add: OWNER_ACCOUNT_def CONSENSUS_KEY_def)
  then have author: "finds_author (internal_store (sr_persistent_storage sr2))"
    using sr2(2,3) by (simp add: finds_author_def sr_ready_def next_fault_def)
  note up = manager_new_running [OF _ author, of sample_config]
  show ?thesis
    using vote sr2(1) author up
    by (simp add: sample_events_def request_step_def handle_message_def start_up_keeps_def sample_config_def)
qed

lemma sample_service_start [simp]: "service_start (sample_service a)"
  using sample_service_ready(1) [of a] sr_ready_coherent
  by (auto simp: service_start_def sr_ready_def safety_data_new_def)

theorem no_double_vote_witness:
  "\<exists>!v. SignedVote v \<in> set (fst (service_run sample_crypto sample_events (sample_running 2))) \<and>
     v_epoch v = 1 \<and> v_round v = 1"
proof -
  obtain sv' where run: "service_run sample_crypto sample_events (sample_running 2) =
     ([SignedVote (sample_vote 2 sample_genesis_qc), SignedTimeout sample_timeout], sv')"
    and keep: "start_ups_keep sample_crypto sample_events (sample_running 2)"
    using sample_run by blast
  show ?thesis
  proof (rule ex1I [of _ "sample_vote 2 sample_genesis_qc"])
    show "SignedVote (sample_vote 2 sample_genesis_qc) \<in>
        set (fst (service_run sample_crypto sample_events (sample_running 2))) \<and>
      v_epoch (sample_vote 2 sample_genesis_qc) = 1 \<and> v_round (sample_vote 2 sample_genesis_qc) = 1"
      by (simp add: run)
    fix v
    assume "SignedVote v \<in> set (fst (service_run sample_crypto sample_events (sample_running 2))) \<and>
      v_epoch v = 1 \<and> v_round v = 1"
    then show "v = sample_vote 2 sample_genesis_qc"
      using no_double_vote [OF _ keep, of v "sample_vote 2 sample_genesis_qc"] by (simp add: run)
  qed
qed

theorem timeout_respects_votes_witness:
  "bi_round (vd_parent (v_vote_data (sample_vote 2 sample_genesis_qc))) \<le> hqc_round sample_timeout"
proof -
  obtain sv' where run: "service_run sample_crypto sample_events (sample_running 2) =
     ([SignedVote (sample_vote 2 sample_genesis_qc), SignedTimeout sample_timeout], sv')"
    and keep: "start_ups_keep sample_crypto sample_events (sample_running 2)"
    using sample_run by blast
  show ?thesis
    by (rule timeout_respects_votes [OF _ keep]) (simp_all add: run sample_timeout_def)
qed

theorem safety_data_monotone_witness:
  "\<exists>log sv' d'. service_run sample_crypto sample_events (sample_running 2) = (log, sv') \<and>
     sr_data (sv_rules sv') = Some d' \<and> data_le (safety_data_new 1 0 0 0 None) d'"
proof -
  obtain log sv' where run: "service_run sample_crypto sample_events (sample_running 2) = (log, sv')"
    and keep: "start_ups_keep sample_crypto sample_events (sample_running 2)"
    using sample_run by blast
  show ?thesis using safety_data_monotone [OF _ keep run, of "safety_data_new 1 0 0 0 None"] run
      sample_service_ready(1) [of 2] by (simp add: sr_ready_def)
qed

section \<open>A start-up that does not keep the storage\<close>

text \<open>
  C39. Start-up is not safe under a transient fault. If the first read of the author fails, a validator
  with an initial configuration takes its storage for a new one and initializes it: the safety data
  it had are replaced by those of epoch 1 with no vote, whatever they were.
\<close>

theorem start_up_fault_resets_safety_data:
  assumes "cfg_test cfg = None" and "cfg_initial cfg = Some (a, key, w)"
    and "kv_faults st = [Some (Fault e reached)]" and "e \<noteq> PermissionDenied"
  shows "fst (manager_storage cfg st) = Ok () \<and>
    stored_safety_data (snd (manager_storage cfg st)) = Some (safety_data_new 1 0 0 0 None)"
proof -
  have "\<exists>e'. pss_author (pss_new st en) = (Err e', pss_new (drop_fault st) en)" for en
    using assms(3,4)
    by (cases e) (simp_all add: pss_author_def on_store_def focus_h_def convert_h_def kv_get_as_def
        bind_h_def kv_get_def next_fault_def pss_new_def)
  then obtain e' where "pss_author (pss_new st (cfg_enable_cached_safety_data cfg)) =
      (Err e', pss_new (drop_fault st) (cfg_enable_cached_safety_data cfg))" by blast
  then show ?thesis
    using assms(1-3)
    by (simp add: manager_storage_def Let_def pss_initialize_def pss_new_def bind_h_def expect_h_def convert_h_def
        on_store_def focus_h_def initialize_keys_and_accounts_def kv_set_def next_fault_def drop_fault_def
        set_safety_data_def set_waypoint_def stored_safety_data_def)
qed

theorem start_up_fault_resets_safety_data_witness:
  "stored_safety_data (snd (manager_storage
     \<lparr>cfg_test = None, cfg_initial = Some (2, [2], \<lparr>wp_version = 0, wp_value = 0\<rparr>), cfg_enable_cached_safety_data = True\<rparr>
     \<lparr>kv_data = [OWNER_ACCOUNT \<mapsto> StoredAuthor 2, SAFETY_DATA \<mapsto> StoredSafetyData (safety_data_new 9 7 5 6 None)],
      kv_faults = [Some (Fault InternalStorageError False)]\<rparr>)) = Some (safety_data_new 1 0 0 0 None)"
  using start_up_fault_resets_safety_data
    [of "\<lparr>cfg_test = None, cfg_initial = Some (2, [2], \<lparr>wp_version = 0, wp_value = 0\<rparr>), cfg_enable_cached_safety_data = True\<rparr>"
       2 "[2]" "\<lparr>wp_version = 0, wp_value = 0\<rparr>"
       "\<lparr>kv_data = [OWNER_ACCOUNT \<mapsto> StoredAuthor 2, SAFETY_DATA \<mapsto> StoredSafetyData (safety_data_new 9 7 5 6 None)],
          kv_faults = [Some (Fault InternalStorageError False)]\<rparr>" InternalStorageError False]
  by simp

end
