(* ===== verification/Two_Chain.thy ===== *)
theory Two_Chain
  imports Main
begin

text \<open>
  The argument behind the two-chain commit rule, on abstract votes and timeouts. The locale states what
  honest validators promise: they vote once per round; they vote for a block only on a certified
  parent, in the round after the parent or after a timeout certificate none of whose signers reports
  more than the parent's round; and a timeout in or after the round of a vote reports at least the
  round of the vote's parent. From this, whatever is certified at or above a block that was certified with
  a certified child in the next round descends from that block.
\<close>

locale two_chain_contract =
  fixes honest :: "'n \<Rightarrow> bool"
    and quorum :: "'n set \<Rightarrow> bool"
    and voted :: "'n \<Rightarrow> 'v \<Rightarrow> bool"
    and timed :: "'n \<Rightarrow> nat \<Rightarrow> nat \<Rightarrow> bool"
    and proposed :: "'v \<Rightarrow> 'b"
    and parent :: "'v \<Rightarrow> 'b"
    and round_of :: "'b \<Rightarrow> nat"
    and certified :: "'v \<Rightarrow> bool"
    and descends :: "'b \<Rightarrow> 'b \<Rightarrow> bool"
  assumes quorums_meet: "quorum Q \<Longrightarrow> quorum Q' \<Longrightarrow> \<exists>n \<in> Q \<inter> Q'. honest n"
    and one_vote: "honest n \<Longrightarrow> voted n v \<Longrightarrow> voted n v' \<Longrightarrow>
      round_of (proposed v) = round_of (proposed v') \<Longrightarrow> v = v'"
    and above_parent: "honest n \<Longrightarrow> voted n v \<Longrightarrow> round_of (parent v) < round_of (proposed v)"
    and on_certified: "honest n \<Longrightarrow> voted n v \<Longrightarrow> round_of (parent v) \<noteq> 0 \<Longrightarrow>
      \<exists>v'. certified v' \<and> proposed v' = parent v"
    and on_timeouts: "honest n \<Longrightarrow> voted n v \<Longrightarrow> round_of (proposed v) \<noteq> Suc (round_of (parent v)) \<Longrightarrow>
      \<exists>Q. quorum Q \<and> (\<forall>m \<in> Q. honest m \<longrightarrow>
        (\<exists>h \<le> round_of (parent v). timed m (round_of (proposed v) - 1) h))"
    and timeouts_remember: "honest n \<Longrightarrow> voted n v \<Longrightarrow> timed n r h \<Longrightarrow> round_of (proposed v) \<le> r \<Longrightarrow>
      round_of (parent v) \<le> h"
    and certified_iff: "certified v \<longleftrightarrow> (\<exists>Q. quorum Q \<and> (\<forall>n \<in> Q. honest n \<longrightarrow> voted n v))"
    and descends_refl: "descends b b"
    and descends_step: "certified v \<Longrightarrow> descends b (parent v) \<Longrightarrow> descends b (proposed v)"
begin

lemma certified_voter:
  assumes "certified v"
  obtains n where "honest n" "voted n v"
proof -
  obtain Q where "quorum Q" "\<forall>n \<in> Q. honest n \<longrightarrow> voted n v" using assms by (auto simp: certified_iff)
  then show thesis using quorums_meet [of Q Q] that by blast
qed

lemma certified_unique:
  assumes "certified v" and "certified v'" and "round_of (proposed v) = round_of (proposed v')"
  shows "v = v'"
proof -
  obtain Q Q' where "quorum Q" "\<forall>n \<in> Q. honest n \<longrightarrow> voted n v" "quorum Q'" "\<forall>n \<in> Q'. honest n \<longrightarrow> voted n v'"
    using assms(1,2) by (auto simp: certified_iff)
  then show ?thesis using quorums_meet [of Q Q'] one_vote assms(3) by blast
qed

text \<open>The parent of a certified block that skipped rounds is not below a committed block.\<close>

lemma skipped_not_below:
  assumes w: "certified w" and v: "certified v" and skip: "round_of (proposed v) \<noteq> Suc (round_of (parent v))"
    and above: "round_of (proposed w) < round_of (proposed v)"
  shows "round_of (parent w) \<le> round_of (parent v)"
proof -
  obtain n where n: "honest n" "voted n v" by (rule certified_voter [OF v])
  obtain Q where Q: "quorum Q" "\<forall>m \<in> Q. honest m \<longrightarrow>
      (\<exists>h \<le> round_of (parent v). timed m (round_of (proposed v) - 1) h)"
    using on_timeouts [OF n skip] by blast
  obtain Q' where Q': "quorum Q'" "\<forall>m \<in> Q'. honest m \<longrightarrow> voted m w" using w by (auto simp: certified_iff)
  obtain m where m: "m \<in> Q" "m \<in> Q'" "honest m" using quorums_meet [OF Q(1) Q'(1)] by blast
  then obtain h where h: "h \<le> round_of (parent v)" "timed m (round_of (proposed v) - 1) h" using Q(2) by blast
  have "round_of (parent w) \<le> h"
    using timeouts_remember [OF m(3) _ h(2), of w] Q'(2) m above by simp
  then show ?thesis using h(1) by simp
qed

lemma committed_descends:
  assumes w: "certified w" and next_round: "round_of (proposed w) = Suc (round_of (parent w))"
    and pos: "round_of (parent w) \<noteq> 0"
  shows "certified v \<Longrightarrow> round_of (parent w) \<le> round_of (proposed v) \<Longrightarrow> descends (parent w) (proposed v)"
proof (induction "round_of (proposed v)" arbitrary: v rule: less_induct)
  case less
  obtain n where n: "honest n" "voted n w" by (rule certified_voter [OF w])
  obtain w' where w': "certified w'" "proposed w' = parent w" using on_certified [OF n pos] by blast
  show ?case
  proof (cases "round_of (proposed v) \<le> round_of (proposed w)")
    case True
    then consider "round_of (proposed v) = round_of (proposed w')" | "round_of (proposed v) = round_of (proposed w)"
      using less.prems(2) next_round w'(2) by force
    then show ?thesis
    proof cases
      case 1
      then show ?thesis using certified_unique [OF less.prems(1) w'(1)] w'(2) descends_refl by simp
    next
      case 2
      then show ?thesis
        using certified_unique [OF less.prems(1) w] descends_step [OF w descends_refl] by simp
    qed
  next
    case False
    obtain m where m: "honest m" "voted m v" by (rule certified_voter [OF less.prems(1)])
    have below: "round_of (parent v) < round_of (proposed v)" by (rule above_parent [OF m])
    have above: "round_of (parent w) \<le> round_of (parent v)"
      using skipped_not_below [OF w less.prems(1)] False next_round by fastforce
    then obtain v' where v': "certified v'" "proposed v' = parent v"
      using on_certified [OF m] pos by fastforce
    have "descends (parent w) (parent v)" using less.hyps [of v'] v' above below by simp
    then show ?thesis by (rule descends_step [OF less.prems(1)])
  qed
qed

text \<open>Two committed blocks are on one chain.\<close>

lemma committed_chain:
  assumes "certified w" "round_of (proposed w) = Suc (round_of (parent w))" "round_of (parent w) \<noteq> 0"
    and "certified v" "round_of (proposed v) = Suc (round_of (parent v))" "round_of (parent v) \<noteq> 0"
    and le: "round_of (parent w) \<le> round_of (parent v)"
  shows "descends (parent w) (parent v)"
    and "round_of (parent w) = round_of (parent v) \<Longrightarrow> parent w = parent v"
proof -
  obtain n where n: "honest n" "voted n v" by (rule certified_voter [OF assms(4)])
  obtain v' where v': "certified v'" "proposed v' = parent v" using on_certified [OF n assms(6)] by blast
  then show "descends (parent w) (parent v)" using committed_descends [OF assms(1-3), of v'] le by simp
  obtain m where m: "honest m" "voted m w" by (rule certified_voter [OF assms(1)])
  obtain w' where w': "certified w'" "proposed w' = parent w" using on_certified [OF m assms(3)] by blast
  show "round_of (parent w) = round_of (parent v) \<Longrightarrow> parent w = parent v"
    using certified_unique [OF w'(1) v'(1)] v'(2) w'(2) by simp
qed

end

end
