(* ===== verification/Two_Chain_Safety.thy ===== *)
theory Two_Chain_Safety
  imports Safety_Service Two_Chain
begin

text \<open>
  Safety of one epoch of the protocol. The honest validators are signing services of
  \<open>Safety_Service\<close>; everything else (proposers, faulty validators, the network, the callers of the
  services) is an adversary that sends them requests in any order and may restart them. The claim is that
  two ledger infos certified in the epoch commit blocks on one chain.

  The adversary is limited as follows. By cryptography: a certificate that verifies was signed by its honest
  signers, and hashes of vote data do not collide among the vote data that occur. By the callers of the
  services, for two things the services do not check themselves: that a timeout certificate is of the epoch
  (\<^verbatim>\<open>SyncInfo::verify\<close>), and that the executed ledger info of a commit vote keeps the consensus data hash of
  the ordered one (\<^verbatim>\<open>buffer_item.rs\<close>). By the scope of a run, which is one epoch: an epoch change proof for this
  epoch or a later one installs the epoch state of this epoch. And by the start-up: a restart does not
  initialize the storage again (\<open>event_keeps\<close>).
\<close>

section \<open>Runs of an epoch\<close>

record epoch_run =
  er_crypto :: crypto
  er_epoch_state :: epoch_state
  er_honest :: "author set"
  er_vote_data :: "vote_data set"
  er_before :: "(author \<times> signed) set"

record network =
  net_nodes :: "author \<Rightarrow> service"
  net_log :: "(author \<times> signed) set"

abbreviation node :: "network \<Rightarrow> author \<Rightarrow> safety_rules" where
  "node s a \<equiv> sv_rules (net_nodes s a)"

abbreviation er_epoch :: "epoch_run \<Rightarrow> u64" where
  "er_epoch R \<equiv> es_epoch (er_epoch_state R)"

abbreviation er_verifier :: "epoch_run \<Rightarrow> validator_verifier" where
  "er_verifier R \<equiv> es_verifier (er_epoch_state R)"

text \<open>The message under a signature that a service gives out.\<close>

fun signed_message :: "signed \<Rightarrow> message" where
  "signed_message (SignedVote v) = msg_ledger_info (v_ledger_info v)"
| "signed_message (SignedTimeout t) = msg_timeout (signing_format t)"
| "signed_message (SignedProposal bd) = msg_block_data bd"
| "signed_message (SignedCommit l li) = msg_ledger_info li"

text \<open>The signatures of a certificate by honest validators are real.\<close>

definition has_signed :: "(author \<times> signed) set \<Rightarrow> author \<Rightarrow> message \<Rightarrow> bool" where
  "has_signed L a m \<longleftrightarrow> (\<exists>x. (a, x) \<in> L \<and> signed_message x = m)"

definition lis_backed :: "epoch_run \<Rightarrow> (author \<times> signed) set \<Rightarrow> ledger_info_with_signatures \<Rightarrow> bool" where
  "lis_backed R L l \<longleftrightarrow>
     (\<forall>a \<in> signers (er_verifier R) (lis_signatures l) \<inter> er_honest R.
        has_signed L a (msg_ledger_info (lis_ledger_info l)))"

definition tc_backed :: "epoch_run \<Rightarrow> (author \<times> signed) set \<Rightarrow> two_chain_timeout_certificate \<Rightarrow> bool" where
  "tc_backed R L tc \<longleftrightarrow>
     (\<forall>(a, h) \<in> set (get_voters_and_rounds (tc_signatures_with_rounds tc)
         (get_ordered_account_addresses (er_verifier R))).
        a \<in> er_honest R \<longrightarrow>
        has_signed L a (msg_timeout \<lparr>tsr_epoch = tc_epoch tc, tsr_round = tc_round tc, tsr_hqc_round = h\<rparr>))"

definition qc_admissible :: "epoch_run \<Rightarrow> (author \<times> signed) set \<Rightarrow> quorum_cert \<Rightarrow> bool" where
  "qc_admissible R L qc \<longleftrightarrow>
     (qc_verify (er_crypto R) qc (er_verifier R) = Ok () \<longrightarrow>
      qc_vote_data qc \<in> er_vote_data R \<and> lis_backed R L (qc_signed_ledger_info qc))"

definition tc_admissible :: "epoch_run \<Rightarrow> (author \<times> signed) set \<Rightarrow> two_chain_timeout_certificate option \<Rightarrow> bool" where
  "tc_admissible R L maybe_tc \<longleftrightarrow>
     (\<forall>tc. maybe_tc = Some tc \<longrightarrow> tc_verify (er_crypto R) tc (er_verifier R) = Ok () \<longrightarrow>
        tc_epoch tc = er_epoch R \<and> tc_backed R L tc)"

text \<open>What the adversary can ask.\<close>

fun admissible :: "epoch_run \<Rightarrow> (author \<times> signed) set \<Rightarrow> service_event \<Rightarrow> bool" where
  "admissible R L (Request now_usecs (ConstructAndSignVoteTwoChain vp tc)) \<longleftrightarrow>
     qc_admissible R L (b_quorum_cert (vp_block vp)) \<and> tc_admissible R L tc \<and>
     (\<forall>vd. gen_vote_data (er_crypto R) vp = Ok vd \<longrightarrow> vd \<in> er_vote_data R)"
| "admissible R L (Request now_usecs (SignCommitVote l li)) \<longleftrightarrow>
     (lis_verify_signatures (er_crypto R) l (er_verifier R) = Ok () \<longrightarrow> lis_backed R L l) \<and>
     consensus_data_hash li = consensus_data_hash (lis_ledger_info l)"
| "admissible R L (Request now_usecs (Initialize ecp)) \<longleftrightarrow>
     (\<forall>es. installs (er_crypto R) ecp es \<longrightarrow> er_epoch R \<le> es_epoch es \<longrightarrow> es = er_epoch_state R)"
| "admissible R L e \<longleftrightarrow> True"

definition log_of :: "author \<Rightarrow> signed option \<Rightarrow> (author \<times> signed) set" where
  "log_of a out = (case out of None \<Rightarrow> {} | Some x \<Rightarrow> {(a, x)})"

inductive net_step :: "epoch_run \<Rightarrow> network \<Rightarrow> network \<Rightarrow> bool" for R where
  net_act: "a \<in> er_honest R \<Longrightarrow> admissible R (net_log s) e \<Longrightarrow>
    service_step (er_crypto R) e (net_nodes s a) = (out, sv') \<Longrightarrow> event_keeps e (net_nodes s a) \<Longrightarrow>
    net_step R s \<lparr>net_nodes = (net_nodes s)(a := sv'), net_log = net_log s \<union> log_of a out\<rparr>"

text \<open>
  The start of the epoch: the honest services hold the data of the epoch and no vote. What they signed
  before is of other epochs.
\<close>

definition before_ledger_info :: "epoch_run \<Rightarrow> ledger_info \<Rightarrow> bool" where
  "before_ledger_info R li \<longleftrightarrow>
     (li_epoch li = er_epoch R \<longrightarrow> li_round li = 0) \<and>
     (\<forall>vd \<in> er_vote_data R.
        message_hash (er_crypto R) (msg_vote_data vd) = Some (consensus_data_hash li) \<longrightarrow>
        bi_epoch (vd_proposed vd) \<noteq> er_epoch R)"

fun signed_before :: "epoch_run \<Rightarrow> signed \<Rightarrow> bool" where
  "signed_before R (SignedVote v) \<longleftrightarrow> v_epoch v \<noteq> er_epoch R \<and> before_ledger_info R (v_ledger_info v)"
| "signed_before R (SignedTimeout t) \<longleftrightarrow> to_epoch t \<noteq> er_epoch R"
| "signed_before R (SignedProposal bd) \<longleftrightarrow> True"
| "signed_before R (SignedCommit l li) \<longleftrightarrow> before_ledger_info R li"

definition node_start :: "epoch_run \<Rightarrow> safety_rules \<Rightarrow> bool" where
  "node_start R sr \<longleftrightarrow>
     service_start sr \<and> (\<exists>d. sr_data sr = Some d \<and> sfd_epoch d = er_epoch R) \<and>
     sr_epoch_state sr \<in> {None, Some (er_epoch_state R)}"

text \<open>The hypotheses on the epoch: few faulty validators, and what is relied on of the cryptography.\<close>

definition epoch_assumptions :: "epoch_run \<Rightarrow> bool" where
  "epoch_assumptions R \<longleftrightarrow>
     wf_verifier (er_verifier R) \<and>
     3 * sum (vv_power (er_verifier R)) (- er_honest R \<inter> vv_members (er_verifier R))
       \<le> unat (total_voting_power (er_verifier R)) \<and>
     aggregate_lengths_checked (er_crypto R) \<and>
     (\<forall>vd \<in> er_vote_data R. \<forall>vd' \<in> er_vote_data R.
        message_hash (er_crypto R) (msg_vote_data vd) = message_hash (er_crypto R) (msg_vote_data vd') \<longrightarrow>
        message_hash (er_crypto R) (msg_vote_data vd) \<noteq> None \<longrightarrow> ser_vote_data vd = ser_vote_data vd') \<and>
     (\<forall>(a, x) \<in> er_before R. signed_before R x)"

inductive net_reachable :: "epoch_run \<Rightarrow> network \<Rightarrow> bool" for R where
  net_init: "(\<And>a. a \<in> er_honest R \<Longrightarrow> node_start R (sv_rules (nodes a))) \<Longrightarrow>
    net_reachable R \<lparr>net_nodes = nodes, net_log = er_before R\<rparr>"
| net_more: "net_reachable R s \<Longrightarrow> net_step R s s' \<Longrightarrow> net_reachable R s'"

definition epoch_reachable :: "epoch_run \<Rightarrow> network \<Rightarrow> bool" where
  "epoch_reachable R s \<longleftrightarrow> epoch_assumptions R \<and> net_reachable R s"

section \<open>Votes and certificates in the log\<close>

text \<open>
  Blocks and votes are compared by what is hashed of them: the cached fields of a verifier inside a
  block info are not.
\<close>

definition vote_pair :: "vote_data \<Rightarrow> serde \<times> serde" where
  "vote_pair vd = (ser_block_info (vd_proposed vd), ser_block_info (vd_parent vd))"

fun info_round :: "serde \<Rightarrow> nat" where
  "info_round (SStruct (_ # SU64 r # _)) = unat r"
| "info_round _ = 0"

definition log_voted :: "epoch_run \<Rightarrow> (author \<times> signed) set \<Rightarrow> author \<Rightarrow> serde \<times> serde \<Rightarrow> bool" where
  "log_voted R L n p \<longleftrightarrow>
     (\<exists>v. (n, SignedVote v) \<in> L \<and> v_epoch v = er_epoch R \<and> vote_pair (v_vote_data v) = p)"

definition log_timed :: "epoch_run \<Rightarrow> (author \<times> signed) set \<Rightarrow> author \<Rightarrow> nat \<Rightarrow> nat \<Rightarrow> bool" where
  "log_timed R L n r h \<longleftrightarrow>
     (\<exists>t. (n, SignedTimeout t) \<in> L \<and> to_epoch t = er_epoch R \<and> unat (to_round t) = r \<and> unat (hqc_round t) = h)"

definition log_certified :: "epoch_run \<Rightarrow> (author \<times> signed) set \<Rightarrow> serde \<times> serde \<Rightarrow> bool" where
  "log_certified R L p \<longleftrightarrow>
     (\<exists>Q. is_quorum (er_verifier R) Q \<and> (\<forall>n \<in> Q. n \<in> er_honest R \<longrightarrow> log_voted R L n p))"

text \<open>A block that is committed: certified with a certified child in the next round.\<close>

definition log_committed :: "epoch_run \<Rightarrow> (author \<times> signed) set \<Rightarrow> block_info \<Rightarrow> bool" where
  "log_committed R L bi \<longleftrightarrow>
     (\<exists>vd. log_certified R L (vote_pair vd) \<and>
        unat (bi_round (vd_proposed vd)) = Suc (unat (bi_round (vd_parent vd))) \<and>
        bi_round (vd_parent vd) = bi_round bi \<and> bi_id (vd_parent vd) = bi_id bi)"

inductive log_descends :: "epoch_run \<Rightarrow> (author \<times> signed) set \<Rightarrow> serde \<Rightarrow> serde \<Rightarrow> bool" for R L where
  descends_self: "log_descends R L b b"
| descends_child: "log_certified R L p \<Longrightarrow> log_descends R L b (snd p) \<Longrightarrow> log_descends R L b (fst p)"

lemma info_round_ser [simp]: "info_round (ser_block_info bi) = unat (bi_round bi)"
  by (simp add: ser_block_info_def)

lemma ser_block_info_eqD:
  assumes "ser_block_info a = ser_block_info b"
  shows "bi_epoch a = bi_epoch b" "bi_round a = bi_round b" "bi_id a = bi_id b"
  using assms by (simp_all add: ser_block_info_def)

lemma msg_ledger_info_eqD:
  assumes "msg_ledger_info li = msg_ledger_info li'"
  shows "bi_epoch (commit_info li) = bi_epoch (commit_info li')" "bi_round (commit_info li) = bi_round (commit_info li')"
    "bi_id (commit_info li) = bi_id (commit_info li')" "consensus_data_hash li = consensus_data_hash li'"
  using assms ser_block_info_eqD [of "commit_info li" "commit_info li'"]
  by (simp_all add: msg_ledger_info_def ser_ledger_info_def)

lemma signed_message_ledger_info:
  assumes "signed_message x = msg_ledger_info li"
  obtains (as_vote) v where "x = SignedVote v" "msg_ledger_info (v_ledger_info v) = msg_ledger_info li"
  | (as_commit) l li' where "x = SignedCommit l li'" "msg_ledger_info li' = msg_ledger_info li"
  using assms by (cases x) (auto simp: msg_ledger_info_def msg_timeout_def msg_block_data_def)

lemma signed_message_timeout:
  assumes "signed_message x = msg_timeout r"
  obtains t where "x = SignedTimeout t" "signing_format t = r"
  using assms by (cases x) (auto simp: msg_ledger_info_def msg_timeout_def msg_block_data_def)

lemma log_voted_mono: "L \<subseteq> L' \<Longrightarrow> log_voted R L n p \<Longrightarrow> log_voted R L' n p"
  by (auto simp: log_voted_def)

lemma log_timed_mono: "L \<subseteq> L' \<Longrightarrow> log_timed R L n r h \<Longrightarrow> log_timed R L' n r h"
  by (auto simp: log_timed_def)

lemma log_certified_mono: "L \<subseteq> L' \<Longrightarrow> log_certified R L p \<Longrightarrow> log_certified R L' p"
  unfolding log_certified_def using log_voted_mono by blast

lemma log_committed_mono: "L \<subseteq> L' \<Longrightarrow> log_committed R L bi \<Longrightarrow> log_committed R L' bi"
  unfolding log_committed_def using log_certified_mono by blast

section \<open>The invariant of a run\<close>

text \<open>What holds of every vote an honest service has made.\<close>

definition vote_justified :: "epoch_run \<Rightarrow> (author \<times> signed) set \<Rightarrow> vote_data \<Rightarrow> bool" where
  "vote_justified R L vd \<longleftrightarrow>
     bi_round (vd_parent vd) < bi_round (vd_proposed vd) \<and>
     (bi_round (vd_parent vd) \<noteq> 0 \<longrightarrow>
        (\<exists>p. log_certified R L p \<and> fst p = ser_block_info (vd_parent vd))) \<and>
     (unat (bi_round (vd_proposed vd)) \<noteq> Suc (unat (bi_round (vd_parent vd))) \<longrightarrow>
        (\<exists>Q. is_quorum (er_verifier R) Q \<and> (\<forall>m \<in> Q. m \<in> er_honest R \<longrightarrow>
           (\<exists>h \<le> unat (bi_round (vd_parent vd)). log_timed R L m (unat (bi_round (vd_proposed vd)) - 1) h))))"

definition vote_ok :: "epoch_run \<Rightarrow> (author \<times> signed) set \<Rightarrow> vote \<Rightarrow> bool" where
  "vote_ok R L v \<longleftrightarrow>
     v_epoch v = er_epoch R \<and> v_vote_data v \<in> er_vote_data R \<and>
     message_hash (er_crypto R) (msg_vote_data (v_vote_data v)) = Some (consensus_data_hash (v_ledger_info v)) \<and>
     vote_justified R L (v_vote_data v) \<and>
     (bi_round (commit_info (v_ledger_info v)) \<noteq> 0 \<longrightarrow>
        commit_info (v_ledger_info v) = vd_parent (v_vote_data v) \<and>
        unat (v_round v) = Suc (unat (bi_round (vd_parent (v_vote_data v)))))"

definition commit_ok :: "epoch_run \<Rightarrow> (author \<times> signed) set \<Rightarrow> ledger_info \<Rightarrow> bool" where
  "commit_ok R L li \<longleftrightarrow>
     (li_epoch li = er_epoch R \<longrightarrow> li_round li \<noteq> 0 \<longrightarrow> log_committed R L (commit_info li)) \<and>
     (\<forall>vd \<in> er_vote_data R.
        message_hash (er_crypto R) (msg_vote_data vd) = Some (consensus_data_hash li) \<longrightarrow>
        bi_epoch (vd_proposed vd) = er_epoch R \<longrightarrow> log_certified R L (vote_pair vd))"

definition node_inv :: "epoch_run \<Rightarrow> vote set \<Rightarrow> two_chain_timeout set \<Rightarrow> safety_rules \<Rightarrow> bool" where
  "node_inv R V T sr \<longleftrightarrow>
     service_inv V T sr \<and> (\<exists>d. sr_data sr = Some d \<and> sfd_epoch d = er_epoch R) \<and>
     sr_epoch_state sr \<in> {None, Some (er_epoch_state R)}"

fun item_ok :: "epoch_run \<Rightarrow> (author \<times> signed) set \<Rightarrow> vote set \<Rightarrow> two_chain_timeout set \<Rightarrow> signed \<Rightarrow> bool" where
  "item_ok R L V T (SignedVote v) \<longleftrightarrow> v \<in> V"
| "item_ok R L V T (SignedTimeout t) \<longleftrightarrow> t \<in> T"
| "item_ok R L V T (SignedProposal bd) \<longleftrightarrow> True"
| "item_ok R L V T (SignedCommit l li) \<longleftrightarrow> commit_ok R L li"

definition net_inv ::
  "epoch_run \<Rightarrow> (author \<Rightarrow> vote set) \<Rightarrow> (author \<Rightarrow> two_chain_timeout set) \<Rightarrow> network \<Rightarrow> bool" where
  "net_inv R V T s \<longleftrightarrow>
     (\<forall>a \<in> er_honest R.
        node_inv R (V a) (T a) (node s a) \<and>
        (\<forall>v \<in> V a. vote_ok R (net_log s) v) \<and>
        (\<forall>x. (a, x) \<in> net_log s \<longrightarrow> (a, x) \<in> er_before R \<or> item_ok R (net_log s) (V a) (T a) x))"

lemma net_invD:
  assumes "net_inv R V T s" and "a \<in> er_honest R"
  shows "node_inv R (V a) (T a) (node s a)"
    and "v \<in> V a \<Longrightarrow> vote_ok R (net_log s) v"
    and "(a, x) \<in> net_log s \<Longrightarrow> (a, x) \<in> er_before R \<or> item_ok R (net_log s) (V a) (T a) x"
  using assms by (auto simp: net_inv_def)

lemma vote_justified_mono:
  assumes "L \<subseteq> L'" and "vote_justified R L vd"
  shows "vote_justified R L' vd"
  using assms(2) log_certified_mono [OF assms(1), of R] log_timed_mono [OF assms(1), of R]
  unfolding vote_justified_def by meson

lemma vote_ok_mono: "L \<subseteq> L' \<Longrightarrow> vote_ok R L v \<Longrightarrow> vote_ok R L' v"
  by (simp add: vote_ok_def vote_justified_mono)

lemma commit_ok_mono: "L \<subseteq> L' \<Longrightarrow> commit_ok R L li \<Longrightarrow> commit_ok R L' li"
  unfolding commit_ok_def using log_certified_mono [of L L' R] log_committed_mono [of L L' R] by meson

lemma item_ok_mono: "L \<subseteq> L' \<Longrightarrow> V \<subseteq> V' \<Longrightarrow> T \<subseteq> T' \<Longrightarrow> item_ok R L V T x \<Longrightarrow> item_ok R L' V' T' x"
  using commit_ok_mono by (cases x) auto

text \<open>Steps of one node keep the invariant when what the node adds is in order.\<close>

lemma net_inv_update:
  assumes inv: "net_inv R V T s" and a: "a \<in> er_honest R"
    and node: "node_inv R V' T' (sv_rules sv')" and sub: "V a \<subseteq> V'" "T a \<subseteq> T'"
    and votes: "\<And>v. v \<in> V' \<Longrightarrow> v \<notin> V a \<Longrightarrow> vote_ok R (net_log s) v"
    and out: "\<And>x. out = Some x \<Longrightarrow> item_ok R (net_log s) V' T' x"
  shows "net_inv R (V(a := V')) (T(a := T')) \<lparr>net_nodes = (net_nodes s)(a := sv'), net_log = net_log s \<union> log_of a out\<rparr>"
proof -
  let ?L = "net_log s" and ?L' = "net_log s \<union> log_of a out"
  have L: "?L \<subseteq> ?L'" by simp
  have ok: "vote_ok R ?L' v" if "b \<in> er_honest R" "v \<in> (V(a := V')) b" for b v
  proof (rule vote_ok_mono [OF L], cases "b = a \<and> v \<notin> V a")
    case True
    then show "vote_ok R ?L v" using votes that(2) by simp
  next
    case False
    then show "vote_ok R ?L v" using net_invD(2) [OF inv that(1)] net_invD(2) [OF inv a] that(2)
      by (auto split: if_splits)
  qed
  have item: "(b, x) \<in> er_before R \<or> item_ok R ?L' ((V(a := V')) b) ((T(a := T')) b) x"
    if "b \<in> er_honest R" "(b, x) \<in> ?L'" for b x
  proof (cases "(b, x) \<in> ?L")
    case True
    from net_invD(3) [OF inv that(1) True] show ?thesis
      using item_ok_mono [OF L, of "V b" "(V(a := V')) b" "T b" "(T(a := T')) b" R x] sub by auto
  next
    case False
    then have "b = a" "out = Some x" using that(2) by (auto simp: log_of_def split: option.splits)
    then show ?thesis using item_ok_mono [OF L, of V' V' T' T' R x] out by simp
  qed
  show ?thesis using ok item node net_invD(1) [OF inv] by (auto simp: net_inv_def)
qed

section \<open>Certificates show votes\<close>

lemma epoch_assumptionsD:
  assumes "epoch_assumptions R"
  shows "wf_verifier (er_verifier R)"
    and "3 * sum (vv_power (er_verifier R)) (- er_honest R \<inter> vv_members (er_verifier R))
      \<le> unat (total_voting_power (er_verifier R))"
    and "aggregate_lengths_checked (er_crypto R)"
    and "vd \<in> er_vote_data R \<Longrightarrow> vd' \<in> er_vote_data R \<Longrightarrow>
      message_hash (er_crypto R) (msg_vote_data vd) = Some h \<Longrightarrow>
      message_hash (er_crypto R) (msg_vote_data vd') = Some h \<Longrightarrow> ser_vote_data vd = ser_vote_data vd'"
    and "(a, x) \<in> er_before R \<Longrightarrow> signed_before R x"
proof -
  note D = conjunct1 [OF assms [unfolded epoch_assumptions_def]]
    and D' = conjunct2 [OF assms [unfolded epoch_assumptions_def]]
  show "wf_verifier (er_verifier R)" "aggregate_lengths_checked (er_crypto R)"
    "3 * sum (vv_power (er_verifier R)) (- er_honest R \<inter> vv_members (er_verifier R))
      \<le> unat (total_voting_power (er_verifier R))"
    by (rule D, rule conjunct1 [OF conjunct2 [OF D']], rule conjunct1 [OF D'])
  show "ser_vote_data vd = ser_vote_data vd'"
    if "vd \<in> er_vote_data R" "vd' \<in> er_vote_data R" "message_hash (er_crypto R) (msg_vote_data vd) = Some h"
      "message_hash (er_crypto R) (msg_vote_data vd') = Some h"
    by (rule conjunct1 [OF conjunct2 [OF conjunct2 [OF D']], rule_format, OF that(1,2)]) (simp_all only: that not_False_eq_True option.distinct)
  show "(a, x) \<in> er_before R \<Longrightarrow> signed_before R x"
    using conjunct2 [OF conjunct2 [OF conjunct2 [OF D']]] by blast
qed

lemma run_quorums_meet:
  assumes "epoch_assumptions R" and "is_quorum (er_verifier R) Q" and "is_quorum (er_verifier R) Q'"
  shows "\<exists>a \<in> Q \<inter> Q'. a \<in> er_honest R"
proof -
  have "\<exists>a \<in> Q \<inter> Q'. a \<notin> - er_honest R"
    by (rule quorums_share_honest_signer [OF epoch_assumptionsD(1) [OF assms(1)] assms(2,3)
        epoch_assumptionsD(2) [OF assms(1)]])
  then show ?thesis by blast
qed

lemma same_hash_same_vote:
  assumes "epoch_assumptions R" and "vd \<in> er_vote_data R" "vd' \<in> er_vote_data R"
    and "message_hash (er_crypto R) (msg_vote_data vd) = Some h" "message_hash (er_crypto R) (msg_vote_data vd') = Some h"
  shows "vote_pair vd = vote_pair vd'"
proof -
  have "ser_vote_data vd = ser_vote_data vd'" by (rule epoch_assumptionsD(4) [OF assms])
  then show ?thesis by (simp add: vote_pair_def ser_vote_data_def)
qed

text \<open>
  An honest signer of a ledger info of the epoch has voted for it, unless it signed it as a commit
  vote; then the block was certified already.
\<close>

lemma signer_cases:
  assumes ass: "epoch_assumptions R" and inv: "net_inv R V T s" and a: "a \<in> er_honest R"
    and signed: "has_signed (net_log s) a (msg_ledger_info li)" and new: "\<not> before_ledger_info R li"
  obtains (voted) v where "(a, SignedVote v) \<in> net_log s" "v \<in> V a" "vote_ok R (net_log s) v"
      "msg_ledger_info (v_ledger_info v) = msg_ledger_info li"
  | (committed) li' where "commit_ok R (net_log s) li'" "msg_ledger_info li' = msg_ledger_info li"
proof -
  have same: "before_ledger_info R li' \<longleftrightarrow> before_ledger_info R li" if "msg_ledger_info li' = msg_ledger_info li" for li'
    using msg_ledger_info_eqD [OF that] by (simp add: before_ledger_info_def li_epoch_def li_round_def)
  obtain x where x: "(a, x) \<in> net_log s" "signed_message x = msg_ledger_info li"
    using signed by (auto simp: has_signed_def)
  from x(2) show thesis
  proof (cases rule: signed_message_ledger_info)
    case (as_vote v)
    then have "v \<in> V a" using net_invD(3) [OF inv a x(1)] epoch_assumptionsD(5) [OF ass, of a x] same new by auto
    then show thesis using voted [of v] as_vote x(1) net_invD(2) [OF inv a] by simp
  next
    case (as_commit l li')
    then have "commit_ok R (net_log s) li'" using net_invD(3) [OF inv a x(1)] epoch_assumptionsD(5) [OF ass, of a x] same new by auto
    then show thesis using committed as_commit by simp
  qed
qed

lemma backed_certified:
  assumes ass: "epoch_assumptions R" and inv: "net_inv R V T s"
    and ver: "lis_verify_signatures (er_crypto R) l (er_verifier R) = Ok ()" and backed: "lis_backed R (net_log s) l"
    and vd: "vd \<in> er_vote_data R" "bi_epoch (vd_proposed vd) = er_epoch R"
      "message_hash (er_crypto R) (msg_vote_data vd) = Some (consensus_data_hash (lis_ledger_info l))"
  shows "log_certified R (net_log s) (vote_pair vd)"
proof (rule ccontr)
  assume no: "\<not> ?thesis"
  have wf: "wf_verifier (er_verifier R)" by (rule epoch_assumptionsD(1) [OF ass])
  have new: "\<not> before_ledger_info R (lis_ledger_info l)" using vd by (auto simp: before_ledger_info_def)
  have "log_voted R (net_log s) a (vote_pair vd)"
    if "a \<in> signers (er_verifier R) (lis_signatures l)" "a \<in> er_honest R" for a
  proof -
    have "has_signed (net_log s) a (msg_ledger_info (lis_ledger_info l))" using backed that by (auto simp: lis_backed_def)
    then show ?thesis
    proof (cases rule: signer_cases [OF ass inv that(2) _ new, consumes 1, case_names voted committed])
      case (voted v)
      have "vote_pair (v_vote_data v) = vote_pair vd"
        using voted(3) vd msg_ledger_info_eqD(4) [OF voted(4)]
        by (intro same_hash_same_vote [OF ass]) (auto simp: vote_ok_def)
      then show ?thesis using voted(1,3) by (auto simp: log_voted_def vote_ok_def)
    next
      case (committed li')
      then show ?thesis using no vd msg_ledger_info_eqD(4) [OF committed(2)] by (auto simp: commit_ok_def)
    qed
  qed
  then have "log_certified R (net_log s) (vote_pair vd)"
    using lis_verify_signatures_quorum [OF wf ver] by (auto simp: log_certified_def)
  then show False using no by simp
qed

lemma backed_committed:
  assumes ass: "epoch_assumptions R" and inv: "net_inv R V T s"
    and ver: "lis_verify_signatures (er_crypto R) l (er_verifier R) = Ok ()" and backed: "lis_backed R (net_log s) l"
    and li: "li_epoch (lis_ledger_info l) = er_epoch R" "li_round (lis_ledger_info l) \<noteq> 0"
  shows "log_committed R (net_log s) (lis_commit_info l)"
proof (rule ccontr)
  assume no: "\<not> ?thesis"
  let ?Q = "signers (er_verifier R) (lis_signatures l)"
  have new: "\<not> before_ledger_info R (lis_ledger_info l)" using li by (simp add: before_ledger_info_def)
  have voted: "\<exists>v. (a, SignedVote v) \<in> net_log s \<and> vote_ok R (net_log s) v \<and>
      msg_ledger_info (v_ledger_info v) = msg_ledger_info (lis_ledger_info l)"
    if "a \<in> ?Q" "a \<in> er_honest R" for a
  proof -
    have "has_signed (net_log s) a (msg_ledger_info (lis_ledger_info l))" using backed that by (auto simp: lis_backed_def)
    then show ?thesis
    proof (cases rule: signer_cases [OF ass inv that(2) _ new, consumes 1, case_names voted committed])
      case (voted v)
      then show ?thesis by blast
    next
      case (committed li')
      note eq = msg_ledger_info_eqD [OF committed(2)]
      have "log_committed R (net_log s) (commit_info li')"
        using committed(1) li eq by (simp add: commit_ok_def li_epoch_def li_round_def)
      then show ?thesis using no eq by (simp add: log_committed_def lis_commit_info_def)
    qed
  qed
  have Q: "is_quorum (er_verifier R) ?Q"
    by (rule lis_verify_signatures_quorum [OF epoch_assumptionsD(1) [OF ass] ver])
  obtain a where a: "a \<in> ?Q" "a \<in> er_honest R" using run_quorums_meet [OF ass Q Q] by blast
  obtain v where v: "vote_ok R (net_log s) v" "msg_ledger_info (v_ledger_info v) = msg_ledger_info (lis_ledger_info l)"
    using voted [OF a] by blast
  have "log_voted R (net_log s) b (vote_pair (v_vote_data v))" if b: "b \<in> ?Q" "b \<in> er_honest R" for b
  proof -
    obtain w where w: "(b, SignedVote w) \<in> net_log s" "vote_ok R (net_log s) w"
      "msg_ledger_info (v_ledger_info w) = msg_ledger_info (lis_ledger_info l)"
      using voted [OF b] by blast
    have "vote_pair (v_vote_data w) = vote_pair (v_vote_data v)"
      using w(2) v(1) msg_ledger_info_eqD(4) [OF w(3)] msg_ledger_info_eqD(4) [OF v(2)]
      by (intro same_hash_same_vote [OF ass]) (auto simp: vote_ok_def)
    then show ?thesis using w(1,2) by (auto simp: log_voted_def vote_ok_def)
  qed
  then have "log_certified R (net_log s) (vote_pair (v_vote_data v))" using Q by (auto simp: log_certified_def)
  moreover have "commit_info (v_ledger_info v) = vd_parent (v_vote_data v)"
    "unat (v_round v) = Suc (unat (bi_round (vd_parent (v_vote_data v))))"
    using v(1) msg_ledger_info_eqD(2) [OF v(2)] li(2) by (auto simp: vote_ok_def li_round_def)
  ultimately have "log_committed R (net_log s) (lis_commit_info l)"
    using msg_ledger_info_eqD(2,3) [OF v(2)]
    by (auto simp: log_committed_def lis_commit_info_def v_round_def intro!: exI [of _ "v_vote_data v"])
  then show False using no by simp
qed

section \<open>The steps keep the invariant\<close>

lemma next_round_Ok: "next_round r = Ok r' \<Longrightarrow> unat r' = Suc (unat r)"
  by (simp add: next_round_eq_Ok)

lemma safe_to_vote_Ok:
  assumes "safe_to_vote b tc = Ok ()" and "bi_round (certified_block (b_quorum_cert b)) < b_round b"
  shows "unat (b_round b) = Suc (unat (bi_round (certified_block (b_quorum_cert b)))) \<or>
    (\<exists>t. tc = Some t \<and> unat (b_round b) = Suc (unat (tc_round t)) \<and>
       highest_hqc_round t \<le> bi_round (certified_block (b_quorum_cert b)))"
  using assms(1) safe_to_vote_iff [OF assms(2), of tc]
  by (simp add: vote_rule_def Let_def tc_round_def highest_hqc_round_def hqc_round_def word_le_nat_alt)

text \<open>A verified timeout certificate of the epoch shows timeouts of a quorum.\<close>

lemma backed_timeouts:
  assumes ass: "epoch_assumptions R"
    and ver: "tc_verify (er_crypto R) tc (er_verifier R) = Ok ()" and adm: "tc_admissible R L (Some tc)"
  shows "\<exists>Q. is_quorum (er_verifier R) Q \<and> (\<forall>m \<in> Q. m \<in> er_honest R \<longrightarrow>
    (\<exists>h \<le> unat (highest_hqc_round tc). log_timed R L m (unat (tc_round tc)) h))"
proof (rule exI, intro conjI ballI impI)
  let ?Q = "signers (er_verifier R) (asr_sig (tc_signatures_with_rounds tc))"
  note D = tc_verify_OkD [OF epoch_assumptionsD(1,3) [OF ass] ver]
  show "is_quorum (er_verifier R) ?Q" by (rule D(1))
  fix m
  assume m: "m \<in> ?Q" "m \<in> er_honest R"
  obtain h where h: "h \<le> highest_hqc_round tc"
    "(m, h) \<in> set (get_voters_and_rounds (tc_signatures_with_rounds tc) (get_ordered_account_addresses (er_verifier R)))"
    using D(2) [OF m(1)] by blast
  have epoch: "tc_epoch tc = er_epoch R" and "tc_backed R L tc" using adm ver by (auto simp: tc_admissible_def)
  then obtain x where x: "(m, x) \<in> L"
    "signed_message x = msg_timeout \<lparr>tsr_epoch = tc_epoch tc, tsr_round = tc_round tc, tsr_hqc_round = h\<rparr>"
    using h(2) m(2) by (fastforce simp: tc_backed_def has_signed_def)
  obtain t where "x = SignedTimeout t"
    "signing_format t = \<lparr>tsr_epoch = tc_epoch tc, tsr_round = tc_round tc, tsr_hqc_round = h\<rparr>"
    by (rule signed_message_timeout [OF x(2)])
  then have "log_timed R L m (unat (tc_round tc)) (unat h)"
    using x(1) epoch by (auto simp: log_timed_def signing_format_def)
  then show "\<exists>h \<le> unat (highest_hqc_round tc). log_timed R L m (unat (tc_round tc)) h"
    using h(1) by (auto simp: word_le_nat_alt)
qed

lemma new_vote_justified:
  assumes ass: "epoch_assumptions R" and inv: "net_inv R V T s"
    and ok: "vote_allowed (er_crypto R) now_usecs (Some (er_epoch_state R)) signer d vp tc v"
    and d: "sfd_epoch d = er_epoch R"
    and adm: "admissible R (net_log s) (Request now_usecs (ConstructAndSignVoteTwoChain vp tc))"
  shows "vote_justified R (net_log s) (v_vote_data v)"
proof -
  let ?b = "vp_block vp" and ?qc = "b_quorum_cert (vp_block vp)"
  have gen: "gen_vote_data (er_crypto R) vp = Ok (v_vote_data v)"
    and wf: "verify_well_formed now_usecs ?b = Ok ()" and safe: "safe_to_vote ?b tc = Ok ()"
    and qc: "qc_verify (er_crypto R) ?qc (er_verifier R) = Ok ()" and e: "b_epoch ?b = er_epoch R"
    and tc: "\<And>t. tc = Some t \<Longrightarrow> tc_verify (er_crypto R) t (er_verifier R) = Ok ()"
    using ok d by (auto simp: vote_allowed_def)
  note g = gen_vote_data_Ok [OF gen] and w = verify_well_formed_OkD [OF wf]
  have parent: "\<exists>p. log_certified R (net_log s) p \<and> fst p = ser_block_info (certified_block ?qc)"
    if pos: "bi_round (certified_block ?qc) \<noteq> 0"
  proof (intro exI conjI)
    note q = qc_verify_OkD [OF qc pos]
    have "qc_admissible R (net_log s) ?qc" using adm by simp
    then have "qc_vote_data ?qc \<in> er_vote_data R" "lis_backed R (net_log s) (qc_signed_ledger_info ?qc)"
      using qc by (simp_all add: qc_admissible_def)
    then show "log_certified R (net_log s) (vote_pair (qc_vote_data ?qc))"
      using backed_certified [OF ass inv q(2) _ _ _ q(1)] w(3) e by (simp add: certified_block_def)
    show "fst (vote_pair (qc_vote_data ?qc)) = ser_block_info (certified_block ?qc)"
      by (simp add: vote_pair_def certified_block_def)
  qed
  have timeouts: "\<exists>Q. is_quorum (er_verifier R) Q \<and> (\<forall>m \<in> Q. m \<in> er_honest R \<longrightarrow>
      (\<exists>h \<le> unat (bi_round (certified_block ?qc)). log_timed R (net_log s) m (unat (b_round ?b) - 1) h))"
    if skip: "unat (b_round ?b) \<noteq> Suc (unat (bi_round (certified_block ?qc)))"
  proof -
    obtain t where t: "tc = Some t" "unat (b_round ?b) = Suc (unat (tc_round t))"
      "highest_hqc_round t \<le> bi_round (certified_block ?qc)"
      using safe_to_vote_Ok [OF safe w(2)] skip by blast
    have le: "h \<le> unat (bi_round (certified_block ?qc))" if "h \<le> unat (highest_hqc_round t)" for h
      using that t(3) by (simp add: word_le_nat_alt)
    have "tc_admissible R (net_log s) (Some t)" using adm t(1) by simp
    from backed_timeouts [OF ass tc [OF t(1)] this] show ?thesis
      using le t(2) by (metis diff_Suc_1)
  qed
  show ?thesis using w(2) parent timeouts by (simp add: vote_justified_def g)
qed

lemma new_vote_ok:
  assumes ass: "epoch_assumptions R" and inv: "net_inv R V T s"
    and ok: "vote_allowed (er_crypto R) now_usecs (Some (er_epoch_state R)) signer d vp tc v"
    and d: "sfd_epoch d = er_epoch R"
    and adm: "admissible R (net_log s) (Request now_usecs (ConstructAndSignVoteTwoChain vp tc))"
  shows "vote_ok R (net_log s) v"
proof -
  have gen: "gen_vote_data (er_crypto R) vp = Ok (v_vote_data v)"
    and hash: "message_hash (er_crypto R) (msg_vote_data (v_vote_data v)) = Some (consensus_data_hash (v_ledger_info v))"
    and li: "construct_ledger_info_2chain (vp_block vp) (consensus_data_hash (v_ledger_info v)) = Ok (v_ledger_info v)"
    using ok by (auto simp: vote_allowed_def crypto_hash_eq_Ok)
  note g = gen_vote_data_Ok [OF gen] and f = vote_allowed_facts [OF ok]
  obtain r where "next_round (bi_round (vd_parent (v_vote_data v))) = Ok r"
    "v_ledger_info v = \<lparr>commit_info = (if r = v_round v then vd_parent (v_vote_data v) else block_info_empty),
      consensus_data_hash = consensus_data_hash (v_ledger_info v)\<rparr>"
    using li unfolding construct_ledger_info_2chain_def Let_def g(1) [symmetric] f(2) [symmetric]
    by (auto simp: result_simps)
  then have r: "unat r = Suc (unat (bi_round (vd_parent (v_vote_data v))))"
    "commit_info (v_ledger_info v) = (if r = v_round v then vd_parent (v_vote_data v) else block_info_empty)"
    using next_round_Ok by (auto dest: arg_cong [of _ _ commit_info])
  show ?thesis
    using new_vote_justified [OF assms] f(1) d gen adm hash r
    by (auto simp: vote_ok_def block_info_empty_def split: if_splits)
qed

lemma node_invD:
  assumes "node_inv R V T sr"
  obtains d where "sr_coherent sr" "sr_data sr = Some d" "history_inv d V T" "sfd_epoch d = er_epoch R"
    "sr_epoch_state sr = None \<or> sr_epoch_state sr = Some (er_epoch_state R)"
  using assms by (auto simp: node_inv_def service_inv_def)

lemma node_invI:
  assumes "service_inv V T sr" "sr_data sr = Some d" "sfd_epoch d = er_epoch R"
    "sr_epoch_state sr = None \<or> sr_epoch_state sr = Some (er_epoch_state R)"
  shows "node_inv R V T sr"
  using assms by (auto simp: node_inv_def)

lemma vote_step:
  assumes ass: "epoch_assumptions R" and inv: "net_inv R V T s" and a: "a \<in> er_honest R"
    and adm: "admissible R (net_log s) (Request now_usecs (ConstructAndSignVoteTwoChain vp tc))"
    and run: "construct_and_sign_vote_two_chain (er_crypto R) now_usecs vp tc (node s a) = (r, sr')"
  shows "\<exists>V'. V a \<subseteq> V' \<and> node_inv R V' (T a) sr' \<and> (\<forall>v. r = Ok v \<longrightarrow> v \<in> V') \<and>
    (\<forall>v \<in> V'. v \<notin> V a \<longrightarrow> vote_ok R (net_log s) v)"
proof -
  obtain d where d: "sr_coherent (node s a)" "sr_data (node s a) = Some d" "history_inv d (V a) (T a)"
    and e: "sfd_epoch d = er_epoch R"
    and es: "sr_epoch_state (node s a) = None \<or> sr_epoch_state (node s a) = Some (er_epoch_state R)"
    by (rule node_invD [OF net_invD(1) [OF inv a]])
  obtain V' where V': "V a \<subseteq> V'" "service_inv V' (T a) sr'" "\<forall>v. r = Ok v \<longrightarrow> v \<in> V'"
    "V' = V a \<or> (\<exists>v. V' = insert v (V a) \<and> vote_allowed (er_crypto R) now_usecs
       (sr_epoch_state (node s a)) (sr_validator_signer (node s a)) d vp tc v)"
    "sr_epoch_state sr' = sr_epoch_state (node s a)" "\<exists>d'. sr_data sr' = Some d' \<and> sfd_epoch d' = sfd_epoch d"
    using construct_and_sign_vote_inv [OF d run] by blast
  have "vote_ok R (net_log s) v" if "v \<in> V'" "v \<notin> V a" for v
  proof -
    have ok: "vote_allowed (er_crypto R) now_usecs (sr_epoch_state (node s a))
        (sr_validator_signer (node s a)) d vp tc v" using V'(4) that by blast
    then have "sr_epoch_state (node s a) = Some (er_epoch_state R)" using es by (auto simp: vote_allowed_def)
    then show ?thesis using new_vote_ok [OF ass inv _ e adm] ok by simp
  qed
  moreover have "node_inv R V' (T a) sr'" using node_invI V'(2,5,6) e es by metis
  ultimately show ?thesis using V'(1,3) by blast
qed

lemma timeout_step:
  assumes inv: "net_inv R V T s" and a: "a \<in> er_honest R"
    and run: "sign_timeout_with_qc (er_crypto R) t tc (node s a) = (r, sr')"
  shows "\<exists>T'. T a \<subseteq> T' \<and> node_inv R (V a) T' sr' \<and> (\<forall>sg. r = Ok sg \<longrightarrow> t \<in> T')"
proof -
  obtain d where d: "sr_coherent (node s a)" "sr_data (node s a) = Some d" "history_inv d (V a) (T a)"
    and e: "sfd_epoch d = er_epoch R"
    and es: "sr_epoch_state (node s a) = None \<or> sr_epoch_state (node s a) = Some (er_epoch_state R)"
    by (rule node_invD [OF net_invD(1) [OF inv a]])
  obtain T' where T': "T a \<subseteq> T'" "service_inv (V a) T' sr'" "\<forall>sg. r = Ok sg \<longrightarrow> t \<in> T'"
    "sr_epoch_state sr' = sr_epoch_state (node s a)" "\<exists>d'. sr_data sr' = Some d' \<and> sfd_epoch d' = sfd_epoch d"
    using sign_timeout_inv [OF d run] by blast
  have "node_inv R (V a) T' sr'" using node_invI T'(2,4,5) e es by metis
  then show ?thesis using T'(1,3) by blast
qed

lemma commit_vote_ok:
  assumes ass: "epoch_assumptions R" and inv: "net_inv R V T s" and a: "a \<in> er_honest R"
    and adm: "admissible R (net_log s) (Request now_usecs (SignCommitVote l li))"
    and run: "sign_commit_vote (er_crypto R) l li (node s a) = (Ok sg, sr')"
  shows "commit_ok R (net_log s) li"
proof -
  have es: "sr_epoch_state (node s a) = None \<or> sr_epoch_state (node s a) = Some (er_epoch_state R)"
    using net_invD(1) [OF inv a] by (auto simp: node_inv_def)
  then have ver: "lis_verify_signatures (er_crypto R) l (er_verifier R) = Ok ()"
    using sign_commit_vote_Ok(3) [OF run] by auto
  then have backed: "lis_backed R (net_log s) l" and hash: "consensus_data_hash li = consensus_data_hash (lis_ledger_info l)"
    using adm by auto
  have "match_ordered_only (lis_commit_info l) (commit_info li)" by (rule sign_commit_vote_Ok(2) [OF run])
  then have eq: "bi_epoch (lis_commit_info l) = bi_epoch (commit_info li)" "bi_round (lis_commit_info l) = bi_round (commit_info li)"
    "bi_id (lis_commit_info l) = bi_id (commit_info li)" by (auto simp: match_ordered_only_def)
  have "log_committed R (net_log s) (commit_info li)" if "li_epoch li = er_epoch R" "li_round li \<noteq> 0"
    using backed_committed [OF ass inv ver backed] that eq
    by (simp add: li_epoch_def li_round_def lis_commit_info_def log_committed_def)
  then show ?thesis using backed_certified [OF ass inv ver backed] hash by (auto simp: commit_ok_def)
qed

lemma initialize_step:
  assumes inv: "net_inv R V T s" and a: "a \<in> er_honest R"
    and adm: "admissible R (net_log s) (Request now_usecs (Initialize ecp))"
    and run: "sr_initialize (er_crypto R) ecp (node s a) = (r, sr')"
  shows "node_inv R (V a) (T a) sr'"
proof -
  obtain d where d: "sr_coherent (node s a)" "sr_data (node s a) = Some d" "history_inv d (V a) (T a)"
    and e: "sfd_epoch d = er_epoch R"
    and es: "sr_epoch_state (node s a) = None \<or> sr_epoch_state (node s a) = Some (er_epoch_state R)"
    by (rule node_invD [OF net_invD(1) [OF inv a]])
  note i = initialize_inv [OF d run]
  have only: "x = er_epoch_state R" if "installs (er_crypto R) ecp x" "sfd_epoch d \<le> es_epoch x" for x
    using adm that e by simp
  have "init_data d x = d" if "installs (er_crypto R) ecp x" "sfd_epoch d \<le> es_epoch x" for x
    using only [OF that] e by (simp add: init_data_def)
  then have "sr_data sr' = Some d" using i(4) by metis
  moreover have "sr_epoch_state sr' = None \<or> sr_epoch_state sr' = Some (er_epoch_state R)" using i(3) only es by metis
  ultimately show ?thesis using node_invI i(1) e by blast
qed

lemma quiet_step:
  assumes inv: "net_inv R V T s" and a: "a \<in> er_honest R"
    and same: "\<And>d. triple (at_data (Some d) (node s a)) m (\<lambda>_. at_data (Some d) (node s a))
      (at_data (Some d) (node s a))"
    and run: "m (node s a) = (r, sr')"
  shows "node_inv R (V a) (T a) sr'"
proof -
  obtain d where d: "sr_coherent (node s a)" "sr_data (node s a) = Some d" "history_inv d (V a) (T a)"
    and e: "sfd_epoch d = er_epoch R"
    and es: "sr_epoch_state (node s a) = None \<or> sr_epoch_state (node s a) = Some (er_epoch_state R)"
    by (rule node_invD [OF net_invD(1) [OF inv a]])
  note u = unchanged_inv [OF same d run]
  show ?thesis by (rule node_invI [OF u(1,4) e]) (use es u(3) in simp)
qed

lemma request_net_step:
  assumes ass: "epoch_assumptions R" and inv: "net_inv R V T s" and a: "a \<in> er_honest R"
    and adm: "admissible R (net_log s) (Request now_usecs input)"
    and run: "request_step (er_crypto R) now_usecs input (node s a) = (out, sr')"
  shows "\<exists>V' T'. net_inv R V' T'
    \<lparr>net_nodes = (net_nodes s)(a := (net_nodes s a)\<lparr>sv_rules := sr'\<rparr>), net_log = net_log s \<union> log_of a out\<rparr>"
  (is "\<exists>V' T'. net_inv R V' T' ?next")
proof -
  note update = net_inv_update [OF inv a, of _ _ "(net_nodes s a)\<lparr>sv_rules := sr'\<rparr>" out, simplified]
  have quiet: "\<exists>V' T'. net_inv R V' T' ?next"
    if "node_inv R (V a) (T a) sr'" "\<And>x. out = Some x \<Longrightarrow> item_ok R (net_log s) (V a) (T a) x"
    using update [OF that(1)] that(2) by blast
  show ?thesis
  proof (cases input)
    case ConsensusState
    obtain r where r: "get_consensus_state (node s a) = (r, sr')" "out = None"
      using run ConsensusState by (auto simp: request_step_def handle_message_def map_prod_id_eq split: prod.splits)
    show ?thesis using quiet quiet_step [OF inv a triple_consensus_state r(1)] r(2) by simp
  next
    case (Initialize ecp)
    obtain r where r: "sr_initialize (er_crypto R) ecp (node s a) = (r, sr')" "out = None"
      using run Initialize by (auto simp: request_step_def handle_message_def map_prod_id_eq split: prod.splits)
    show ?thesis using quiet initialize_step [OF inv a adm [unfolded Initialize] r(1)] r(2) by simp
  next
    case (SignProposal bd)
    obtain r where r: "sign_proposal (er_crypto R) bd (node s a) = (r, sr')"
      "out = signed_by input (OutSignature r)"
      using run SignProposal by (auto simp: request_step_def handle_message_def map_prod_id_eq split: prod.splits)
    have "item_ok R (net_log s) (V a) (T a) x" if "out = Some x" for x
      using that r(2) by (cases r) (auto simp: SignProposal)
    then show ?thesis using quiet quiet_step [OF inv a triple_sign_proposal_same r(1)] by blast
  next
    case (SignCommitVote l li)
    obtain r where r: "sign_commit_vote (er_crypto R) l li (node s a) = (r, sr')"
      "out = signed_by input (OutSignature r)"
      using run SignCommitVote by (auto simp: request_step_def handle_message_def map_prod_id_eq split: prod.splits)
    have "sr' = node s a" using sign_commit_vote_state [of "er_crypto R" l li "node s a"] r(1) by simp
    moreover have "item_ok R (net_log s) (V a) (T a) x" if "out = Some x" for x
    proof (cases r)
      case (Ok sg)
      then show ?thesis using that r commit_vote_ok [OF ass inv a adm [unfolded SignCommitVote]]
        by (auto simp: SignCommitVote)
    qed (use that r(2) in \<open>simp_all add: SignCommitVote\<close>)
    ultimately show ?thesis using quiet net_invD(1) [OF inv a] by blast
  next
    case (SignTimeoutWithQC t tc)
    obtain r where r: "sign_timeout_with_qc (er_crypto R) t tc (node s a) = (r, sr')"
      "out = signed_by input (OutSignature r)"
      using run SignTimeoutWithQC by (auto simp: request_step_def handle_message_def map_prod_id_eq split: prod.splits)
    obtain T' where T': "T a \<subseteq> T'" "node_inv R (V a) T' sr'" "\<forall>sg. r = Ok sg \<longrightarrow> t \<in> T'"
      using timeout_step [OF inv a r(1)] by blast
    have "item_ok R (net_log s) (V a) T' x" if "out = Some x" for x
      using that r(2) T'(3) by (cases r) (auto simp: SignTimeoutWithQC)
    then show ?thesis using update [OF T'(2) subset_refl T'(1)] by blast
  next
    case (ConstructAndSignVoteTwoChain vp tc)
    obtain r where r: "construct_and_sign_vote_two_chain (er_crypto R) now_usecs vp tc (node s a) = (r, sr')"
      "out = signed_by input (OutVote r)"
      using run ConstructAndSignVoteTwoChain by (auto simp: request_step_def handle_message_def map_prod_id_eq split: prod.splits)
    obtain V' where V': "V a \<subseteq> V'" "node_inv R V' (T a) sr'" "\<forall>v. r = Ok v \<longrightarrow> v \<in> V'"
      "\<forall>v \<in> V'. v \<notin> V a \<longrightarrow> vote_ok R (net_log s) v"
      using vote_step [OF ass inv a adm [unfolded ConstructAndSignVoteTwoChain] r(1)] by blast
    have "item_ok R (net_log s) V' (T a) x" if "out = Some x" for x
      using that r(2) V'(3) by (cases r) (auto simp: ConstructAndSignVoteTwoChain)
    then show ?thesis using update [OF V'(2,1) subset_refl] V'(4) by blast
  qed
qed

lemma net_step_inv:
  assumes ass: "epoch_assumptions R" and inv: "net_inv R V T s" and step: "net_step R s s'"
  shows "\<exists>V' T'. net_inv R V' T' s'"
  using step
proof cases
  case (net_act a e out sv')
  have same: "\<exists>V' T'. net_inv R V' T' s'" if "node_inv R (V a) (T a) (sv_rules sv')" "out = None"
    using net_inv_update [OF inv net_act(2) that(1), of out] that(2) net_act(1) by auto
  have node: "node_inv R (V a) (T a) (node s a)" by (rule net_invD(1) [OF inv net_act(2)])
  show ?thesis
  proof (cases e)
    case (Restart cfg)
    then have "start_up_keeps cfg (sv_storage (net_nodes s a))" using net_act(5) by simp
    from manager_new_data [OF this] show ?thesis
      using node net_act(4) Restart by (intro same) (auto simp: node_inv_def service_inv_def)
  next
    case (Request now_usecs input)
    show ?thesis
    proof (cases "sv_running (net_nodes s a)")
      case True
      then obtain sr' where "request_step (er_crypto R) now_usecs input (node s a) = (out, sr')"
        "sv' = (net_nodes s a)\<lparr>sv_rules := sr'\<rparr>"
        using net_act(4) Request by (auto split: prod.splits)
      then show ?thesis using request_net_step [OF ass inv net_act(2)] net_act(1,3) Request by simp
    next
      case False
      then show ?thesis using node net_act(4) Request by (intro same) auto
    qed
  qed
qed

lemma node_start_inv: "node_start R sr \<Longrightarrow> node_inv R {} {} sr"
  using service_start_inv by (auto simp: node_start_def node_inv_def)

lemma net_reachable_inv:
  assumes "epoch_assumptions R" and "net_reachable R s"
  shows "\<exists>V T. net_inv R V T s"
  using assms(2)
proof induction
  case (net_init nodes)
  then have "net_inv R (\<lambda>_. {}) (\<lambda>_. {}) \<lparr>net_nodes = nodes, net_log = er_before R\<rparr>"
    using node_start_inv by (auto simp: net_inv_def)
  then show ?case by blast
next
  case (net_more s s')
  then show ?case using net_step_inv [OF assms(1)] by blast
qed

section \<open>The run meets the contract\<close>

text \<open>Votes, timeouts and quorums of a reachable state.\<close>

definition run_quorum :: "epoch_run \<Rightarrow> network \<Rightarrow> author set \<Rightarrow> bool" where
  "run_quorum R s Q \<longleftrightarrow> epoch_reachable R s \<and> is_quorum (er_verifier R) Q"

definition run_voted :: "epoch_run \<Rightarrow> network \<Rightarrow> author \<Rightarrow> serde \<times> serde \<Rightarrow> bool" where
  "run_voted R s n p \<longleftrightarrow> epoch_reachable R s \<and> log_voted R (net_log s) n p"

definition run_certified :: "epoch_run \<Rightarrow> network \<Rightarrow> serde \<times> serde \<Rightarrow> bool" where
  "run_certified R s p \<longleftrightarrow> epoch_reachable R s \<and> log_certified R (net_log s) p"

lemma epoch_reachable_inv:
  assumes "epoch_reachable R s"
  obtains V T where "net_inv R V T s" "epoch_assumptions R"
  using assms net_reachable_inv [of R s] unfolding epoch_reachable_def by blast

lemma log_voted_made:
  assumes ass: "epoch_assumptions R" and inv: "net_inv R V T s" and n: "n \<in> er_honest R"
    and "log_voted R (net_log s) n p"
  obtains v where "v \<in> V n" "vote_pair (v_vote_data v) = p" "vote_ok R (net_log s) v"
proof -
  obtain v where v: "(n, SignedVote v) \<in> net_log s" "v_epoch v = er_epoch R" "vote_pair (v_vote_data v) = p"
    using assms(4) by (auto simp: log_voted_def)
  then have "v \<in> V n" using net_invD(3) [OF inv n v(1)] epoch_assumptionsD(5) [OF ass, of n "SignedVote v"] by auto
  then show thesis using that v(3) net_invD(2) [OF inv n] by blast
qed

lemma log_timed_made:
  assumes ass: "epoch_assumptions R" and inv: "net_inv R V T s" and n: "n \<in> er_honest R"
    and "log_timed R (net_log s) n r h"
  obtains t where "t \<in> T n" "to_epoch t = er_epoch R" "unat (to_round t) = r" "unat (hqc_round t) = h"
proof -
  obtain t where t: "(n, SignedTimeout t) \<in> net_log s" "to_epoch t = er_epoch R" "unat (to_round t) = r"
    "unat (hqc_round t) = h"
    using assms(4) by (auto simp: log_timed_def)
  then have "t \<in> T n" using net_invD(3) [OF inv n t(1)] epoch_assumptionsD(5) [OF ass, of n "SignedTimeout t"] by auto
  then show thesis using that t by blast
qed

lemma node_history:
  assumes "net_inv R V T s" and "n \<in> er_honest R"
  obtains d where "history_inv d (V n) (T n)"
  using node_invD [OF net_invD(1) [OF assms]] by blast

interpretation run_contract: two_chain_contract
  "\<lambda>n. n \<in> er_honest R" "run_quorum R s" "run_voted R s" "log_timed R (net_log s)" fst snd info_round
  "run_certified R s" "log_descends R (net_log s)"
  for R s
proof (unfold_locales, goal_cases)
  case (1 Q Q')
  then show ?case using run_quorums_meet by (auto simp: run_quorum_def epoch_reachable_def)
next
  case (2 n v v')
  then obtain V T where i: "net_inv R V T s" "epoch_assumptions R" by (auto simp: run_voted_def elim: epoch_reachable_inv)
  obtain u u' where u: "u \<in> V n" "vote_pair (v_vote_data u) = v" "u' \<in> V n" "vote_pair (v_vote_data u') = v'"
    "vote_ok R (net_log s) u" "vote_ok R (net_log s) u'"
    using log_voted_made [OF i(2,1) 2(1)] 2(2,3) by (metis run_voted_def)
  obtain d where d: "history_inv d (V n) (T n)" by (rule node_history [OF i(1) 2(1)])
  have "v_round u = v_round u'" using 2(4) u(2,4) by (auto simp: vote_pair_def v_round_def word_unat_eq_iff)
  moreover have "v_epoch u = v_epoch u'" using u(5,6) by (simp add: vote_ok_def)
  ultimately have "u = u'" using history_invD(9) [OF d u(1,3)] by simp
  then show ?case using u(2,4) by simp
next
  case (3 n v)
  then obtain V T where i: "net_inv R V T s" "epoch_assumptions R" by (auto simp: run_voted_def elim: epoch_reachable_inv)
  obtain u where "vote_pair (v_vote_data u) = v" "vote_ok R (net_log s) u"
    using log_voted_made [OF i(2,1) 3(1)] 3(2) by (metis run_voted_def)
  then show ?case by (auto simp: vote_ok_def vote_justified_def vote_pair_def word_less_nat_alt)
next
  case (4 n v)
  then obtain V T where i: "net_inv R V T s" "epoch_assumptions R" by (auto simp: run_voted_def elim: epoch_reachable_inv)
  obtain u where "vote_pair (v_vote_data u) = v" "vote_ok R (net_log s) u"
    using log_voted_made [OF i(2,1) 4(1)] 4(2) by (metis run_voted_def)
  then show ?case using 4 by (auto simp: vote_ok_def vote_justified_def vote_pair_def run_certified_def run_voted_def
      unat_gt_0)
next
  case (5 n v)
  then obtain V T where i: "net_inv R V T s" "epoch_assumptions R" by (auto simp: run_voted_def elim: epoch_reachable_inv)
  obtain u where "vote_pair (v_vote_data u) = v" "vote_ok R (net_log s) u"
    using log_voted_made [OF i(2,1) 5(1)] 5(2) by (metis run_voted_def)
  then show ?case using 5 by (auto simp: vote_ok_def vote_justified_def vote_pair_def run_quorum_def run_voted_def)
next
  case (6 n v r h)
  then obtain V T where i: "net_inv R V T s" "epoch_assumptions R" by (auto simp: run_voted_def elim: epoch_reachable_inv)
  obtain u where u: "u \<in> V n" "vote_pair (v_vote_data u) = v" "vote_ok R (net_log s) u"
    using log_voted_made [OF i(2,1) 6(1)] 6(2) by (metis run_voted_def)
  obtain t where t: "t \<in> T n" "to_epoch t = er_epoch R" "unat (to_round t) = r" "unat (hqc_round t) = h"
    using log_timed_made [OF i(2,1) 6(1,3)] by blast
  obtain d where d: "history_inv d (V n) (T n)" by (rule node_history [OF i(1) 6(1)])
  have "v_round u \<le> to_round t" using 6(4) u(2) t(3) by (auto simp: vote_pair_def v_round_def word_le_nat_alt)
  moreover have "v_epoch u = to_epoch t" using u(3) t(2) by (simp add: vote_ok_def)
  ultimately have "v_parent_round u \<le> hqc_round t" using history_invD(10) [OF d u(1) t(1)] by simp
  then show ?case using u(2) t(4) by (auto simp: vote_pair_def v_parent_round_def word_le_nat_alt)
next
  case (7 v)
  show ?case
  proof
    assume "run_certified R s v"
    then show "\<exists>Q. run_quorum R s Q \<and> (\<forall>n \<in> Q. n \<in> er_honest R \<longrightarrow> run_voted R s n v)"
      by (auto simp: run_certified_def log_certified_def run_quorum_def run_voted_def)
  next
    assume "\<exists>Q. run_quorum R s Q \<and> (\<forall>n \<in> Q. n \<in> er_honest R \<longrightarrow> run_voted R s n v)"
    then show "run_certified R s v"
      by (auto simp: run_certified_def log_certified_def run_quorum_def run_voted_def)
  qed
next
  case (8 b)
  show ?case by (rule descends_self)
next
  case (9 v b)
  then show ?case using descends_child by (auto simp: run_certified_def)
qed

section \<open>Safety\<close>

text \<open>
  C1. Safety of the two-chain protocol. In every reachable state of an epoch in which validators with
  at most a third of the voting power are faulty, take two ledger infos of the epoch that carry verified
  certificates. Then the blocks they commit are on one chain: the block of the higher round descends,
  through certified blocks, from the other; and if the rounds are equal, so are the blocks.

  The services of the honest validators may be sent any requests in any order and restarted at any time,
  within these limits (\<open>admissible\<close>, \<open>event_keeps\<close>): a certificate that verifies carries real signatures of
  the honest signers it names; a timeout certificate that verifies is of the epoch; the ledger info of a
  commit vote has the consensus data hash of the ordered one it comes with; the vote data that occur do not
  collide under the hash; an epoch change proof installs no other epoch state for this epoch or a later one
  (the run is over when a validator leaves the epoch); and no start-up initializes a storage again.
\<close>

theorem committed_blocks_on_one_chain:
  assumes run: "epoch_reachable R s"
    and l1: "lis_verify_signatures (er_crypto R) l1 (er_verifier R) = Ok ()" "lis_backed R (net_log s) l1"
      "li_epoch (lis_ledger_info l1) = er_epoch R" "li_round (lis_ledger_info l1) \<noteq> 0"
    and l2: "lis_verify_signatures (er_crypto R) l2 (er_verifier R) = Ok ()" "lis_backed R (net_log s) l2"
      "li_epoch (lis_ledger_info l2) = er_epoch R" "li_round (lis_ledger_info l2) \<noteq> 0"
    and le: "li_round (lis_ledger_info l1) \<le> li_round (lis_ledger_info l2)"
  shows "(\<exists>b1 b2. bi_round b1 = li_round (lis_ledger_info l1) \<and> bi_id b1 = consensus_block_id (lis_ledger_info l1) \<and>
      bi_round b2 = li_round (lis_ledger_info l2) \<and> bi_id b2 = consensus_block_id (lis_ledger_info l2) \<and>
      log_descends R (net_log s) (ser_block_info b1) (ser_block_info b2)) \<and>
    (li_round (lis_ledger_info l1) = li_round (lis_ledger_info l2) \<longrightarrow>
      consensus_block_id (lis_ledger_info l1) = consensus_block_id (lis_ledger_info l2))"
proof -
  obtain V T where i: "net_inv R V T s" "epoch_assumptions R" by (rule epoch_reachable_inv [OF run])
  obtain v1 where v1: "run_certified R s (vote_pair v1)"
    "unat (bi_round (vd_proposed v1)) = Suc (unat (bi_round (vd_parent v1)))"
    "bi_round (vd_parent v1) = li_round (lis_ledger_info l1)" "bi_id (vd_parent v1) = consensus_block_id (lis_ledger_info l1)"
    using backed_committed [OF i(2,1) l1] run
    by (auto simp: log_committed_def run_certified_def lis_commit_info_def li_round_def consensus_block_id_def)
  obtain v2 where v2: "run_certified R s (vote_pair v2)"
    "unat (bi_round (vd_proposed v2)) = Suc (unat (bi_round (vd_parent v2)))"
    "bi_round (vd_parent v2) = li_round (lis_ledger_info l2)" "bi_id (vd_parent v2) = consensus_block_id (lis_ledger_info l2)"
    using backed_committed [OF i(2,1) l2] run
    by (auto simp: log_committed_def run_certified_def lis_commit_info_def li_round_def consensus_block_id_def)
  note chain = run_contract.committed_chain [OF v1(1) _ _ v2(1)]
  have "log_descends R (net_log s) (ser_block_info (vd_parent v1)) (ser_block_info (vd_parent v2))"
    using chain(1) v1(2,3) v2(2,3) l1(4) l2(4) le by (simp add: vote_pair_def word_le_nat_alt unat_eq_0)
  moreover have "consensus_block_id (lis_ledger_info l1) = consensus_block_id (lis_ledger_info l2)"
    if "li_round (lis_ledger_info l1) = li_round (lis_ledger_info l2)"
    using chain(2) v1(2-4) v2(2-4) l1(4) l2(4) that ser_block_info_eqD(3) [of "vd_parent v1" "vd_parent v2"]
    by (simp add: vote_pair_def unat_eq_0)
  ultimately show ?thesis using v1(3,4) v2(3,4) by blast
qed

section \<open>A sample run\<close>

text \<open>The sample hash does not collide on encodings of equal length.\<close>

lemma sample_fold:
  "foldl (\<lambda>h b. 256 * h + ucast b) a bs = 256 ^ length bs * a + hv_new bs" for a :: hash_value and bs :: "u8 list"
proof (induction bs rule: rev_induct)
  case Nil
  then show ?case by (simp add: hv_new_def)
next
  case (snoc b bs)
  have "hv_new (bs @ [b]) = 256 * hv_new bs + ucast b"
  proof -
    have "hv_new (bs @ [b]) = push_bit 8 (hv_new bs) + ucast b"
      unfolding hv_new_snoc
    proof (rule disjunctive_add [symmetric])
      show "\<not> bit (push_bit 8 (hv_new bs)) n \<or> \<not> bit (ucast b :: hash_value) n" for n
        using bit_imp_le_length [of b n] by (auto simp: bit_simps)
    qed
    then show ?thesis by (simp add: push_bit_eq_mult mult.commute)
  qed
  then show ?case using snoc by (simp add: algebra_simps)
qed

lemma hv_new_inject:
  assumes "length xs = length ys" "length xs \<le> 32" "hv_new xs = hv_new ys"
  shows "xs = ys"
proof -
  have "rev xs ! i = rev ys ! i" if i: "i < length xs" for i
  proof (rule bit_eqI)
    fix n
    assume "possible_bit TYPE(8 word) n"
    then have n: "n < 8" by (simp add: possible_bit_word)
    have k: "8 * i + n < 256" "8 * i + n < 8 * length xs" using i n assms(2) by auto
    have "bit (hv_new xs) (8 * i + n) = bit (hv_new ys) (8 * i + n)" by (simp add: assms(3))
    then show "bit (rev xs ! i) n = bit (rev ys ! i) n"
      using k n assms(1) by (simp add: bit_hv_new)
  qed
  then have "rev xs = rev ys" using assms(1) by (intro nth_equalityI) auto
  then show ?thesis by simp
qed

lemma sample_hash_inject:
  assumes "type_name m = type_name m'" "length (sample_bcs (contents m)) = length (sample_bcs (contents m'))"
    "length (sample_bcs (contents m)) \<le> 32" "sample_hash m = sample_hash m'"
  shows "sample_bcs (contents m) = sample_bcs (contents m')"
proof -
  let ?p = "default_hasher_new (sha3_256 sample_crypto) (str_bytes (type_name m))"
  let ?f = "\<lambda>h (b :: u8). 256 * h + ucast b :: hash_value"
  have sha: "sha3_256 sample_crypto xs = foldl ?f 1 xs" for xs by (simp add: sample_crypto_def)
  have "sha3_256 sample_crypto (?p @ bs) = 256 ^ length bs * foldl ?f 1 ?p + hv_new bs" for bs
    unfolding sha foldl_append by (rule sample_fold)
  then have "hv_new (sample_bcs (contents m)) = hv_new (sample_bcs (contents m'))"
    using assms(1,2,4) by (simp add: sample_hash_def)
  then show ?thesis by (rule hv_new_inject [OF assms(2,3)])
qed

lemma message_hash_sample: "message_hash sample_crypto m = Some (sample_hash m)"
  by (simp add: message_hash_def sample_hash_def) (simp add: sample_crypto_def)

lemma sample_vote_data_hash:
  assumes "bi_next_epoch_state (vd_proposed vd) = None" "bi_next_epoch_state (vd_parent vd) = None"
    "bi_next_epoch_state (vd_proposed vd') = None" "bi_next_epoch_state (vd_parent vd') = None"
    and "sample_hash (msg_vote_data vd) = sample_hash (msg_vote_data vd')"
  shows "(ucast (bi_round (vd_proposed vd)) :: u8) = ucast (bi_round (vd_proposed vd'))"
  using sample_hash_inject [of "msg_vote_data vd" "msg_vote_data vd'"] assms
  by (simp add: msg_vote_data_def ser_vote_data_def ser_block_info_def)

definition sample_vote_data :: "quorum_cert \<Rightarrow> vote_data" where
  "sample_vote_data qc = vote_data_ordering_only (sample_vote_proposal qc)"

definition sample_qc1 :: quorum_cert where
  "sample_qc1 = sample_qc (sample_vote_data sample_genesis_qc) sample_genesis_info"

definition sample_epoch_run :: epoch_run where
  "sample_epoch_run =
     \<lparr>er_crypto = sample_crypto, er_epoch_state = sample_epoch_state 1, er_honest = {1, 2, 3},
      er_vote_data = {qc_vote_data sample_genesis_qc, sample_vote_data sample_genesis_qc, sample_vote_data sample_qc1},
      er_before = {}\<rparr>"

lemma sample_vote_data_simps [simp]:
  "vd_parent (sample_vote_data qc) = certified_block qc"
  "bi_round (vd_proposed (sample_vote_data qc)) = bi_round (certified_block qc) + 1"
  "bi_epoch (vd_proposed (sample_vote_data qc)) = bi_epoch (certified_block qc)"
  "bi_timestamp_usecs (vd_proposed (sample_vote_data qc)) = bi_timestamp_usecs (certified_block qc) + 1"
  "bi_version (vd_proposed (sample_vote_data qc)) = 0"
  "bi_next_epoch_state (vd_proposed (sample_vote_data qc)) = None"
  by (simp_all add: sample_vote_data_def vote_data_ordering_only_def gen_block_info_def)
    (simp add: sample_vote_proposal_def)

lemma sample_qc1_simps [simp]:
  "certified_block sample_qc1 = vd_proposed (sample_vote_data sample_genesis_qc)"
  "qc_vote_data sample_qc1 = sample_vote_data sample_genesis_qc"
  by (simp_all add: sample_qc1_def sample_qc_def certified_block_def)

lemma certified_sample_genesis [simp]: "certified_block sample_genesis_qc = sample_genesis_info"
  "qc_vote_data sample_genesis_qc = \<lparr>vd_proposed = sample_genesis_info, vd_parent = sample_genesis_info\<rparr>"
  by (simp_all add: sample_genesis_qc_def Let_def certified_block_def)

lemma sample_genesis_info_simps [simp]:
  "bi_round sample_genesis_info = 0" "bi_epoch sample_genesis_info = 1" "bi_timestamp_usecs sample_genesis_info = 0"
  "bi_next_epoch_state sample_genesis_info = None" "bi_version sample_genesis_info = 0"
  by (simp_all add: sample_genesis_info_def block_info_empty_def)

lemma sample_parent_qc1 [simp]: "sample_parent sample_qc1"
proof -
  have "vote_data_verify (sample_vote_data sample_genesis_qc) = Ok ()"
    by (simp add: vote_data_verify_def ensure_def)
  then have "qc_verify sample_crypto sample_qc1 sample_verifier = Ok ()"
    unfolding sample_qc1_def by (intro sample_qc_verifies) simp_all
  moreover have "\<not> qc_ends_epoch sample_qc1"
    by (simp add: sample_qc1_def sample_qc_def qc_ends_epoch_def sample_signed_def ends_epoch_def li_next_epoch_state_def)
  ultimately show ?thesis by (simp add: sample_parent_def)
qed


lemma sample_epoch_run_fields:
  "er_crypto sample_epoch_run = sample_crypto" "er_epoch_state sample_epoch_run = sample_epoch_state 1"
  "er_honest sample_epoch_run = {1, 2, 3}" "er_before sample_epoch_run = {}"
  by (simp_all add: sample_epoch_run_def)

lemma sample_assumptions: "epoch_assumptions sample_epoch_run"
proof -
  have no_next: "bi_next_epoch_state (vd_proposed vd) = None \<and> bi_next_epoch_state (vd_parent vd) = None"
    if "vd \<in> er_vote_data sample_epoch_run" for vd
    using that by (auto simp: sample_epoch_run_def)
  have round_eq: "vd = vd'"
    if "vd \<in> er_vote_data sample_epoch_run" "vd' \<in> er_vote_data sample_epoch_run"
      "(ucast (bi_round (vd_proposed vd)) :: u8) = ucast (bi_round (vd_proposed vd'))" for vd vd'
    using that by (auto simp: sample_epoch_run_def)
  have "- {1, 2, 3} \<inter> vv_members sample_verifier = {4}" by code_simp
  moreover have "vv_power sample_verifier 4 = 1" by code_simp
  ultimately have power: "3 * sum (vv_power sample_verifier) (- {1, 2, 3} \<inter> vv_members sample_verifier)
      \<le> unat (total_voting_power sample_verifier)"
    by (simp add: sample_total)
  have ser: "ser_vote_data vd = ser_vote_data vd'"
    if "vd \<in> er_vote_data sample_epoch_run" "vd' \<in> er_vote_data sample_epoch_run"
      "message_hash sample_crypto (msg_vote_data vd) = message_hash sample_crypto (msg_vote_data vd')" for vd vd'
    using round_eq [OF that(1,2)] sample_vote_data_hash [of vd vd'] no_next that by (simp add: message_hash_sample)
  have agg: "aggregate_lengths_checked sample_crypto" by (simp add: aggregate_lengths_checked_def sample_crypto_def)
  have es: "es_verifier (sample_epoch_state 1) = sample_verifier" by (simp add: sample_epoch_state_def)
  show ?thesis unfolding epoch_assumptions_def sample_epoch_run_fields es
    by (intro conjI ballI impI; (rule wf_sample_verifier power agg ser | simp); assumption?)
qed

text \<open>A sample validator that has voted up to round \<open>r\<close>, and its next vote.\<close>

definition sample_node :: "author \<Rightarrow> round \<Rightarrow> safety_rules \<Rightarrow> bool" where
  "sample_node a r sr \<longleftrightarrow>
     (\<exists>d. sr_ready sr d \<and> sfd_epoch d = 1 \<and> last_voted_round d = r \<and>
        (\<forall>v. last_vote d = Some v \<longrightarrow> v_round v = r)) \<and>
     sr_validator_signer sr = Some (sample_signer a) \<and> sr_epoch_state sr = Some (sample_epoch_state 1)"

abbreviation sample_request :: "quorum_cert \<Rightarrow> service_event" where
  "sample_request qc \<equiv> Request 100 (ConstructAndSignVoteTwoChain (sample_vote_proposal qc) None)"

lemma sample_node_votes:
  assumes node: "sample_node a (bi_round (certified_block qc)) sr" and qc: "sample_parent qc"
  shows "\<exists>sr'. request_step sample_crypto 100 (ConstructAndSignVoteTwoChain (sample_vote_proposal qc) None) sr =
      (Some (SignedVote (sample_vote a qc)), sr') \<and>
    sample_node a (bi_round (certified_block qc) + 1) sr'"
proof -
  obtain d where d: "sr_ready sr d" "sfd_epoch d = 1" "last_voted_round d = bi_round (certified_block qc)"
    "\<forall>v. last_vote d = Some v \<longrightarrow> v_round v = bi_round (certified_block qc)"
    "sr_validator_signer sr = Some (sample_signer a)" "sr_epoch_state sr = Some (sample_epoch_state 1)"
    using node by (auto simp: sample_node_def)
  have "bi_round (certified_block qc) < 100" using qc by (simp add: sample_parent_def)
  then have less: "bi_round (certified_block qc) \<noteq> bi_round (certified_block qc) + 1"
    using small_word_succ(1) [of "bi_round (certified_block qc)"] by auto
  let ?d' = "voted_data d (sample_vote_proposal qc) (sample_vote a qc)"
  have run: "construct_and_sign_vote_two_chain sample_crypto 100 (sample_vote_proposal qc) None sr =
      (Ok (sample_vote a qc), sr_store ?d' sr)"
  proof (rule construct_and_sign_vote_complete [OF d(1)])
    show "vote_allowed sample_crypto 100 (sr_epoch_state sr) (sr_validator_signer sr) d (sample_vote_proposal qc) None
        (sample_vote a qc)"
      unfolding d(5,6) by (rule sample_vote_allowed [OF qc d(2)]) (simp add: d(3))
    show "already_voted (b_round (vp_block (sample_vote_proposal qc))) d = None"
      using d(4) less by (auto simp: already_voted_def split: option.split)
  qed
  note w = sr_ready_write [OF d(1), where d' = ?d']
  have "sample_node a (bi_round (certified_block qc) + 1) (sr_store ?d' sr)"
    using w d(2,5,6) by (auto simp: sample_node_def intro!: exI [of _ ?d'])
  then show ?thesis using run by (simp add: request_step_def handle_message_def)
qed

lemma sample_net_vote:
  assumes reach: "net_reachable sample_epoch_run s" and a: "a \<in> {1, 2, 3}"
    and node: "sample_node a (bi_round (certified_block qc)) (node s a)" "sv_running (net_nodes s a)" and qc: "sample_parent qc"
    and adm: "qc_admissible sample_epoch_run (net_log s) qc" and vd: "sample_vote_data qc \<in> er_vote_data sample_epoch_run"
  shows "\<exists>s'. net_reachable sample_epoch_run s' \<and>
    net_log s' = insert (a, SignedVote (sample_vote a qc)) (net_log s) \<and>
    sample_node a (bi_round (certified_block qc) + 1) (node s' a) \<and> sv_running (net_nodes s' a) \<and> (\<forall>b. b \<noteq> a \<longrightarrow> net_nodes s' b = net_nodes s b)"
proof -
  obtain sr' where sr': "request_step sample_crypto 100 (ConstructAndSignVoteTwoChain (sample_vote_proposal qc) None)
        (node s a) = (Some (SignedVote (sample_vote a qc)), sr')" "sample_node a (bi_round (certified_block qc) + 1) sr'"
    using sample_node_votes [OF node(1) qc] by blast
  let ?sv' = "(net_nodes s a)\<lparr>sv_rules := sr'\<rparr>"
  let ?s' = "\<lparr>net_nodes = (net_nodes s)(a := ?sv'),
    net_log = net_log s \<union> log_of a (Some (SignedVote (sample_vote a qc)))\<rparr>"
  have gen: "gen_vote_data c (sample_vote_proposal qc) = Ok (sample_vote_data qc)" for c
    by (simp add: gen_vote_data_def sample_vote_data_def) (simp add: sample_vote_proposal_def)
  have "net_step sample_epoch_run s ?s'"
  proof (rule net_act)
    show "a \<in> er_honest sample_epoch_run" using a by (simp add: sample_epoch_run_def)
    show "admissible sample_epoch_run (net_log s) (sample_request qc)"
      using adm vd gen by (simp add: tc_admissible_def)
    show "service_step (er_crypto sample_epoch_run) (sample_request qc) (net_nodes s a) =
        (Some (SignedVote (sample_vote a qc)), ?sv')"
      using sr'(1) node(2) by (simp add: sample_epoch_run_def)
    show "event_keeps (sample_request qc) (net_nodes s a)" by simp
  qed
  then have "net_reachable sample_epoch_run ?s'" by (rule net_more [OF reach])
  then show ?thesis using sr'(2) node(2) by (intro exI [of _ ?s']) (simp add: log_of_def)
qed

lemma qc_admissible_mono: "L \<subseteq> L' \<Longrightarrow> qc_admissible R L qc \<Longrightarrow> qc_admissible R L' qc"
  unfolding qc_admissible_def lis_backed_def has_signed_def by blast

text \<open>A round in which the three honest validators vote, and the certificate it gives.\<close>

definition sample_state :: "round \<Rightarrow> network \<Rightarrow> bool" where
  "sample_state r s \<longleftrightarrow> net_reachable sample_epoch_run s \<and> 
     (\<forall>a \<in> {1, 2, 3}. sample_node a r (node s a) \<and> sv_running (net_nodes s a))"

lemma sample_round:
  assumes s: "sample_state (bi_round (certified_block qc)) s" and qc: "sample_parent qc"
    and adm: "qc_admissible sample_epoch_run (net_log s) qc" and vd: "sample_vote_data qc \<in> er_vote_data sample_epoch_run"
  shows "\<exists>s'. sample_state (bi_round (certified_block qc) + 1) s' \<and>
    (\<forall>a \<in> {1, 2, 3}. (a, SignedVote (sample_vote a qc)) \<in> net_log s')"
proof -
  note step = sample_net_vote [OF _ _ _ _ qc qc_admissible_mono [OF _ adm] vd]
  note s0 = s [unfolded sample_state_def]
  obtain s1 where s1: "net_reachable sample_epoch_run s1" "net_log s1 = insert (1, SignedVote (sample_vote 1 qc)) (net_log s)"
    "sample_node 1 (bi_round (certified_block qc) + 1) (node s1 1)" "sv_running (net_nodes s1 1)" "\<forall>b. b \<noteq> 1 \<longrightarrow> net_nodes s1 b = net_nodes s b"
    using step [of s 1] s0 by auto
  obtain s2 where s2: "net_reachable sample_epoch_run s2" "net_log s2 = insert (2, SignedVote (sample_vote 2 qc)) (net_log s1)"
    "sample_node 2 (bi_round (certified_block qc) + 1) (node s2 2)" "sv_running (net_nodes s2 2)" "\<forall>b. b \<noteq> 2 \<longrightarrow> net_nodes s2 b = net_nodes s1 b"
    using step [of s1 2] s0 s1 by (auto simp: subset_insertI)
  obtain s3 where s3: "net_reachable sample_epoch_run s3" "net_log s3 = insert (3, SignedVote (sample_vote 3 qc)) (net_log s2)"
    "sample_node 3 (bi_round (certified_block qc) + 1) (node s3 3)" "sv_running (net_nodes s3 3)" "\<forall>b. b \<noteq> 3 \<longrightarrow> net_nodes s3 b = net_nodes s2 b"
    using step [of s2 3] s0 s1 s2 by (auto simp: subset_insertI subset_insertI2)
  have "sample_state (bi_round (certified_block qc) + 1) s3" using s1 s2 s3 by (simp add: sample_state_def)
  moreover have "\<forall>a \<in> {1, 2, 3}. (a, SignedVote (sample_vote a qc)) \<in> net_log s3" using s1(2) s2(2) s3(2) by simp
  ultimately show ?thesis by blast
qed

definition sample_commit :: "quorum_cert \<Rightarrow> ledger_info_with_signatures" where
  "sample_commit qc =
     sample_signed \<lparr>commit_info = certified_block qc, consensus_data_hash = sample_hash (msg_vote_data (sample_vote_data qc))\<rparr>"

lemma sample_commit_backed:
  assumes "\<forall>a \<in> {1, 2, 3}. (a, SignedVote (sample_vote a qc)) \<in> L"
  shows "lis_backed sample_epoch_run L (sample_commit qc)"
proof -
  have "signed_message (SignedVote (sample_vote a qc)) = msg_ledger_info (lis_ledger_info (sample_commit qc))" for a
    by (simp add: sample_vote_def Let_def vote_new_with_signature_def sample_commit_def sample_signed_def sample_vote_data_def)
  then show ?thesis using assms unfolding lis_backed_def has_signed_def sample_epoch_run_fields by blast
qed

lemma sample_commit_verifies: "lis_verify_signatures sample_crypto (sample_commit qc) sample_verifier = Ok ()"
  by (simp add: sample_commit_def sample_signed_def lis_verify_signatures_def sample_cert_ok)

lemma sample_two_rounds: "\<exists>s. net_reachable sample_epoch_run s \<and>
    (\<forall>a \<in> {1, 2, 3}. (a, SignedVote (sample_vote a sample_qc1)) \<in> net_log s)"
proof -
  let ?s0 = "\<lparr>net_nodes = sample_running, net_log = er_before sample_epoch_run\<rparr>"
  have "node_start sample_epoch_run (sample_service a)" for a
    using sample_service_ready [of a] unfolding node_start_def sample_epoch_run_fields
    by (auto simp: sr_ready_def safety_data_new_def sample_epoch_state_def)
  moreover have "sample_node a 0 (sample_service a)" for a
    using sample_service_ready [of a] unfolding sample_node_def by (auto simp: safety_data_new_def)
  ultimately have "sample_state (bi_round (certified_block sample_genesis_qc)) ?s0"
    by (simp add: sample_state_def net_init)
  moreover have "qc_admissible sample_epoch_run (net_log ?s0) sample_genesis_qc"
  proof -
    have "signers sample_verifier aggregate_signature_empty = {}"
      by (simp add: signers_def ones_def aggregate_signature_empty_def bv_default_def)
    then show ?thesis
      by (simp add: qc_admissible_def lis_backed_def sample_epoch_run_fields sample_epoch_state_def)
        (simp add: sample_genesis_qc_def sample_epoch_run_def Let_def)
  qed
  moreover have "sample_vote_data sample_genesis_qc \<in> er_vote_data sample_epoch_run" by (simp add: sample_epoch_run_def)
  ultimately obtain s1 where s1: "sample_state (bi_round (certified_block sample_genesis_qc) + 1) s1"
    "\<forall>a \<in> {1, 2, 3}. (a, SignedVote (sample_vote a sample_genesis_qc)) \<in> net_log s1"
    using sample_round [OF _ sample_parent_genesis] by blast
  have "qc_signed_ledger_info sample_qc1 = sample_commit sample_genesis_qc"
    by (simp add: sample_qc1_def sample_qc_def sample_commit_def)
  then have "qc_admissible sample_epoch_run (net_log s1) sample_qc1"
    using sample_commit_backed [OF s1(2)] by (simp add: qc_admissible_def sample_epoch_run_def)
  moreover have "sample_vote_data sample_qc1 \<in> er_vote_data sample_epoch_run" by (simp add: sample_epoch_run_def)
  ultimately show ?thesis
    using sample_round [OF _ sample_parent_qc1, of s1] s1(1) by (auto simp: sample_state_def)
qed

theorem committed_blocks_on_one_chain_witness:
  "\<exists>s b1 b2. epoch_reachable sample_epoch_run s \<and> bi_round b1 = 1 \<and> bi_round b2 = 1 \<and> bi_id b1 = b_id (sample_block sample_genesis_qc) \<and>
     log_descends sample_epoch_run (net_log s) (ser_block_info b1) (ser_block_info b2)"
proof -
  obtain s where s: "net_reachable sample_epoch_run s"
    "\<forall>a \<in> {1, 2, 3}. (a, SignedVote (sample_vote a sample_qc1)) \<in> net_log s"
    using sample_two_rounds by blast
  have run: "epoch_reachable sample_epoch_run s" using s(1) sample_assumptions by (simp add: epoch_reachable_def)
  have v: "lis_verify_signatures (er_crypto sample_epoch_run) (sample_commit sample_qc1) (er_verifier sample_epoch_run) = Ok ()"
    using sample_commit_verifies by (simp add: sample_epoch_run_fields sample_epoch_state_def)
  have li: "li_epoch (lis_ledger_info (sample_commit sample_qc1)) = er_epoch sample_epoch_run"
    "li_round (lis_ledger_info (sample_commit sample_qc1)) = 1"
    "consensus_block_id (lis_ledger_info (sample_commit sample_qc1)) = b_id (sample_block sample_genesis_qc)"
    by (simp_all add: sample_commit_def sample_signed_def sample_epoch_run_fields sample_epoch_state_def li_epoch_def
        li_round_def consensus_block_id_def)
      (simp add: sample_vote_data_def vote_data_ordering_only_def gen_block_info_def sample_vote_proposal_def)
  have r: "li_round (lis_ledger_info (sample_commit sample_qc1)) \<noteq> 0" by (simp add: li(2))
  note b = sample_commit_backed [OF s(2)]
  show ?thesis
    using run committed_blocks_on_one_chain [OF run v b li(1) r v b li(1) r order.refl] unfolding li by blast
qed

end
