(* ===== verification/Timeout_Certs.thy ===== *)
theory Timeout_Certs
  imports Quorum_Cert
begin

text \<open>
  How \<^verbatim>\<open>TwoChainTimeoutWithPartialSignatures::aggregate_signatures\<close> and
  \<^verbatim>\<open>TwoChainTimeoutCertificate::verify\<close> of \<^verbatim>\<open>timeout_2chain.rs\<close> fit together: the signatures are added
  up in the order of the addresses and checked in the order of the validator indices, with the
  rounds listed by index. The lemmas show that timeouts which verify one by one, from a quorum,
  make a certificate that verifies.
\<close>

section \<open>Aggregating verified timeouts\<close>

text \<open>
  What \<^verbatim>\<open>blst\<close> documents of aggregate signatures: signatures that verify, each on its own message
  and under its own key, aggregate to one that verifies on those pairs of messages and keys, in
  whatever order the pairs are listed.
\<close>

definition bls_aggregate_complete :: "crypto \<Rightarrow> bool" where
  "bls_aggregate_complete c \<longleftrightarrow>
     (\<forall>sigs mps. sigs \<noteq> [] \<and> list_all2 (\<lambda>sig (m, pk). blst_verify c sig m pk) sigs mps \<longrightarrow>
       (\<exists>S. blst_aggregate_sigs c sigs = Some S \<and>
         (\<forall>mps'. mset mps' = mset mps \<longrightarrow> blst_aggregate_verify c S (map fst mps') (map snd mps'))))"

lemma foldl_pair:
  "foldl (\<lambda>(x, y) e. (f x e, g y e)) (x, y) es = (foldl f x es, foldl g y es)"
  by (induction es arbitrary: x y) auto

lemma foldl_add_signatures:
  assumes "bt_invar ps"
  shows "foldl (\<lambda>s (a, r, sg). ps_add_signature a sg s) partial_signatures_empty ps =
    \<lparr>ps_signatures = map (\<lambda>(a, r, sg). (a, sg)) ps\<rparr>"
  using assms
proof (induction ps rule: rev_induct)
  case (snoc p ps)
  obtain a r sg where p: "p = (a, r, sg)" by (cases p)
  let ?qs = "map (\<lambda>(a, r, sg). (a, sg)) ps"
  have fst: "map fst ?qs = map fst ps" by (induction ps) auto
  have sorted: "sorted_wrt (<) (map fst (ps @ [p]))" using snoc.prems by (simp add: bt_invar_def)
  then have less: "\<forall>k \<in> set (map fst ?qs). k < a" unfolding fst by (simp add: p sorted_wrt_append)
  then have "bt_get ?qs a = None" by (auto simp: bt_get_def map_of_eq_None_iff)
  then have "bt_or_insert a sg ?qs = ?qs @ [(a, sg)]"
    using bt_insert_last [OF less] by (simp add: bt_or_insert_def)
  moreover have "foldl (\<lambda>s (a, r, sg). ps_add_signature a sg s) partial_signatures_empty ps = \<lparr>ps_signatures = ?qs\<rparr>"
    using sorted by (intro snoc.IH) (simp add: bt_invar_def sorted_wrt_append)
  ultimately show ?case by (simp add: p ps_add_signature_def)
qed (simp add: partial_signatures_empty_def bt_empty_def)

lemma get_partial_sig_with_rounds_eq:
  assumes wf: "wf_verifier vv" and inv: "bt_invar (psr_signatures p)"
    and mem: "fst ` set (psr_signatures p) \<subseteq> vv_members vv"
  shows "get_partial_sig_with_rounds p (address_to_validator_index vv) =
    (\<lparr>ps_signatures = map (\<lambda>(a, r, sg). (a, sg)) (psr_signatures p)\<rparr>,
     bt_values (bt_collect (map (\<lambda>(a, r, sg). (index_of vv a, r)) (psr_signatures p))))"
proof -
  let ?ps = "psr_signatures p"
  have "foldl (\<lambda>(partial_sig, index_to_rounds) (address, (rnd, sig)).
            case bt_get (address_to_validator_index vv) address of
              Some index \<Rightarrow> (ps_add_signature address sig partial_sig, bt_insert index rnd index_to_rounds)
            | None \<Rightarrow> (partial_sig, index_to_rounds)) (x, y) ?ps =
      foldl (\<lambda>(x, y) e. (case e of (a, r, sg) \<Rightarrow> ps_add_signature a sg x,
                          case e of (a, r, sg) \<Rightarrow> bt_insert (index_of vv a) r y)) (x, y) ?ps" for x y
    using mem index_of_member(1) [OF wf] by (intro foldl_cong) (auto split: option.splits)
  then have "get_partial_sig_with_rounds p (address_to_validator_index vv) =
      (foldl (\<lambda>s (a, r, sg). ps_add_signature a sg s) partial_signatures_empty ?ps,
       bt_values (foldl (\<lambda>m (a, r, sg). bt_insert (index_of vv a) r m) bt_empty ?ps))"
    by (simp add: get_partial_sig_with_rounds_def foldl_pair)
  moreover have "foldl (\<lambda>m (a, r, sg). bt_insert (index_of vv a) r m) bt_empty ?ps =
      bt_collect (map (\<lambda>(a, r, sg). (index_of vv a, r)) ?ps)"
    by (simp add: bt_collect_def foldl_map case_prod_unfold)
  ultimately show ?thesis by (simp add: foldl_add_signatures [OF inv])
qed

lemma bt_collect_distinct:
  assumes "distinct (map fst ps)"
  shows "mset (bt_collect ps) = mset ps" and "sorted_wrt (<) (map fst (bt_collect ps))"
proof -
  show sorted: "sorted_wrt (<) (map fst (bt_collect ps))"
    using bt_invar_collect [of ps] by (simp add: bt_invar_def)
  have "bt_get (bt_collect ps) k = map_of ps k" for k
    unfolding bt_get_collect using assms by (intro map_of_inject_set [THEN iffD2, THEN fun_cong]) (simp_all flip: rev_map)
  then have "(k, v) \<in> set (bt_collect ps) \<longleftrightarrow> (k, v) \<in> set ps" for k v
    by (simp add: set_bt_iff [OF bt_invar_collect] map_of_eq_Some_iff [OF assms])
  moreover have "distinct (bt_collect ps)" "distinct ps"
    using sorted assms by (auto simp: strict_sorted_iff distinct_map)
  ultimately show "mset (bt_collect ps) = mset ps"
    by (intro set_eq_iff_mset_eq_distinct [THEN iffD1]) auto
qed

text \<open>The rounds of the signers, listed in the order of the bits that name them.\<close>

lemma rounds_by_index:
  fixes ps :: "(account_address, round \<times> bls_signature) btree_map"
  assumes wf: "wf_verifier vv" and inv: "bt_invar ps" and mem: "fst ` set ps \<subseteq> vv_members vv"
    and perm: "mset (iter_ones masks) = mset (map (index_of vv \<circ> fst) ps)"
  obtains rs where "bt_values (bt_collect (map (\<lambda>(a, r, sg). (index_of vv a, r)) ps)) = rs"
    and "length rs = length (iter_ones masks)"
    and "mset (zip (iter_ones masks) rs) = mset (map (\<lambda>(a, r, sg). (index_of vv a, r)) ps)"
    and "mset rs = mset (map (\<lambda>(a, r, sg). r) ps)"
proof -
  let ?irs = "map (\<lambda>(a, r, sg). (index_of vv a, r)) ps" and ?m = "bt_collect (map (\<lambda>(a, r, sg). (index_of vv a, r)) ps)"
  have fst: "map fst ?irs = map (index_of vv \<circ> fst) ps" by (auto simp: case_prod_unfold)
  have "distinct (map (index_of vv \<circ> fst) ps)"
    using perm distinct_iter_ones [of masks] mset_eq_imp_distinct_iff by blast
  then have m: "mset ?m = mset ?irs" "sorted_wrt (<) (map fst ?m)"
    using bt_collect_distinct [of ?irs] unfolding fst by auto
  have "mset (map fst ?m) = mset (iter_ones masks)"
    using arg_cong [OF m(1), of "image_mset fst"] perm unfolding mset_map [symmetric] fst by simp
  then have keys: "map fst ?m = iter_ones masks"
    using m(2) sorted_iter_ones [of masks] distinct_iter_ones [of masks]
    by (metis mset_eq_setD strict_sorted_equal strict_sorted_iff)
  have zip: "zip (iter_ones masks) (bt_values ?m) = ?m"
    unfolding keys [symmetric] bt_values_def by (rule zip_map_fst_snd)
  show thesis
  proof (rule that [OF refl])
    show "length (bt_values ?m) = length (iter_ones masks)"
      unfolding keys [symmetric] by (simp add: bt_values_def)
    show "mset (zip (iter_ones masks) (bt_values ?m)) = mset ?irs" unfolding zip by (rule m(1))
    show "mset (bt_values ?m) = mset (map (\<lambda>(a, r, sg). r) ps)"
      using arg_cong [OF m(1), of "image_mset snd"] unfolding bt_values_def mset_map [symmetric]
      by (simp add: case_prod_unfold comp_def)
  qed
qed

lemma list_max_Max: "xs \<noteq> [] \<Longrightarrow> list_max xs = Some (Max (set xs))" for xs :: "'a :: linorder list"
  by (cases xs) (simp_all add: list_max_def Max.set_eq_fold [symmetric] foldl_conv_fold max.commute del: Max_insert)

text \<open>The aggregate of verified signatures, each on its own message, is accepted on those messages.\<close>

lemma verified_aggregate:
  fixes ps :: "(account_address, round \<times> bls_signature) btree_map" and msg :: "round \<Rightarrow> message"
  assumes wf: "wf_verifier vv" and bls: "bls_aggregate_complete c" and ne: "ps \<noteq> []"
    and each: "\<And>a r sg. (a, r, sg) \<in> set ps \<Longrightarrow> verifier_verify c vv a (msg r) sg = Ok ()"
    and len: "length rs = length is"
    and perm: "mset (zip is rs) = mset (map (\<lambda>(a, r, sg). (index_of vv a, r)) ps)"
  obtains S where "sig_aggregate c (map (\<lambda>(a, r, sg). sg) ps) = Ok S"
    and "sig_verify_aggregate c S (map msg rs) (map (\<lambda>i. vci_public_key (validator_infos vv ! i)) is) = Ok ()"
proof -
  let ?pk = "\<lambda>i. vci_public_key (validator_infos vv ! i)"
  define mb where "mb r = (case signing_message c (msg r) of Ok bs \<Rightarrow> bs | _ \<Rightarrow> [])" for r
  have verified: "signing_message c (msg r) = Ok (mb r) \<and> blst_verify c sg (mb r) (?pk (index_of vv a))"
    if "(a, r, sg) \<in> set ps" for a r sg
    using each [OF that] verifier_verify_member [OF wf, of a] verifier_verify_known [OF wf]
    by (auto simp: sig_verify_eq_Ok mb_def)
  let ?mps = "map (\<lambda>(a, r, sg). (mb r, ?pk (index_of vv a))) ps"
    and ?mps' = "map (\<lambda>(i, r). (mb r, ?pk i)) (zip is rs)"
  have "list_all2 (\<lambda>sig (m, pk). blst_verify c sig m pk) (map (\<lambda>(a, r, sg). sg) ps) ?mps"
    using verified by (auto simp: list_all2_conv_all_nth case_prod_unfold)
  moreover have "mset ?mps' = mset ?mps"
    using arg_cong [OF perm, of "image_mset (\<lambda>(i, r). (mb r, ?pk i))"] by (simp add: case_prod_unfold multiset.map_comp comp_def)
  ultimately obtain S where "blst_aggregate_sigs c (map (\<lambda>(a, r, sg). sg) ps) = Some S"
    and "blst_aggregate_verify c S (map fst ?mps') (map snd ?mps')"
    using bls ne unfolding bls_aggregate_complete_def by (metis (no_types, lifting) map_is_Nil_conv)
  moreover have "map fst ?mps' = map mb rs" and "map snd ?mps' = map ?pk is"
    using len by (auto intro!: nth_equalityI)
  moreover have "set rs \<subseteq> (\<lambda>(a, r, sg). r) ` set ps"
    using arg_cong [OF mset_eq_setD [OF perm], of "image snd"] len
    by (force simp: set_zip image_image case_prod_unfold in_set_conv_nth)
  then have "list_all2 (\<lambda>m b. signing_message c m = Ok b) (map msg rs) (map mb rs)"
    using verified by (force simp: list_all2_conv_all_nth in_set_conv_nth)
  ultimately show thesis
    by (intro that [of S]) (auto simp: sig_aggregate_def ok_or_def sig_verify_aggregate_eq_Ok)
qed

lemma tp_aggregate_eq:
  assumes wf: "wf_verifier vv" and bls: "bls_aggregate_complete c"
    and inv: "bt_invar (psr_signatures (tp_signatures p))" and ne: "psr_signatures (tp_signatures p) \<noteq> []"
    and mem: "fst ` set (psr_signatures (tp_signatures p)) \<subseteq> vv_members vv"
    and each: "\<And>a r sg. (a, r, sg) \<in> set (psr_signatures (tp_signatures p)) \<Longrightarrow> verifier_verify c vv a (msg r) sg = Ok ()"
  obtains masks S rs where "tp_aggregate_signatures c p vv =
      Ok \<lparr>tc_timeout = tp_timeout p,
        tc_signatures_with_rounds = \<lparr>asr_sig = aggregate_signature_new masks (Some S), asr_rounds = rs\<rparr>\<rparr>"
    and "check_num_of_voters (of_nat (vv_len vv)) masks = Ok ()" and "ones masks \<subseteq> {..<vv_len vv}"
    and "mset (iter_ones masks) = mset (map (index_of vv \<circ> fst) (psr_signatures (tp_signatures p)))"
    and "length rs = length (iter_ones masks)"
    and "mset rs = mset (map (\<lambda>(a, r, sg). r) (psr_signatures (tp_signatures p)))"
    and "sig_verify_aggregate c S (map msg rs) (map (\<lambda>i. vci_public_key (validator_infos vv ! i)) (iter_ones masks)) = Ok ()"
proof -
  let ?ps = "psr_signatures (tp_signatures p)"
  let ?qs = "map (\<lambda>(a, r, sg). (a, sg)) ?ps"
  have fst: "map fst ?qs = map fst ?ps" by (auto simp: case_prod_unfold)
  have snd: "map snd ?qs = map (\<lambda>(a, r, sg). sg) ?ps" by (auto simp: case_prod_unfold)
  have qinv: "bt_invar ?qs" using inv unfolding bt_invar_def fst .
  have qmem: "fst ` set ?qs \<subseteq> vv_members vv" using mem fst by (metis list.set_map)
  obtain masks where loop: "for_each (\<lambda>(sigs, masks) (addr, sig).
        and_then (ok_or (bt_get (address_to_validator_index vv) addr) UnknownAuthor) (\<lambda>index.
        Ok (sigs @ [sig], bv_set masks (of_nat index))))
      ([], with_num_bits (of_nat (vv_len vv))) ?qs = Ok (map snd ?qs, masks)"
    and check: "check_num_of_voters (of_nat (vv_len vv)) masks = Ok ()"
    and below: "ones masks \<subseteq> {..<vv_len vv}"
    and qperm: "mset (iter_ones masks) = mset (map (index_of vv \<circ> fst) ?qs)"
    using aggregate_masks [OF wf qinv qmem] .
  have perm: "mset (iter_ones masks) = mset (map (index_of vv \<circ> fst) ?ps)"
    using qperm by (simp only: map_map [symmetric] fst)
  obtain rs where rs: "bt_values (bt_collect (map (\<lambda>(a, r, sg). (index_of vv a, r)) ?ps)) = rs"
    and len: "length rs = length (iter_ones masks)"
    and zip: "mset (zip (iter_ones masks) rs) = mset (map (\<lambda>(a, r, sg). (index_of vv a, r)) ?ps)"
    and rounds: "mset rs = mset (map (\<lambda>(a, r, sg). r) ?ps)"
    by (rule rounds_by_index [OF wf inv mem perm])
  obtain S where S: "sig_aggregate c (map (\<lambda>(a, r, sg). sg) ?ps) = Ok S"
    and ver: "sig_verify_aggregate c S (map msg rs) (map (\<lambda>i. vci_public_key (validator_infos vv ! i)) (iter_ones masks)) = Ok ()"
    by (rule verified_aggregate [OF wf bls ne each len zip])
  have "aggregate_signatures c vv \<lparr>ps_signatures = ?qs\<rparr> = Ok (aggregate_signature_new masks (Some S))"
    by (simp only: aggregate_signatures_def partial_signatures.simps loop and_then.simps prod.case snd S map_err.simps)
  then have "tp_aggregate_signatures c p vv =
      Ok \<lparr>tc_timeout = tp_timeout p,
        tc_signatures_with_rounds = \<lparr>asr_sig = aggregate_signature_new masks (Some S), asr_rounds = rs\<rparr>\<rparr>"
    using len length_iter_ones [OF check_num_of_voters_wf [OF check]]
    by (simp add: tp_aggregate_signatures_def get_partial_sig_with_rounds_eq [OF wf inv mem] rs asr_new_def
        rust_assert_def get_num_voters_def aggregate_signature_new_def)
  from that [OF this check below perm len rounds ver] show thesis .
qed

text \<open>Timeouts of a quorum that verify one by one make a timeout certificate that verifies.\<close>

lemma timeouts_aggregate:
  assumes wf: "wf_verifier vv" and bls: "bls_aggregate_complete c"
    and inv: "bt_invar (psr_signatures (tp_signatures p))"
    and each: "\<And>a r sg. (a, r, sg) \<in> set (psr_signatures (tp_signatures p)) \<Longrightarrow>
      verifier_verify c vv a (msg_timeout \<lparr>tsr_epoch = to_epoch (tp_timeout p),
        tsr_round = to_round (tp_timeout p), tsr_hqc_round = r\<rparr>) sg = Ok ()"
    and q: "is_quorum vv (set (tp_signers p))"
    and timeout: "timeout_verify c (tp_timeout p) vv = Ok ()"
    and max: "hqc_round (tp_timeout p) = Max ((\<lambda>(a, r, sg). r) ` set (psr_signatures (tp_signatures p)))"
  shows "\<exists>tc. tp_aggregate_signatures c p vv = Ok tc \<and> tc_verify c tc vv = Ok () \<and>
    tc_timeout tc = tp_timeout p \<and> signers vv (asr_sig (tc_signatures_with_rounds tc)) = set (tp_signers p)"
proof -
  let ?ps = "psr_signatures (tp_signatures p)" and ?addr = "\<lambda>i. vci_address (validator_infos vv ! i)"
    and ?pk = "\<lambda>i. vci_public_key (validator_infos vv ! i)"
  let ?msg = "\<lambda>r. msg_timeout \<lparr>tsr_epoch = to_epoch (tp_timeout p), tsr_round = to_round (tp_timeout p), tsr_hqc_round = r\<rparr>"
  have signers: "set (tp_signers p) = fst ` set ?ps" by (simp add: tp_signers_def)
  have mem: "fst ` set ?ps \<subseteq> vv_members vv" using q by (simp add: is_quorum_def signers)
  have ne: "?ps \<noteq> []" using q quorum_nonempty [OF wf] by (auto simp: signers)
  obtain masks S rs where tp: "tp_aggregate_signatures c p vv =
      Ok \<lparr>tc_timeout = tp_timeout p,
        tc_signatures_with_rounds = \<lparr>asr_sig = aggregate_signature_new masks (Some S), asr_rounds = rs\<rparr>\<rparr>"
      (is "_ = Ok ?tc")
    and check: "check_num_of_voters (of_nat (vv_len vv)) masks = Ok ()" and below: "ones masks \<subseteq> {..<vv_len vv}"
    and perm: "mset (iter_ones masks) = mset (map (index_of vv \<circ> fst) ?ps)"
    and len: "length rs = length (iter_ones masks)" and rounds: "mset rs = mset (map (\<lambda>(a, r, sg). r) ?ps)"
    and ver: "sig_verify_aggregate c S (map ?msg rs) (map ?pk (iter_ones masks)) = Ok ()"
    by (rule tp_aggregate_eq [OF wf bls inv ne mem each])
  note wf_bv = check_num_of_voters_wf [OF check]
  note addrs = aggregated_addresses [OF wf mem perm]
  have "get_voter_addresses (asr_sig (tc_signatures_with_rounds ?tc)) (get_ordered_account_addresses vv) =
      map ?addr (iter_ones masks)"
    using get_voter_addresses_eq [of "asr_sig (tc_signatures_with_rounds ?tc)" "get_ordered_account_addresses vv"]
      subsetD [OF below] wf_bv vv_len_less [OF wf] set_iter_ones [OF wf_bv]
    by (auto simp: get_ordered_account_addresses_def aggregate_signature_new_def vv_len_def)
  then have msgs: "tc_messages ?tc vv = map ?msg rs"
    using len by (auto simp: tc_messages_def get_voters_and_rounds_def tc_epoch_def tc_round_def intro!: nth_equalityI)
  have "distinct (map ?addr (iter_ones masks))" and addr_set: "set (map ?addr (iter_ones masks)) = set (tp_signers p)"
    using mset_eq_imp_distinct_iff [OF addrs] bt.distinct_keys [OF inv] mset_eq_setD [OF addrs]
    by (simp_all add: bt_keys_def signers)
  then have power: "check_voting_power vv (map ?addr (iter_ones masks)) = Ok ()"
    using check_voting_power_quorum [OF wf] q by metis
  have voters: "voters_of_bitmask vv masks = Ok (map ?addr (iter_ones masks), map ?pk (iter_ones masks))"
    using below by (subst voters_of_bitmask_eq_Ok [OF wf_bv]) auto
  have "list_max rs = Some (hqc_round (tp_timeout p))"
    using mset_eq_setD [OF rounds] ne len max mset_eq_length [OF rounds] by (subst list_max_Max) auto
  then have "tc_verify c ?tc vv = Ok ()"
    using timeout check power ver
    by (simp add: tc_verify_def verify_aggregate_signatures_def msgs [unfolded aggregate_signature_new_def] voters aggregate_signature_new_def ok_or_def
        expect_def highest_hqc_round_def ensure_def)
  moreover have "signers vv (asr_sig (tc_signatures_with_rounds ?tc)) = set (tp_signers p)"
    using addr_set wf_bv by (simp add: signers_def aggregate_signature_new_def set_iter_ones)
  ultimately show ?thesis using tp by auto
qed

end
