(* ===== verification/Pending_Votes.thy ===== *)
theory Pending_Votes
  imports Consensus_Msgs Timeout_Certs
begin

text \<open>
  The votes of the current round that a validator collects, \<^verbatim>\<open>consensus/src/pending_votes.rs\<close>:
  detection of duplicate and equivocating votes, the formation of quorum certificates and of
  two-chain timeout certificates, and the echo of a timeout. The lemmas show that, whatever else
  arrives in between, the votes of a quorum of validators that do not equivocate produce a
  certificate, and that every certificate produced verifies. The counters the code updates are
  left out; a hash map is kept in the order of its keys, and only \<^verbatim>\<open>drain_votes\<close> shows an order.
\<close>

section \<open>State\<close>

datatype vote_reception_result =
    VoteAdded u128
  | DuplicateVote
  | EquivocateVote
  | NewQuorumCertificate quorum_cert
  | New2ChainTimeoutCertificate two_chain_timeout_certificate
  | ErrorAddingVote verify_error
  | ErrorAggregatingSignature verify_error
  | ErrorAggregatingTimeoutCertificate verify_error
  | UnexpectedRound u64 u64
  | EchoTimeout u128

record pending_votes =
  li_digest_to_votes :: "(hash_value, nat \<times> ledger_info_with_partial_signatures) btree_map"
  maybe_partial_2chain_tc :: "two_chain_timeout_with_partial_signatures option"
  author_to_vote :: "(author, vote \<times> hash_value) btree_map"
  echo_timeout :: bool

definition pending_votes_new :: pending_votes where
  "pending_votes_new =
     \<lparr>li_digest_to_votes = bt_empty, maybe_partial_2chain_tc = None, author_to_vote = bt_empty,
      echo_timeout = False\<rparr>"

section \<open>Inserting a vote\<close>

text \<open>
  The steps of \<^verbatim>\<open>insert_vote\<close>, as its comments number them. A step that returns from the method
  yields \<open>Some\<close> result or \<open>Inl\<close> result.

  Step 1: has the author already voted for this round?
\<close>

definition previously_voted :: "vote \<Rightarrow> hash_value \<Rightarrow> pending_votes \<Rightarrow> vote_reception_result option" where
  "previously_voted v li_digest s =
     (case bt_get (author_to_vote s) (v_author v) of
        Some (previously_seen_vote, previous_li_digest) \<Rightarrow>
          if li_digest = previous_li_digest
          then let new_timeout_vote = is_timeout v \<and> \<not> is_timeout previously_seen_vote
               in if \<not> new_timeout_vote then Some DuplicateVote else None
          else Some EquivocateVote
      | None \<Rightarrow> None)"

text \<open>Step 2: store the vote. Step 3: add its signature to those on its ledger info.\<close>

definition store_vote :: "vote \<Rightarrow> hash_value \<Rightarrow> pending_votes \<Rightarrow> pending_votes" where
  "store_vote v li_digest s =
     s\<lparr>author_to_vote := bt_insert (v_author v) (v, li_digest) (author_to_vote s)\<rparr>"

definition add_vote_signature ::
  "vote \<Rightarrow> hash_value \<Rightarrow> (pending_votes, ledger_info_with_partial_signatures, 'e) handler" where
  "add_vote_signature v li_digest s =
     (let len = length (li_digest_to_votes s) + 1;
          (hash_index, li_with_sig) =
            (case bt_get (li_digest_to_votes s) li_digest of
               Some entry \<Rightarrow> entry
             | None \<Rightarrow> (len, \<lparr>lip_ledger_info = v_ledger_info v, lip_partial_sigs = partial_signatures_empty\<rparr>));
          li_with_sig' = lip_add_signature (v_author v) (v_signature v) li_with_sig
      in (Ok li_with_sig',
          s\<lparr>li_digest_to_votes := bt_insert li_digest (hash_index, li_with_sig') (li_digest_to_votes s)\<rparr>))"

definition try_quorum_cert ::
  "crypto \<Rightarrow> vote \<Rightarrow> validator_verifier \<Rightarrow> ledger_info_with_partial_signatures \<Rightarrow>
   (vote_reception_result + u128, 'e) result" where
  "try_quorum_cert c v vv li_with_sig =
     (case check_voting_power vv (bt_keys (ps_signatures (lip_partial_sigs li_with_sig))) of
        Ok _ \<Rightarrow>
          (case lip_aggregate_signatures c li_with_sig vv of
             Ok ledger_info_with_sig \<Rightarrow>
               Ok (Inl (NewQuorumCertificate
                 \<lparr>qc_vote_data = v_vote_data v, qc_signed_ledger_info = ledger_info_with_sig\<rparr>))
           | Err e \<Rightarrow> Ok (Inl (ErrorAggregatingSignature e))
           | Panic \<Rightarrow> Panic)
      | Err e \<Rightarrow>
          (case e of
             TooLittleVotingPower voting_power _ \<Rightarrow> Ok (Inr voting_power)
           | _ \<Rightarrow> Ok (Inl (ErrorAddingVote e)))
      | Panic \<Rightarrow> Panic)"

text \<open>Step 4: no quorum certificate, but perhaps a timeout certificate or an echo.\<close>

definition f_plus_one :: "validator_verifier \<Rightarrow> (u128, 'e) result" where
  "f_plus_one vv =
     and_then (minus_or_panic (total_voting_power vv) (quorum_voting_power vv)) (\<lambda>d. plus_or_panic d 1)"

definition try_timeout_cert ::
  "crypto \<Rightarrow> vote \<Rightarrow> validator_verifier \<Rightarrow> (pending_votes, vote_reception_result option, 'e) handler" where
  "try_timeout_cert c v vv s =
     (case v_two_chain_timeout v of
        None \<Rightarrow> (Ok None, s)
      | Some (timeout, signature) \<Rightarrow>
          let partial_tc = tp_add (v_author v) timeout signature
                (case maybe_partial_2chain_tc s of Some p \<Rightarrow> p | None \<Rightarrow> tp_new timeout);
              s' = s\<lparr>maybe_partial_2chain_tc := Some partial_tc\<rparr>
          in case check_voting_power vv (tp_signers partial_tc) of
               Ok _ \<Rightarrow>
                 (case tp_aggregate_signatures c partial_tc vv of
                    Ok tc_with_sig \<Rightarrow> (Ok (Some (New2ChainTimeoutCertificate tc_with_sig)), s')
                  | Err e \<Rightarrow> (Ok (Some (ErrorAggregatingTimeoutCertificate e)), s')
                  | Panic \<Rightarrow> (Panic, s'))
             | Err e \<Rightarrow>
                 (case e of
                    TooLittleVotingPower tc_voting_power _ \<Rightarrow>
                      if \<not> echo_timeout s'
                      then bind_h (lift_h (\<lambda>_. f_plus_one vv)) (\<lambda>threshold s'.
                             if tc_voting_power \<ge> threshold
                             then (Ok (Some (EchoTimeout tc_voting_power)), s'\<lparr>echo_timeout := True\<rparr>)
                             else (Ok None, s')) s'
                      else (Ok None, s')
                  | _ \<Rightarrow> (Ok (Some (ErrorAddingVote e)), s'))
             | Panic \<Rightarrow> (Panic, s'))"

text \<open>Steps 3 to 5 once the signature is added.\<close>

definition certify_vote ::
  "crypto \<Rightarrow> vote \<Rightarrow> validator_verifier \<Rightarrow> ledger_info_with_partial_signatures \<Rightarrow>
   (pending_votes, vote_reception_result, 'e) handler" where
  "certify_vote c v vv li_with_sig =
     bind_h (lift_h (\<lambda>_. try_quorum_cert c v vv li_with_sig)) (\<lambda>qc.
     case qc of
       Inl r \<Rightarrow> return_h r
     | Inr voting_power \<Rightarrow>
         bind_h (try_timeout_cert c v vv) (\<lambda>tc.
         case tc of Some r \<Rightarrow> return_h r | None \<Rightarrow> return_h (VoteAdded voting_power)))"

definition pv_insert_vote ::
  "crypto \<Rightarrow> vote \<Rightarrow> validator_verifier \<Rightarrow> (pending_votes, vote_reception_result, 'e) handler" where
  "pv_insert_vote c v vv =
     bind_h (lift_h (\<lambda>_. crypto_hash c (msg_ledger_info (v_ledger_info v)))) (\<lambda>li_digest.
     bind_h (lift_h (\<lambda>s. Ok (previously_voted v li_digest s))) (\<lambda>previous.
     case previous of
       Some r \<Rightarrow> return_h r
     | None \<Rightarrow>
         bind_h (modify_h (store_vote v li_digest)) (\<lambda>_.
         bind_h (add_vote_signature v li_digest) (\<lambda>li_with_sig.
         certify_vote c v vv li_with_sig))))"

text \<open>\<^verbatim>\<open>drain_votes\<close> hands out the collected signatures and empties both collections.\<close>

definition drain_votes ::
  "pending_votes \<Rightarrow>
   ((hash_value \<times> ledger_info_with_partial_signatures) list \<times>
     two_chain_timeout_with_partial_signatures option) \<times> pending_votes" where
  "drain_votes s =
     ((map (\<lambda>(key, (_, li)). (key, li)) (li_digest_to_votes s), maybe_partial_2chain_tc s),
      s\<lparr>li_digest_to_votes := bt_empty, maybe_partial_2chain_tc := None\<rparr>)"

text \<open>A sequence of insertions, with the result of each.\<close>

fun insert_votes ::
  "crypto \<Rightarrow> validator_verifier \<Rightarrow> vote list \<Rightarrow> pending_votes \<Rightarrow>
   (vote_reception_result, unit) result list \<times> pending_votes" where
  "insert_votes c vv [] s = ([], s)"
| "insert_votes c vv (v # vs) s =
     (case pv_insert_vote c v vv s of
        (r, s') \<Rightarrow> (case insert_votes c vv vs s' of (rs, s'') \<Rightarrow> (r # rs, s'')))"

section \<open>The invariant of a round\<close>

text \<open>The authors whose stored vote is for a ledger info, and those whose stored vote is a timeout.\<close>

definition voters_for :: "pending_votes \<Rightarrow> hash_value \<Rightarrow> author set" where
  "voters_for s d = {a. \<exists>v. bt_get (author_to_vote s) a = Some (v, d)}"

definition timeout_voters :: "pending_votes \<Rightarrow> author set" where
  "timeout_voters s = {a. \<exists>v d. bt_get (author_to_vote s) a = Some (v, d) \<and> is_timeout v}"

definition all_voters :: "pending_votes \<Rightarrow> author set" where
  "all_voters s = set (bt_keys (author_to_vote s))"

text \<open>
  What the caller provides: votes of one epoch and round that passed \<^verbatim>\<open>Vote::verify\<close>, a verifier whose
  total power reaches its quorum, signatures that aggregate, and no two ledger infos (among the
  set \<open>L\<close> of those voted for) with the same digest.
\<close>

definition vote_env :: "crypto \<Rightarrow> validator_verifier \<Rightarrow> ledger_info set \<Rightarrow> bool" where
  "vote_env c vv L \<longleftrightarrow>
     wf_verifier vv \<and> vv_quorum vv \<le> unat (total_voting_power vv) \<and>
     bls_multisig_complete c \<and> bls_aggregate_complete c \<and>
     inj_on (\<lambda>li. message_hash c (msg_ledger_info li)) L"

definition checked_vote ::
  "crypto \<Rightarrow> validator_verifier \<Rightarrow> u64 \<Rightarrow> round \<Rightarrow> ledger_info set \<Rightarrow> vote \<Rightarrow> bool" where
  "checked_vote c vv epoch rnd L v \<longleftrightarrow>
     vote_verify c v vv = Ok () \<and> v_epoch v = epoch \<and> v_round v = rnd \<and> v_ledger_info v \<in> L"

definition li_votes_ok ::
  "crypto \<Rightarrow> validator_verifier \<Rightarrow> ledger_info set \<Rightarrow> pending_votes \<Rightarrow> hash_value \<Rightarrow>
   ledger_info_with_partial_signatures \<Rightarrow> bool" where
  "li_votes_ok c vv L s d l \<longleftrightarrow>
     lip_ledger_info l \<in> L \<and> message_hash c (msg_ledger_info (lip_ledger_info l)) = Some d \<and>
     bt_invar (ps_signatures (lip_partial_sigs l)) \<and>
     (\<forall>(a, sg) \<in> set (ps_signatures (lip_partial_sigs l)).
        verifier_verify c vv a (msg_ledger_info (lip_ledger_info l)) sg = Ok ()) \<and>
     set (bt_keys (ps_signatures (lip_partial_sigs l))) = voters_for s d"

definition partial_tc_ok ::
  "crypto \<Rightarrow> validator_verifier \<Rightarrow> u64 \<Rightarrow> round \<Rightarrow> two_chain_timeout_with_partial_signatures \<Rightarrow> bool" where
  "partial_tc_ok c vv epoch rnd p \<longleftrightarrow>
     to_epoch (tp_timeout p) = epoch \<and> to_round (tp_timeout p) = rnd \<and>
     timeout_verify c (tp_timeout p) vv = Ok () \<and>
     bt_invar (psr_signatures (tp_signatures p)) \<and>
     (\<forall>(a, h, sg) \<in> set (psr_signatures (tp_signatures p)).
        verifier_verify c vv a (msg_timeout \<lparr>tsr_epoch = epoch, tsr_round = rnd, tsr_hqc_round = h\<rparr>) sg = Ok ()) \<and>
     hqc_round (tp_timeout p) \<in> (\<lambda>(a, h, sg). h) ` set (psr_signatures (tp_signatures p)) \<and>
     (\<forall>(a, h, sg) \<in> set (psr_signatures (tp_signatures p)). h \<le> hqc_round (tp_timeout p))"

definition votes_inv :: "crypto \<Rightarrow> validator_verifier \<Rightarrow> ledger_info set \<Rightarrow> pending_votes \<Rightarrow> bool" where
  "votes_inv c vv L s \<longleftrightarrow>
     bt_invar (li_digest_to_votes s) \<and> bt_invar (author_to_vote s) \<and>
     (\<forall>d i l. bt_get (li_digest_to_votes s) d = Some (i, l) \<longrightarrow> li_votes_ok c vv L s d l) \<and>
     (\<forall>a v d. bt_get (author_to_vote s) a = Some (v, d) \<longrightarrow>
        bt_get (li_digest_to_votes s) d \<noteq> None \<and> message_hash c (msg_ledger_info (v_ledger_info v)) = Some d)"

definition timeouts_inv :: "crypto \<Rightarrow> validator_verifier \<Rightarrow> u64 \<Rightarrow> round \<Rightarrow> pending_votes \<Rightarrow> bool" where
  "timeouts_inv c vv epoch rnd s \<longleftrightarrow>
     (\<forall>p. maybe_partial_2chain_tc s = Some p \<longrightarrow>
        partial_tc_ok c vv epoch rnd p \<and> set (tp_signers p) \<subseteq> timeout_voters s)"

lemma votes_inv_new: "votes_inv c vv L pending_votes_new" and timeouts_inv_new: "timeouts_inv c vv e r pending_votes_new"
  by (simp_all add: votes_inv_def timeouts_inv_def pending_votes_new_def bt.get_empty bt.invar_empty)

lemma votes_invD:
  assumes "votes_inv c vv L s"
  shows "bt_get (li_digest_to_votes s) d = Some (i, l) \<Longrightarrow> li_votes_ok c vv L s d l"
    and "bt_get (author_to_vote s) a = Some (v, d) \<Longrightarrow> bt_get (li_digest_to_votes s) d \<noteq> None"
    and "bt_get (author_to_vote s) a = Some (v, d) \<Longrightarrow> message_hash c (msg_ledger_info (v_ledger_info v)) = Some d"
  using assms by (auto simp: votes_inv_def)

text \<open>Storing a vote that step 1 let through.\<close>

lemma stored_vote:
  assumes inv: "votes_inv c vv L s" and new: "previously_voted v d s = None"
  shows "voters_for (store_vote v d s) d' = (if d' = d then insert (v_author v) (voters_for s d) else voters_for s d')"
    and "timeout_voters (store_vote v d s) =
      (if is_timeout v then insert (v_author v) (timeout_voters s) else timeout_voters s)"
    and "all_voters (store_vote v d s) = insert (v_author v) (all_voters s)"
    and "v_author v \<notin> timeout_voters s"
proof -
  have get: "bt_get (author_to_vote (store_vote v d s)) a =
      (if a = v_author v then Some (v, d) else bt_get (author_to_vote s) a)" for a
    using inv by (simp add: store_vote_def votes_inv_def bt.get_insert)
  have prev: "d' = d \<and> is_timeout v \<and> \<not> is_timeout w" if "bt_get (author_to_vote s) (v_author v) = Some (w, d')" for w d'
    using new that by (auto simp: previously_voted_def Let_def split: if_splits)
  show "voters_for (store_vote v d s) d' = (if d' = d then insert (v_author v) (voters_for s d) else voters_for s d')"
    using prev by (auto simp: voters_for_def get)
  show "timeout_voters (store_vote v d s) =
      (if is_timeout v then insert (v_author v) (timeout_voters s) else timeout_voters s)"
    using prev by (auto simp: timeout_voters_def get)
  show "v_author v \<notin> timeout_voters s" using prev by (auto simp: timeout_voters_def)
  show "all_voters (store_vote v d s) = insert (v_author v) (all_voters s)"
    using inv by (simp add: all_voters_def store_vote_def votes_inv_def bt.set_keys_insert)
qed

lemma add_vote_signature_inv:
  assumes inj: "inj_on (\<lambda>li. message_hash c (msg_ledger_info li)) L"
    and inv: "votes_inv c vv L s" and new: "previously_voted v d s = None"
    and v: "vote_verify c v vv = Ok ()" "v_ledger_info v \<in> L" "message_hash c (msg_ledger_info (v_ledger_info v)) = Some d"
  obtains l s' where "add_vote_signature v d (store_vote v d s) = (Ok l, s')"
    and "votes_inv c vv L s'" and "li_votes_ok c vv L s' d l" and "lip_ledger_info l = v_ledger_info v"
    and "author_to_vote s' = author_to_vote (store_vote v d s)"
    and "maybe_partial_2chain_tc s' = maybe_partial_2chain_tc s" and "echo_timeout s' = echo_timeout s"
proof -
  let ?s = "store_vote v d s" and ?a = "v_author v"
  have m: "li_digest_to_votes ?s = li_digest_to_votes s" by (simp add: store_vote_def)
  have inv_m: "bt_invar (li_digest_to_votes s)" "bt_invar (author_to_vote s)" using inv by (simp_all add: votes_inv_def)
  obtain i l0 where entry: "(case bt_get (li_digest_to_votes s) d of
        Some entry \<Rightarrow> entry
      | None \<Rightarrow> (length (li_digest_to_votes s) + 1, \<lparr>lip_ledger_info = v_ledger_info v, lip_partial_sigs = partial_signatures_empty\<rparr>)) = (i, l0)"
    by (rule surj_pair [THEN exE], erule exE)
  have l0: "li_votes_ok c vv L s d l0"
  proof (cases "bt_get (li_digest_to_votes s) d")
    case None
    then have "voters_for s d = {}" by (auto simp: voters_for_def dest!: votes_invD(2) [OF inv])
    then show ?thesis
      using None entry v(2,3) by (auto simp: li_votes_ok_def partial_signatures_empty_def bt.invar_empty bt.keys_empty)
        (simp add: bt_empty_def)
  next
    case (Some e)
    then show ?thesis using inv entry by (auto simp: votes_inv_def)
  qed
  then have li: "lip_ledger_info l0 = v_ledger_info v"
    using v(2,3) inj_onD [OF inj, of "lip_ledger_info l0" "v_ledger_info v"] by (simp add: li_votes_ok_def)
  let ?l = "lip_add_signature ?a (v_signature v) l0"
  let ?s' = "?s\<lparr>li_digest_to_votes := bt_insert d (i, ?l) (li_digest_to_votes s)\<rparr>"
  have run: "add_vote_signature v d ?s = (Ok ?l, ?s')"
    by (simp only: add_vote_signature_def m Let_def entry prod.case)
  have vf: "voters_for ?s' = voters_for ?s" by (simp add: voters_for_def fun_eq_iff)
  let ?ps = "ps_signatures (lip_partial_sigs l0)"
  have ps: "ps_signatures (lip_partial_sigs ?l) = bt_or_insert ?a (v_signature v) ?ps"
    by (simp add: lip_add_signature_def ps_add_signature_def)
  have ips: "bt_invar ?ps" using l0 by (simp add: li_votes_ok_def)
  have each: "verifier_verify c vv a (msg_ledger_info (v_ledger_info v)) sg = Ok ()"
    if "(a, sg) \<in> set (bt_or_insert ?a (v_signature v) ?ps)" for a sg
    using set_bt_or_insert [OF ips that] l0 li vote_verify_OkD(2) [OF v(1)] by (auto simp: li_votes_ok_def)
  have li': "lip_ledger_info ?l = v_ledger_info v" by (simp add: li lip_add_signature_def)
  have ok: "li_votes_ok c vv L ?s' d ?l"
    unfolding li_votes_ok_def vf ps li'
    using l0 each ips v(2,3) stored_vote(1) [OF inv new, of d] by (auto simp: li_votes_ok_def bt_or_insert_facts)
  have other: "li_votes_ok c vv L ?s' d' l'" if "d' \<noteq> d" "bt_get (li_digest_to_votes s) d' = Some (j, l')" for d' j l'
    using that inv stored_vote(1) [OF inv new, of d'] by (auto simp: votes_inv_def li_votes_ok_def vf)
  have "votes_inv c vv L ?s'"
    unfolding votes_inv_def
    using inv inv_m ok other v(3) by (auto simp: votes_inv_def bt.get_insert bt.invar_insert store_vote_def split: if_splits)
  from that [OF run this ok li'] show thesis by (simp add: store_vote_def)
qed

section \<open>What a vote produces\<close>

lemma try_quorum_cert_cases:
  assumes env: "vote_env c vv L" and l: "li_votes_ok c vv L s d l" "lip_ledger_info l = v_ledger_info v"
    and v: "vote_verify c v vv = Ok ()"
  shows "is_quorum vv (voters_for s d) \<Longrightarrow>
      \<exists>qc. try_quorum_cert c v vv l = Ok (Inl (NewQuorumCertificate qc)) \<and> qc_verify c qc vv = Ok () \<and>
        lis_ledger_info (qc_signed_ledger_info qc) = v_ledger_info v \<and> qc_vote_data qc = v_vote_data v \<and>
        signers vv (lis_signatures (qc_signed_ledger_info qc)) = voters_for s d"
    and "\<not> is_quorum vv (voters_for s d) \<Longrightarrow> \<exists>p. try_quorum_cert c v vv l = Ok (Inr p)"
proof -
  let ?ps = "ps_signatures (lip_partial_sigs l)"
  have wf: "wf_verifier vv" and bls: "bls_multisig_complete c" using env by (simp_all add: vote_env_def)
  have inv: "bt_invar ?ps" and keys: "set (bt_keys ?ps) = voters_for s d"
    and each: "\<And>a sg. (a, sg) \<in> set ?ps \<Longrightarrow> verifier_verify c vv a (msg_ledger_info (v_ledger_info v)) sg = Ok ()"
    using l by (auto simp: li_votes_ok_def)
  note d = bt.distinct_keys [OF inv]
  {
    assume q: "is_quorum vv (voters_for s d)"
    then have check: "check_voting_power vv (bt_keys ?ps) = Ok ()"
      using check_voting_power_quorum [OF wf d] keys by simp
    obtain sg where agg: "aggregate_signatures c vv (lip_partial_sigs l) = Ok sg"
      and ver: "verify_multi_signatures c vv (msg_ledger_info (v_ledger_info v)) sg = Ok ()"
      and signers: "signers vv sg = voters_for s d"
      using aggregate_verify [OF wf bls inv each] q keys by metis
    let ?qc = "\<lparr>qc_vote_data = v_vote_data v,
      qc_signed_ledger_info = \<lparr>lis_ledger_info = v_ledger_info v, lis_signatures = sg\<rparr>\<rparr>"
    have "bi_round (vd_proposed (v_vote_data v)) \<noteq> 0"
      using vote_data_verify_OkD(2) [OF vote_verify_OkD(3) [OF v]] by auto
    then have "qc_verify c ?qc vv = Ok ()"
      using vote_verify_OkD(1,3) [OF v] ver
      by (simp add: qc_verify_def result_simps certified_block_def lis_verify_signatures_def)
    then show "\<exists>qc. try_quorum_cert c v vv l = Ok (Inl (NewQuorumCertificate qc)) \<and> qc_verify c qc vv = Ok () \<and>
        lis_ledger_info (qc_signed_ledger_info qc) = v_ledger_info v \<and> qc_vote_data qc = v_vote_data v \<and>
        signers vv (lis_signatures (qc_signed_ledger_info qc)) = voters_for s d"
      using check agg signers l(2) by (simp add: try_quorum_cert_def lip_aggregate_signatures_def)
  next
    assume q: "\<not> is_quorum vv (voters_for s d)"
    have "set (bt_keys ?ps) \<subseteq> vv_members vv"
      using each verifier_verify_known [OF wf] by (force simp: bt_keys_def)
    then obtain p where "check_voting_power vv (bt_keys ?ps) = Err (TooLittleVotingPower p (quorum_voting_power vv))"
      using check_voting_power_little [OF wf d] q keys by metis
    then show "\<exists>p. try_quorum_cert c v vv l = Ok (Inr p)" by (simp add: try_quorum_cert_def)
  }
qed

lemma f_plus_one_Ok:
  assumes "vote_env c vv L"
  obtains t where "f_plus_one vv = Ok t" and "unat t = unat (total_voting_power vv) - vv_quorum vv + 1"
proof -
  let ?T = "total_voting_power vv" and ?Q = "quorum_voting_power vv"
  have wf: "wf_verifier vv" and le: "?Q \<le> ?T" using assms by (simp_all add: vote_env_def vv_quorum_def word_le_nat_alt)
  have "0 < vv_quorum vv" using vq.threshold_gt [OF wf] by simp
  then have d: "unat (?T - ?Q) = unat ?T - vv_quorum vv" "unat (?T - ?Q) + 1 < 2 ^ 128"
    using le unat_lt_2p [of ?T] by (auto simp: vv_quorum_def unat_sub word_le_nat_alt simp del: unat_lt_2p)
  then have "f_plus_one vv = Ok (?T - ?Q + 1)"
    using le by (simp add: f_plus_one_def minus_or_panic_def checked_sub_def expect_def plus_or_panic_ok)
  moreover have "unat (?T - ?Q + 1) = unat ?T - vv_quorum vv + 1"
    using d by (subst unat_add_lem [THEN iffD1]) simp_all
  ultimately show thesis by (rule that)
qed

text \<open>The partial timeout certificate after a timeout of a new signer.\<close>

lemma tp_add_ok:
  assumes p: "\<And>p. p0 = Some p \<Longrightarrow> partial_tc_ok c vv e r p \<and> a \<notin> set (tp_signers p)"
    and t: "to_epoch t = e" "to_round t = r" "timeout_verify c t vv = Ok ()"
      "verifier_verify c vv a (msg_timeout (signing_format t)) sg = Ok ()"
  shows "partial_tc_ok c vv e r (tp_add a t sg (case p0 of Some p \<Rightarrow> p | None \<Rightarrow> tp_new t))" (is "partial_tc_ok c vv e r ?p'")
    and "set (tp_signers (tp_add a t sg (case p0 of Some p \<Rightarrow> p | None \<Rightarrow> tp_new t))) =
      insert a (case p0 of Some p \<Rightarrow> set (tp_signers p) | None \<Rightarrow> {})"
proof -
  let ?ps = "case p0 of Some p \<Rightarrow> psr_signatures (tp_signatures p) | None \<Rightarrow> bt_empty"
  have inv: "bt_invar ?ps" using p by (cases p0) (simp_all add: partial_tc_ok_def bt.invar_empty)
  have get: "bt_get ?ps a = None"
    using p set_bt_iff [OF inv] by (cases p0) (force simp: tp_signers_def bt_get_def map_of_eq_None_iff bt_empty_def)+
  have sigs: "psr_signatures (tp_signatures ?p') = bt_insert a (hqc_round t, sg) ?ps"
    using get by (cases p0) (simp_all add: tp_add_def Let_def tp_new_def psr_empty_def psr_add_signature_def bt_or_insert_def)
  have "x \<in> set (bt_insert a (hqc_round t, sg) ?ps) \<longleftrightarrow> x = (a, hqc_round t, sg) \<or> x \<in> set ?ps" for x
    using set_bt_iff [OF bt.invar_insert [OF inv], of "fst x" "snd x" a "(hqc_round t, sg)"]
      set_bt_iff [OF inv, of "fst x" "snd x"] get bt.get_insert [OF inv] by (cases x) (auto split: if_splits)
  then have mem: "set (bt_insert a (hqc_round t, sg) ?ps) = insert (a, hqc_round t, sg) (set ?ps)" by blast
  have keys: "set (tp_signers ?p') = insert a (fst ` set ?ps)"
    by (simp only: tp_signers_def sigs set_fst_bt_insert) simp
  then show "set (tp_signers ?p') = insert a (case p0 of Some p \<Rightarrow> set (tp_signers p) | None \<Rightarrow> {})"
    by (cases p0) (simp_all add: tp_signers_def bt_empty_def)
  have sg: "verifier_verify c vv a (msg_timeout \<lparr>tsr_epoch = e, tsr_round = r, tsr_hqc_round = hqc_round t\<rparr>) sg = Ok ()"
    using t by (simp add: signing_format_def)
  have timeout: "tp_timeout ?p' = (case p0 of Some p \<Rightarrow> if hqc_round (tp_timeout p) < hqc_round t then t else tp_timeout p | None \<Rightarrow> t)"
    by (cases p0) (simp_all add: tp_add_def Let_def tp_new_def)
  show "partial_tc_ok c vv e r ?p'"
  proof (cases p0)
    case None
    then show ?thesis
      unfolding partial_tc_ok_def sigs mem timeout using bt.invar_insert [OF inv] t sg by (simp add: bt_empty_def)
  next
    case (Some p1)
    then have "partial_tc_ok c vv e r p1" using p by simp
    then show ?thesis
      unfolding partial_tc_ok_def sigs mem timeout
      using bt.invar_insert [OF inv, of a "(hqc_round t, sg)"] t sg Some by (auto simp: not_less)
  qed
qed

definition tc_signers :: "pending_votes \<Rightarrow> author set" where
  "tc_signers s = (case maybe_partial_2chain_tc s of Some p \<Rightarrow> set (tp_signers p) | None \<Rightarrow> {})"

lemma try_timeout_cert_cases:
  assumes env: "vote_env c vv L" and v: "checked_vote c vv e r L v" and t: "v_two_chain_timeout v = Some (t, sg)"
    and p: "\<And>p. maybe_partial_2chain_tc s = Some p \<Longrightarrow> partial_tc_ok c vv e r p \<and> v_author v \<notin> set (tp_signers p)"
  obtains res s' p' where "try_timeout_cert c v vv s = (Ok res :: (_, 'e) result, s')"
    and "author_to_vote s' = author_to_vote s" and "li_digest_to_votes s' = li_digest_to_votes s"
    and "maybe_partial_2chain_tc s' = Some p'" and "partial_tc_ok c vv e r p'"
    and "set (tp_signers p') = insert (v_author v) (tc_signers s)"
    and "is_quorum vv (set (tp_signers p')) \<longrightarrow> (\<exists>tc. res = Some (New2ChainTimeoutCertificate tc) \<and>
      tc_verify c tc vv = Ok () \<and> tc_epoch tc = e \<and> tc_round tc = r)"
    and "\<not> is_quorum vv (set (tp_signers p')) \<longrightarrow> res = None \<or> (\<exists>power. res = Some (EchoTimeout power))"
proof -
  define q where "q = tp_add (v_author v) t sg (case maybe_partial_2chain_tc s of Some p \<Rightarrow> p | None \<Rightarrow> tp_new t)"
  let ?s = "s\<lparr>maybe_partial_2chain_tc := Some q\<rparr>"
  have wf: "wf_verifier vv" and bls: "bls_aggregate_complete c" using env by (simp_all add: vote_env_def)
  have vt: "to_epoch t = e" "to_round t = r" "timeout_verify c t vv = Ok ()"
      "verifier_verify c vv (v_author v) (msg_timeout (signing_format t)) sg = Ok ()"
    using vote_verify_OkD(4) [OF _ t] v by (auto simp: checked_vote_def)
  note tc = tp_add_ok [where ?p0.0 = "maybe_partial_2chain_tc s", OF p vt, folded q_def]
  have signers: "set (tp_signers q) = insert (v_author v) (tc_signers s)"
    using tc(2) by (simp add: tc_signers_def)
  let ?ps = "psr_signatures (tp_signatures q)"
  have inv: "bt_invar ?ps" and d: "distinct (tp_signers q)"
    using tc(1) bt.distinct_keys [of ?ps] by (simp_all add: partial_tc_ok_def tp_signers_def bt_keys_def)
  have each: "\<And>a h g. (a, h, g) \<in> set ?ps \<Longrightarrow> verifier_verify c vv a
      (msg_timeout \<lparr>tsr_epoch = to_epoch (tp_timeout q), tsr_round = to_round (tp_timeout q), tsr_hqc_round = h\<rparr>) g = Ok ()"
    using tc(1) by (auto simp: partial_tc_ok_def)
  show thesis
  proof (cases "is_quorum vv (set (tp_signers q))")
    case True
    have "hqc_round (tp_timeout q) = Max ((\<lambda>(a, h, g). h) ` set ?ps)"
      using tc(1) by (intro Max_eqI [symmetric]) (auto simp: partial_tc_ok_def)
    then obtain cert where cert: "tp_aggregate_signatures c q vv = Ok cert" "tc_verify c cert vv = Ok ()"
      "tc_timeout cert = tp_timeout q"
      using timeouts_aggregate [OF wf bls inv each True] tc(1) by (auto simp: partial_tc_ok_def)
    have "try_timeout_cert c v vv s = (Ok (Some (New2ChainTimeoutCertificate cert)) :: (_, 'e) result, ?s)"
      using check_voting_power_quorum [OF wf d True] cert(1) by (simp add: try_timeout_cert_def t Let_def q_def [symmetric])
    then show thesis
      by (rule that [OF _ _ _ _ tc(1) signers]) (use True cert tc(1) in \<open>auto simp: tc_epoch_def tc_round_def partial_tc_ok_def\<close>)
  next
    case False
    have "set (tp_signers q) \<subseteq> vv_members vv"
      using each verifier_verify_known [OF wf] by (force simp: tp_signers_def)
    then obtain power where little: "check_voting_power vv (tp_signers q) = Err (TooLittleVotingPower power (quorum_voting_power vv))"
      using check_voting_power_little [OF wf d] False by metis
    obtain threshold :: u128 where f1: "f_plus_one vv = (Ok threshold :: (u128, 'e) result)"
      using f_plus_one_Ok [OF env] .
    let ?echo = "\<not> echo_timeout s \<and> power \<ge> threshold"
    have "try_timeout_cert c v vv s =
        (Ok (if ?echo then Some (EchoTimeout power) else None) :: (_, 'e) result, if ?echo then ?s\<lparr>echo_timeout := True\<rparr> else ?s)"
      using little f1 by (simp add: try_timeout_cert_def t Let_def q_def [symmetric] bind_h_def lift_h_def)
    then show thesis by (rule that [OF _ _ _ _ tc(1) signers]) (use False in auto)
  qed
qed

text \<open>A result that no fault of the collection or of the aggregation explains: its certificates verify.\<close>

fun sound_result :: "crypto \<Rightarrow> validator_verifier \<Rightarrow> u64 \<Rightarrow> round \<Rightarrow> vote_reception_result \<Rightarrow> bool" where
  "sound_result c vv epoch rnd (VoteAdded _) = True"
| "sound_result c vv epoch rnd DuplicateVote = True"
| "sound_result c vv epoch rnd EquivocateVote = True"
| "sound_result c vv epoch rnd (NewQuorumCertificate qc) =
     (qc_verify c qc vv = Ok () \<and> bi_epoch (certified_block qc) = epoch \<and> bi_round (certified_block qc) = rnd)"
| "sound_result c vv epoch rnd (New2ChainTimeoutCertificate tc) =
     (tc_verify c tc vv = Ok () \<and> tc_epoch tc = epoch \<and> tc_round tc = rnd)"
| "sound_result c vv epoch rnd (EchoTimeout _) = True"
| "sound_result c vv epoch rnd _ = False"

text \<open>The effect of one insertion.\<close>

definition inserted ::
  "crypto \<Rightarrow> validator_verifier \<Rightarrow> vote \<Rightarrow> hash_value \<Rightarrow> pending_votes \<Rightarrow> vote_reception_result \<Rightarrow> pending_votes \<Rightarrow> bool" where
  "inserted c vv v d s res s' \<longleftrightarrow>
     (case previously_voted v d s of
        Some res' \<Rightarrow> res = res' \<and> s' = s
      | None \<Rightarrow>
          author_to_vote s' = author_to_vote (store_vote v d s) \<and>
          (if is_quorum vv (voters_for s' d)
           then \<exists>qc. res = NewQuorumCertificate qc \<and> lis_ledger_info (qc_signed_ledger_info qc) = v_ledger_info v
           else tc_signers s' = (if is_timeout v then insert (v_author v) (tc_signers s) else tc_signers s) \<and>
             (is_timeout v \<and> is_quorum vv (tc_signers s') \<longrightarrow> (\<exists>tc. res = New2ChainTimeoutCertificate tc))))"

text \<open>Steps 1 to 3 up to the attempt at a quorum certificate.\<close>

lemma pv_insert_vote_run:
  assumes env: "vote_env c vv L" and v: "checked_vote c vv e r L v"
    and inv: "votes_inv c vv L s" "timeouts_inv c vv e r s"
    and d: "message_hash c (msg_ledger_info (v_ledger_info v)) = Some d" and new: "previously_voted v d s = None"
  obtains l s1 where "pv_insert_vote c v vv s = (certify_vote c v vv l s1 :: (_, 'e) result \<times> _)"
    and "votes_inv c vv L s1" and "timeouts_inv c vv e r s1"
    and "li_votes_ok c vv L s1 d l" and "lip_ledger_info l = v_ledger_info v"
    and "author_to_vote s1 = author_to_vote (store_vote v d s)"
    and "maybe_partial_2chain_tc s1 = maybe_partial_2chain_tc s"
proof -
  have vv: "vote_verify c v vv = Ok ()" "v_ledger_info v \<in> L"
    using v by (simp_all add: checked_vote_def)
  have inj: "inj_on (\<lambda>li. message_hash c (msg_ledger_info li)) L" using env by (simp add: vote_env_def)
  obtain l s1 where add: "add_vote_signature v d (store_vote v d s) = (Ok l :: (_, 'e) result, s1)"
    and inv1: "votes_inv c vv L s1" and l: "li_votes_ok c vv L s1 d l" "lip_ledger_info l = v_ledger_info v"
    and s1: "author_to_vote s1 = author_to_vote (store_vote v d s)" "maybe_partial_2chain_tc s1 = maybe_partial_2chain_tc s"
    by (rule add_vote_signature_inv [OF inj inv(1) new vv d])
  have "timeout_voters s \<subseteq> timeout_voters s1"
    using stored_vote(2) [OF inv(1) new] by (auto simp: timeout_voters_def s1)
  then have inv1': "timeouts_inv c vv e r s1" using inv(2) by (auto simp: timeouts_inv_def s1)
  have "pv_insert_vote c v vv s = (certify_vote c v vv l s1 :: (_, 'e) result \<times> _)"
    using d new by (simp add: pv_insert_vote_def bind_lift bind_modify bind_step [where m = "add_vote_signature v d", OF add] crypto_hash_eq_Ok [THEN iffD2])
  from that [OF this inv1 inv1' l s1] show thesis .
qed

lemma store_timeout_step:
  assumes env: "vote_env c vv L" and v: "checked_vote c vv e r L v" and t: "v_two_chain_timeout v = Some (t, sg)"
    and inv: "votes_inv c vv L s" "timeouts_inv c vv e r s" and new: "previously_voted v d s = None"
    and inv1: "votes_inv c vv L s1" "timeouts_inv c vv e r s1" and nq: "\<not> is_quorum vv (voters_for s1 d)"
    and s1: "author_to_vote s1 = author_to_vote (store_vote v d s)" "maybe_partial_2chain_tc s1 = maybe_partial_2chain_tc s"
  obtains res s2 where "try_timeout_cert c v vv s1 = (Ok res :: (_, 'e) result, s2)"
    and "votes_inv c vv L s2" "timeouts_inv c vv e r s2"
    and "sound_result c vv e r (case res of Some r \<Rightarrow> r | None \<Rightarrow> VoteAdded w)"
    and "inserted c vv v d s (case res of Some r \<Rightarrow> r | None \<Rightarrow> VoteAdded w) s2"
proof -
  have p: "partial_tc_ok c vv e r p \<and> v_author v \<notin> set (tp_signers p)" if "maybe_partial_2chain_tc s1 = Some p" for p
    using that inv(2) stored_vote(4) [OF inv(1) new] by (auto simp: timeouts_inv_def s1)
  obtain res s2 p' where tc: "try_timeout_cert c v vv s1 = (Ok res :: (_, 'e) result, s2)"
    and s2: "author_to_vote s2 = author_to_vote s1" "li_digest_to_votes s2 = li_digest_to_votes s1"
      "maybe_partial_2chain_tc s2 = Some p'" "partial_tc_ok c vv e r p'"
      "set (tp_signers p') = insert (v_author v) (tc_signers s1)"
    and q: "is_quorum vv (set (tp_signers p')) \<longrightarrow> (\<exists>tc. res = Some (New2ChainTimeoutCertificate tc) \<and>
      tc_verify c tc vv = Ok () \<and> tc_epoch tc = e \<and> tc_round tc = r)"
    and little: "\<not> is_quorum vv (set (tp_signers p')) \<longrightarrow> res = None \<or> (\<exists>power. res = Some (EchoTimeout power))"
    by (rule try_timeout_cert_cases [OF env v t p])
  have same: "voters_for s2 = voters_for s1" "timeout_voters s2 = timeout_voters s1"
    by (simp_all add: voters_for_def timeout_voters_def s2 fun_eq_iff)
  have "v_author v \<in> timeout_voters s1"
    using t stored_vote(2) [OF inv(1) new] by (simp add: timeout_voters_def s1 is_timeout_def)
  then have signers: "set (tp_signers p') \<subseteq> timeout_voters s2"
    using inv1(2) s2(5) same by (auto simp: timeouts_inv_def tc_signers_def split: option.splits)
  show thesis
  proof (rule that [OF tc])
    show "votes_inv c vv L s2" using inv1(1) same by (simp add: votes_inv_def li_votes_ok_def s2)
    show "timeouts_inv c vv e r s2" using s2 signers by (simp add: timeouts_inv_def)
    show "sound_result c vv e r (case res of Some r \<Rightarrow> r | None \<Rightarrow> VoteAdded w)"
      using q little by (cases "is_quorum vv (set (tp_signers p'))") auto
    show "inserted c vv v d s (case res of Some r \<Rightarrow> r | None \<Rightarrow> VoteAdded w) s2"
      using new nq q s2 s1 t by (auto simp: inserted_def same is_timeout_def tc_signers_def)
  qed
qed

lemma pv_insert_vote_new:
  assumes env: "vote_env c vv L" and v: "checked_vote c vv e r L v"
    and inv: "votes_inv c vv L s" "timeouts_inv c vv e r s"
    and d: "message_hash c (msg_ledger_info (v_ledger_info v)) = Some d" and new: "previously_voted v d s = None"
  obtains res s' where "pv_insert_vote c v vv s = (Ok res :: (_, 'e) result, s')"
    and "votes_inv c vv L s'" "timeouts_inv c vv e r s'" "sound_result c vv e r res" "inserted c vv v d s res s'"
proof -
  have vv: "vote_verify c v vv = Ok ()" "v_epoch v = e" "v_round v = r"
    using v by (simp_all add: checked_vote_def)
  obtain l s1 where run: "pv_insert_vote c v vv s = (certify_vote c v vv l s1 :: (_, 'e) result \<times> _)"
    and inv1: "votes_inv c vv L s1" "timeouts_inv c vv e r s1"
    and l: "li_votes_ok c vv L s1 d l" "lip_ledger_info l = v_ledger_info v"
    and s1: "author_to_vote s1 = author_to_vote (store_vote v d s)" "maybe_partial_2chain_tc s1 = maybe_partial_2chain_tc s"
    by (rule pv_insert_vote_run [OF env v inv d new])
  note qc = try_quorum_cert_cases [OF env l vv(1)]
  show thesis
  proof (cases "is_quorum vv (voters_for s1 d)")
    case True
    then obtain cert where cert: "try_quorum_cert c v vv l = (Ok (Inl (NewQuorumCertificate cert)) :: (_, 'e) result)"
      "qc_verify c cert vv = Ok ()" "lis_ledger_info (qc_signed_ledger_info cert) = v_ledger_info v"
      "qc_vote_data cert = v_vote_data v"
      using qc(1) by blast
    have "pv_insert_vote c v vv s = (Ok (NewQuorumCertificate cert) :: (_, 'e) result, s1)"
      unfolding run by (simp add: certify_vote_def bind_lift cert(1) return_h_def)
    moreover have "inserted c vv v d s (NewQuorumCertificate cert) s1"
      using new True cert(3) by (simp add: inserted_def s1)
    moreover have "sound_result c vv e r (NewQuorumCertificate cert)"
      using cert vv by (simp add: certified_block_def v_epoch_def v_round_def)
    ultimately show thesis using that inv1 by blast
  next
    case False
    then obtain power where power: "try_quorum_cert c v vv l = (Ok (Inr power) :: (_, 'e) result)" using qc(2) by blast
    have run': "pv_insert_vote c v vv s = (bind_h (try_timeout_cert c v vv) (\<lambda>tc.
             case tc of Some r \<Rightarrow> return_h r | None \<Rightarrow> return_h (VoteAdded power)) s1 :: (_, 'e) result \<times> _)"
      unfolding run by (simp add: certify_vote_def bind_lift power)
    show thesis
    proof (cases "v_two_chain_timeout v")
      case None
      have "pv_insert_vote c v vv s = (Ok (VoteAdded power) :: (_, 'e) result, s1)"
        unfolding run' by (subst bind_step [of _ _ None]) (simp_all add: try_timeout_cert_def None return_h_def)
      moreover have "inserted c vv v d s (VoteAdded power) s1"
        using new False None by (simp add: inserted_def s1 is_timeout_def tc_signers_def)
      ultimately show thesis using that inv1 by auto
    next
      case (Some ts)
      obtain t sg where t: "v_two_chain_timeout v = Some (t, sg)" using Some by (cases ts) simp
      obtain res s2 where tc: "try_timeout_cert c v vv s1 = (Ok res :: (_, 'e) result, s2)"
        and s2: "votes_inv c vv L s2" "timeouts_inv c vv e r s2"
          "sound_result c vv e r (case res of Some r \<Rightarrow> r | None \<Rightarrow> VoteAdded power)"
          "inserted c vv v d s (case res of Some r \<Rightarrow> r | None \<Rightarrow> VoteAdded power) s2"
        by (rule store_timeout_step [OF env v t inv new inv1 False s1])
      have "pv_insert_vote c v vv s = (Ok (case res of Some r \<Rightarrow> r | None \<Rightarrow> VoteAdded power) :: (_, 'e) result, s2)"
        unfolding run' by (cases res) (simp_all add: bind_step [where m = "try_timeout_cert c v vv", OF tc] return_h_def)
      then show thesis using that s2 by blast
    qed
  qed
qed

section \<open>Sequences of votes\<close>

lemma pv_insert_vote_step:
  assumes env: "vote_env c vv L" and v: "checked_vote c vv e r L v"
    and inv: "votes_inv c vv L s" "timeouts_inv c vv e r s"
  obtains res s' d where "pv_insert_vote c v vv s = (Ok res :: (_, 'e) result, s')"
    and "message_hash c (msg_ledger_info (v_ledger_info v)) = Some d"
    and "votes_inv c vv L s'" "timeouts_inv c vv e r s'" "sound_result c vv e r res" "inserted c vv v d s res s'"
proof -
  have "verifier_verify c vv (v_author v) (msg_ledger_info (v_ledger_info v)) (v_signature v) = Ok ()"
    using vote_verify_OkD(2) v by (simp add: checked_vote_def)
  then obtain d where d: "message_hash c (msg_ledger_info (v_ledger_info v)) = Some d"
    by (auto simp: verifier_verify_def verify_struct_signature_def sig_verify_def signing_message_def message_hash_def
        result_simps split: option.splits)
  show thesis
  proof (cases "previously_voted v d s")
    case None
    then show thesis using pv_insert_vote_new [OF env v inv d] that [OF _ d] by metis
  next
    case (Some res)
    then have "pv_insert_vote c v vv s = (Ok res :: (_, 'e) result, s)"
      using d by (simp add: pv_insert_vote_def bind_lift crypto_hash_eq_Ok [THEN iffD2] return_h_def)
    moreover have "sound_result c vv e r res"
      using Some by (auto simp: previously_voted_def Let_def split: option.splits if_splits)
    ultimately show thesis using that [OF _ d] inv Some by (simp add: inserted_def)
  qed
qed

lemma new_voter:
  assumes "votes_inv c vv L s" and "v_author v \<notin> all_voters s"
  shows "previously_voted v d s = None"
proof -
  have "bt_invar (author_to_vote s)" using assms(1) by (simp add: votes_inv_def)
  then have "bt_get (author_to_vote s) (v_author v) = None"
    using assms(2) by (cases "bt_get (author_to_vote s) (v_author v)") (auto simp: all_voters_def bt.set_keys)
  then show ?thesis by (simp add: previously_voted_def)
qed

text \<open>Who has a stored vote after an insertion, and for what.\<close>

lemma inserted_voters:
  assumes inv: "votes_inv c vv L s" and ins: "inserted c vv v d s res s'"
  shows "all_voters s' = insert (v_author v) (all_voters s)"
    and "voters_for s d' \<subseteq> voters_for s' d'"
    and "v_author v \<notin> all_voters s \<Longrightarrow> v_author v \<in> voters_for s' d"
    and "timeout_voters s \<subseteq> timeout_voters s'"
    and "timeout_voters s' \<subseteq> insert (v_author v) (timeout_voters s)"
proof -
  show "all_voters s' = insert (v_author v) (all_voters s)"
  proof (cases "previously_voted v d s")
    case None
    then show ?thesis using ins stored_vote(3) [OF inv None] by (simp add: inserted_def all_voters_def)
  next
    case (Some x)
    then have "bt_get (author_to_vote s) (v_author v) \<noteq> None" by (auto simp: previously_voted_def split: option.splits)
    then have "v_author v \<in> all_voters s" using inv by (simp add: all_voters_def votes_inv_def bt.set_keys)
    then show ?thesis using ins Some by (auto simp: inserted_def)
  qed
  have same: "previously_voted v d s = None \<Longrightarrow> author_to_vote s' = author_to_vote (store_vote v d s)"
    "previously_voted v d s \<noteq> None \<Longrightarrow> s' = s"
    using ins by (auto simp: inserted_def)
  have vf: "previously_voted v d s = None \<Longrightarrow> voters_for s' = voters_for (store_vote v d s)"
    and tv: "previously_voted v d s = None \<Longrightarrow> timeout_voters s' = timeout_voters (store_vote v d s)"
    using same(1) by (simp_all add: voters_for_def timeout_voters_def fun_eq_iff)
  show "voters_for s d' \<subseteq> voters_for s' d'" and "timeout_voters s \<subseteq> timeout_voters s'"
    and "timeout_voters s' \<subseteq> insert (v_author v) (timeout_voters s)"
  proof -
    consider "previously_voted v d s = None" | "s' = s" using same(2) by blast
    then show "voters_for s d' \<subseteq> voters_for s' d'"
      by cases (use vf stored_vote(1) [OF inv] in auto)
    consider "previously_voted v d s = None" | "s' = s" using same(2) by blast
    then show "timeout_voters s \<subseteq> timeout_voters s'"
      by cases (use tv stored_vote(2) [OF inv] in auto)
    consider "previously_voted v d s = None" | "s' = s" using same(2) by blast
    then show "timeout_voters s' \<subseteq> insert (v_author v) (timeout_voters s)"
      by cases (use tv stored_vote(2) [OF inv] in auto)
  qed
  show "v_author v \<notin> all_voters s \<Longrightarrow> v_author v \<in> voters_for s' d"
    using new_voter [OF inv] vf stored_vote(1) [OF inv] by simp
qed

lemma voters_members:
  assumes "wf_verifier vv"
  shows "votes_inv c vv L s \<Longrightarrow> voters_for s d \<subseteq> vv_members vv"
    and "timeouts_inv c vv e r s \<Longrightarrow> tc_signers s \<subseteq> vv_members vv"
proof -
  show "voters_for s d \<subseteq> vv_members vv" if inv: "votes_inv c vv L s"
  proof
    fix a assume a: "a \<in> voters_for s d"
    then obtain i l where "bt_get (li_digest_to_votes s) d = Some (i, l)"
      using votes_invD(2) [OF inv] by (fastforce simp: voters_for_def)
    then have l: "li_votes_ok c vv L s d l" by (rule votes_invD(1) [OF inv])
    then have "a \<in> fst ` set (ps_signatures (lip_partial_sigs l))"
      using a by (simp add: li_votes_ok_def bt_keys_def)
    then obtain sg where "(a, sg) \<in> set (ps_signatures (lip_partial_sigs l))" by auto
    then show "a \<in> vv_members vv"
      using l verifier_verify_known [OF assms] by (auto simp: li_votes_ok_def)
  qed
  show "tc_signers s \<subseteq> vv_members vv" if inv: "timeouts_inv c vv e r s"
    using that verifier_verify_known [OF assms]
    by (fastforce simp: timeouts_inv_def tc_signers_def partial_tc_ok_def tp_signers_def split: option.splits)
qed

lemma insert_votes_sound:
  assumes env: "vote_env c vv L" and vs: "\<forall>v \<in> set vs. checked_vote c vv e r L v"
    and inv: "votes_inv c vv L s" "timeouts_inv c vv e r s"
  shows "\<forall>x \<in> set (fst (insert_votes c vv vs s)). \<exists>res. x = Ok res \<and> sound_result c vv e r res"
  using vs inv
proof (induction vs arbitrary: s)
  case (Cons v vs)
  obtain res s' d where "pv_insert_vote c v vv s = (Ok res :: (_, unit) result, s')"
    "votes_inv c vv L s'" "timeouts_inv c vv e r s'" "sound_result c vv e r res"
    using pv_insert_vote_step [OF env _ Cons.prems(2,3), of v] Cons.prems(1) by (metis list.set_intros(1))
  then show ?case using Cons.IH [of s'] Cons.prems(1) by (auto split: prod.splits)
qed simp

text \<open>The votes of a quorum for one ledger info.\<close>

lemma insert_votes_quorum_cert:
  assumes env: "vote_env c vv L" and S: "is_quorum vv S"
    and d: "message_hash c (msg_ledger_info li) = Some d"
    and vs: "\<forall>v \<in> set vs. checked_vote c vv e r L v"
    and same: "\<forall>v \<in> set vs. v_author v \<in> S \<longrightarrow> v_ledger_info v = li"
    and inv: "votes_inv c vv L s" "timeouts_inv c vv e r s"
    and so_far: "S \<inter> all_voters s \<subseteq> voters_for s d" and missing: "\<not> S \<subseteq> all_voters s"
    and all: "S \<subseteq> all_voters s \<union> v_author ` set vs"
  shows "\<exists>qc. Ok (NewQuorumCertificate qc) \<in> set (fst (insert_votes c vv vs s)) \<and>
    lis_ledger_info (qc_signed_ledger_info qc) = li"
  using vs same inv so_far missing all
proof (induction vs arbitrary: s)
  case (Cons v vs)
  have wf: "wf_verifier vv" using env by (simp add: vote_env_def)
  obtain res s' dv where step: "pv_insert_vote c v vv s = (Ok res :: (_, unit) result, s')"
    and dv: "message_hash c (msg_ledger_info (v_ledger_info v)) = Some dv"
    and inv': "votes_inv c vv L s'" "timeouts_inv c vv e r s'" and ins: "inserted c vv v dv s res s'"
    using pv_insert_vote_step [OF env _ Cons.prems(3,4), of v] Cons.prems(1) by (metis list.set_intros(1))
  note voters = inserted_voters [OF Cons.prems(3) ins]
  have dv_eq: "v_author v \<in> S \<Longrightarrow> dv = d \<and> v_ledger_info v = li" using Cons.prems(2) d dv by simp
  have so_far': "S \<inter> all_voters s' \<subseteq> voters_for s' d"
  proof
    fix a assume a: "a \<in> S \<inter> all_voters s'"
    then show "a \<in> voters_for s' d"
      using Cons.prems(5) voters(1,3) voters(2) [of d] dv_eq by (cases "a \<in> all_voters s") auto
  qed
  show ?case
  proof (cases "S \<subseteq> all_voters s'")
    case True
    then have v: "v_author v \<in> S" "v_author v \<notin> all_voters s" using Cons.prems(6) voters(1) by (auto simp: insert_absorb)
    have "is_quorum vv (voters_for s' dv)"
      using is_quorum_mono [OF wf S _ voters_members(1) [OF wf inv'(1)]] so_far' True dv_eq v(1) by blast
    moreover have "previously_voted v dv s = None" using new_voter Cons.prems(3) v(2) by blast
    ultimately show ?thesis
      using ins dv_eq v(1) step by (auto simp: inserted_def split: prod.splits)
  next
    case False
    have "S \<subseteq> all_voters s' \<union> v_author ` set vs" using Cons.prems(7) voters(1) by auto
    then have "\<exists>qc. Ok (NewQuorumCertificate qc) \<in> set (fst (insert_votes c vv vs s')) \<and>
        lis_ledger_info (qc_signed_ledger_info qc) = li"
      using Cons.IH [OF _ _ inv' so_far' False] Cons.prems(1,2) by simp
    then show ?thesis using step by (auto split: prod.splits)
  qed
qed simp

text \<open>
  The timeouts of a quorum: as long as no quorum certificate was formed, the partial timeout
  certificate has all authors of stored timeouts as signers.
\<close>

lemma inserted_timeouts:
  assumes inv: "votes_inv c vv L s" and ins: "inserted c vv v d s res s'"
    and no_qc: "\<And>qc. res \<noteq> NewQuorumCertificate qc" and full: "timeout_voters s \<subseteq> tc_signers s"
  shows "timeout_voters s' \<subseteq> tc_signers s'"
    and "v_author v \<in> timeout_voters s' \<Longrightarrow> v_author v \<notin> timeout_voters s \<Longrightarrow> is_quorum vv (tc_signers s') \<Longrightarrow>
      \<exists>tc. res = New2ChainTimeoutCertificate tc"
proof -
  have tv: "timeout_voters s' = timeout_voters (store_vote v d s)" if "previously_voted v d s = None"
    using that ins by (simp add: inserted_def timeout_voters_def)
  have tc: "tc_signers s' = (if is_timeout v then insert (v_author v) (tc_signers s) else tc_signers s) \<and>
      (is_timeout v \<and> is_quorum vv (tc_signers s') \<longrightarrow> (\<exists>tc. res = New2ChainTimeoutCertificate tc))"
    if "previously_voted v d s = None"
    using that ins no_qc by (simp add: inserted_def split: if_splits)
  have same: "s' = s" if "previously_voted v d s \<noteq> None" using that ins by (auto simp: inserted_def)
  show "timeout_voters s' \<subseteq> tc_signers s'"
  proof (cases "previously_voted v d s = None")
    case True
    then show ?thesis using tv tc stored_vote(2) [OF inv True] full by (auto split: if_splits)
  qed (use same full in simp)
  show "\<exists>tc. res = New2ChainTimeoutCertificate tc"
    if "v_author v \<in> timeout_voters s'" "v_author v \<notin> timeout_voters s" "is_quorum vv (tc_signers s')"
  proof (cases "previously_voted v d s = None")
    case True
    then have "is_timeout v" using that(1,2) tv stored_vote(2) [OF inv True] by (auto split: if_splits)
    then show ?thesis using tc [OF True] that(3) by blast
  qed (use same that in simp)
qed

definition stored_for :: "pending_votes \<Rightarrow> (author \<Rightarrow> ledger_info) \<Rightarrow> author set \<Rightarrow> bool" where
  "stored_for s lf S \<longleftrightarrow> (\<forall>a \<in> S. \<forall>w d. bt_get (author_to_vote s) a = Some (w, d) \<longrightarrow> v_ledger_info w = lf a)"

lemma inserted_stored_for:
  assumes inv: "votes_inv c vv L s" and ins: "inserted c vv v d s res s'" and st: "stored_for s lf S"
    and v: "v_author v \<in> S \<Longrightarrow> v_ledger_info v = lf (v_author v)"
  shows "stored_for s' lf S"
proof (cases "previously_voted v d s = None")
  case True
  then have "author_to_vote s' = bt_insert (v_author v) (v, d) (author_to_vote s)"
    using ins by (simp add: inserted_def store_vote_def)
  then show ?thesis using inv st v by (auto simp: stored_for_def votes_inv_def bt.get_insert split: if_splits)
qed (use ins st in \<open>auto simp: inserted_def\<close>)

lemma inserted_new_timeout:
  assumes inv: "votes_inv c vv L s" and ins: "inserted c vv v d s res s'" and st: "stored_for s lf S"
    and v: "v_author v \<in> S" "v_ledger_info v = lf (v_author v)" "is_timeout v"
      "message_hash c (msg_ledger_info (v_ledger_info v)) = Some d"
  shows "v_author v \<in> timeout_voters s'"
proof (cases "v_author v \<in> timeout_voters s")
  case True
  then show ?thesis using inserted_voters(4) [OF inv ins] by blast
next
  case False
  have new: "previously_voted v d s = None"
  proof (cases "bt_get (author_to_vote s) (v_author v)")
    case (Some wd)
    obtain w dw where w: "bt_get (author_to_vote s) (v_author v) = Some (w, dw)" using Some by (cases wd) simp
    then have "dw = d" using votes_invD(3) [OF inv w] st v by (auto simp: stored_for_def)
    moreover have "\<not> is_timeout w" using False w by (auto simp: timeout_voters_def)
    ultimately show ?thesis using w v(3) by (simp add: previously_voted_def)
  qed (simp add: previously_voted_def)
  then have "author_to_vote s' = author_to_vote (store_vote v d s)" using ins by (simp add: inserted_def)
  then show ?thesis using stored_vote(2) [OF inv new] v(3) by (simp add: timeout_voters_def)
qed

lemma insert_votes_timeout_cert:
  assumes env: "vote_env c vv L" and S: "is_quorum vv S"
    and vs: "\<forall>v \<in> set vs. checked_vote c vv e r L v"
    and same: "\<forall>v \<in> set vs. v_author v \<in> S \<longrightarrow> v_ledger_info v = lf (v_author v)"
    and inv: "votes_inv c vv L s" "timeouts_inv c vv e r s"
    and so_far: "stored_for s lf S" "timeout_voters s \<subseteq> tc_signers s"
    and missing: "\<not> S \<subseteq> timeout_voters s"
    and all: "S \<subseteq> timeout_voters s \<union> v_author ` {v \<in> set vs. is_timeout v}"
  shows "(\<exists>qc. Ok (NewQuorumCertificate qc) \<in> set (fst (insert_votes c vv vs s))) \<or>
    (\<exists>tc. Ok (New2ChainTimeoutCertificate tc) \<in> set (fst (insert_votes c vv vs s)))"
  using vs same inv so_far missing all
proof (induction vs arbitrary: s)
  case (Cons v vs)
  have wf: "wf_verifier vv" using env by (simp add: vote_env_def)
  obtain res s' d where step: "pv_insert_vote c v vv s = (Ok res :: (_, unit) result, s')"
    and d: "message_hash c (msg_ledger_info (v_ledger_info v)) = Some d"
    and inv': "votes_inv c vv L s'" "timeouts_inv c vv e r s'" and ins: "inserted c vv v d s res s'"
    using pv_insert_vote_step [OF env _ Cons.prems(3,4), of v] Cons.prems(1) by (metis list.set_intros(1))
  note voters = inserted_voters [OF Cons.prems(3) ins]
  have v: "v_author v \<in> S \<Longrightarrow> v_ledger_info v = lf (v_author v)" using Cons.prems(2) by simp
  show ?case
  proof (cases "\<exists>qc. res = NewQuorumCertificate qc")
    case True
    then show ?thesis using step by (auto split: prod.splits)
  next
    case False
    then have no_qc: "\<And>qc. res \<noteq> NewQuorumCertificate qc" by blast
    note timeouts = inserted_timeouts [OF Cons.prems(3) ins no_qc Cons.prems(6)]
    have stored: "stored_for s' lf S" by (rule inserted_stored_for [OF Cons.prems(3) ins Cons.prems(5) v])
    have rest: "S \<subseteq> timeout_voters s' \<union> v_author ` {v \<in> set vs. is_timeout v}"
      using Cons.prems(8) voters(4) inserted_new_timeout [OF Cons.prems(3) ins Cons.prems(5) _ v _ d] by auto
    show ?thesis
    proof (cases "S \<subseteq> timeout_voters s'")
      case True
      then have "v_author v \<in> timeout_voters s'" "v_author v \<notin> timeout_voters s"
        using Cons.prems(7) voters(5) by (auto simp: insert_absorb)
      moreover have "is_quorum vv (tc_signers s')"
        using is_quorum_mono [OF wf S _ voters_members(2) [OF wf inv'(2)]] True timeouts(1) by blast
      ultimately obtain tc where "res = New2ChainTimeoutCertificate tc" using timeouts(2) by blast
      then show ?thesis using step by (auto split: prod.splits)
    next
      case False
      then have "(\<exists>qc. Ok (NewQuorumCertificate qc) \<in> set (fst (insert_votes c vv vs s'))) \<or>
          (\<exists>tc. Ok (New2ChainTimeoutCertificate tc) \<in> set (fst (insert_votes c vv vs s')))"
        using Cons.IH [OF _ _ inv' stored timeouts(1) False rest] Cons.prems(1,2) by simp
      then show ?thesis using step by (auto split: prod.splits)
    qed
  qed
qed simp

end
