(* ===== verification/Round_State.thy ===== *)
theory Round_State
  imports Pending_Votes
begin

text \<open>
  The round a validator is in, \<^verbatim>\<open>consensus/src/liveness/round_state.rs\<close>: certificates move it forward,
  a timer is armed for every round, votes of the round are collected and the validator's own vote is
  kept. The interval of a round (a trait object), the clock and the timer service are arguments:
  the interval is a field of the state, the current time an argument of the methods that ask for it,
  and the abort handle of the armed timer is the pair of its delay and the round it will report.
  \<^verbatim>\<open>ExponentialTimeInterval\<close>, which computes with floating point numbers, is not modelled.
\<close>

section \<open>Durations\<close>

text \<open>A \<^verbatim>\<open>Duration\<close> in nanoseconds: 64 bits of seconds. Its operators panic on overflow.\<close>

type_synonym duration = nat

definition duration_limit :: nat where
  "duration_limit = 2 ^ 64 * 10 ^ 9"

definition duration_add :: "duration \<Rightarrow> duration \<Rightarrow> (duration, 'e) result" where
  "duration_add a b = (if a + b < duration_limit then Ok (a + b) else Panic)"

definition duration_mul :: "duration \<Rightarrow> nat \<Rightarrow> (duration, 'e) result" where
  "duration_mul a m = (if a * m < duration_limit then Ok (a * m) else Panic)"

section \<open>State\<close>

datatype new_round_reason = QCReady | TimeoutReason

record new_round_event =
  nre_round :: round
  nre_reason :: new_round_reason
  nre_timeout :: duration
  nre_prev_round_votes :: "(hash_value \<times> ledger_info_with_partial_signatures) list"
  nre_prev_round_timeout_votes :: "two_chain_timeout_with_partial_signatures option"

record round_state =
  time_interval :: "u64 \<Rightarrow> duration"
  highest_committed_round :: round
  current_round :: round
  current_round_deadline :: duration
  rs_pending_votes :: pending_votes
  vote_sent :: "vote option"
  abort_handle :: "(duration \<times> round) option"

definition round_state_new :: "(u64 \<Rightarrow> duration) \<Rightarrow> duration \<Rightarrow> round_state" where
  "round_state_new interval now =
     \<lparr>time_interval = interval, highest_committed_round = 0, current_round = 0,
      current_round_deadline = now, rs_pending_votes = pending_votes_new, vote_sent = None,
      abort_handle = None\<rparr>"

definition is_vote_timeout :: "round_state \<Rightarrow> bool" where
  "is_vote_timeout rs = (case vote_sent rs of None \<Rightarrow> False | Some v \<Rightarrow> is_timeout v)"

section \<open>Timers\<close>

definition round_index_after_committed_round :: "round_state \<Rightarrow> (u64, 'e) result" where
  "round_index_after_committed_round rs =
     (if highest_committed_round rs = 0 then minus_or_panic (current_round rs) 1
      else and_then (plus_or_panic (highest_committed_round rs) 3) (\<lambda>third.
        if current_round rs < third then Ok 0
        else and_then (minus_or_panic (current_round rs) (highest_committed_round rs)) (\<lambda>d.
          minus_or_panic d 3)))"

definition setup_deadline :: "duration \<Rightarrow> nat \<Rightarrow> (round_state, duration, 'e) handler" where
  "setup_deadline now multiplier =
     bind_h (lift_h round_index_after_committed_round) (\<lambda>index.
     bind_h (lift_h (\<lambda>rs. duration_mul (time_interval rs index) multiplier)) (\<lambda>timeout.
     bind_h (lift_h (\<lambda>_. duration_add now timeout)) (\<lambda>deadline.
     bind_h (modify_h (\<lambda>rs. rs\<lparr>current_round_deadline := deadline\<rparr>)) (\<lambda>_.
     return_h timeout))))"

definition setup_timeout :: "duration \<Rightarrow> nat \<Rightarrow> (round_state, duration, 'e) handler" where
  "setup_timeout now multiplier =
     bind_h (setup_deadline now multiplier) (\<lambda>timeout.
     bind_h (modify_h (\<lambda>rs. rs\<lparr>abort_handle := Some (timeout, current_round rs)\<rparr>)) (\<lambda>_.
     return_h timeout))"

definition setup_leader_timeout :: "duration \<Rightarrow> (round_state, unit, 'e) handler" where
  "setup_leader_timeout now = bind_h (setup_timeout now 2) (\<lambda>_. return_h ())"

definition process_local_timeout :: "duration \<Rightarrow> round \<Rightarrow> (round_state, bool, 'e) handler" where
  "process_local_timeout now rnd =
     bind_h (lift_h (\<lambda>rs. Ok (current_round rs))) (\<lambda>cur.
     if rnd \<noteq> cur then return_h False
     else bind_h (setup_timeout now 1) (\<lambda>_. return_h True))"

section \<open>Certificates and votes\<close>

definition update_committed_round :: "sync_info \<Rightarrow> round_state \<Rightarrow> round_state" where
  "update_committed_round si rs =
     (if highest_ordered_round si > highest_committed_round rs
      then rs\<lparr>highest_committed_round := highest_ordered_round si\<rparr> else rs)"

definition start_round :: "round \<Rightarrow> round_state \<Rightarrow> round_state" where
  "start_round new_round rs =
     rs\<lparr>current_round := new_round, rs_pending_votes := pending_votes_new, vote_sent := None\<rparr>"

definition process_certificates ::
  "duration \<Rightarrow> sync_info \<Rightarrow> (round_state, new_round_event option, 'e) handler" where
  "process_certificates now si =
     bind_h (modify_h (update_committed_round si)) (\<lambda>_.
     bind_h (lift_h (\<lambda>_. plus_or_panic (highest_round si) 1)) (\<lambda>new_round.
     bind_h (lift_h (\<lambda>rs. Ok (current_round rs))) (\<lambda>cur.
     if new_round > cur then
       bind_h (lift_h (\<lambda>rs. Ok (fst (drain_votes (rs_pending_votes rs))))) (\<lambda>(prev_votes, prev_timeout_votes).
       bind_h (modify_h (start_round new_round)) (\<lambda>_.
       bind_h (setup_timeout now 1) (\<lambda>timeout.
       bind_h (lift_h (\<lambda>_. plus_or_panic (highest_certified_round si) 1)) (\<lambda>after_qc.
       return_h (Some
         \<lparr>nre_round = new_round,
          nre_reason = (if after_qc = new_round then QCReady else TimeoutReason),
          nre_timeout = timeout, nre_prev_round_votes = prev_votes,
          nre_prev_round_timeout_votes = prev_timeout_votes\<rparr>)))))
     else return_h None)))"

definition rs_insert_vote ::
  "crypto \<Rightarrow> vote \<Rightarrow> validator_verifier \<Rightarrow> (round_state, vote_reception_result, 'e) handler" where
  "rs_insert_vote c v vv =
     bind_h (lift_h (\<lambda>rs. Ok (current_round rs))) (\<lambda>cur.
     if v_round v = cur
     then focus_h rs_pending_votes (\<lambda>p rs. rs\<lparr>rs_pending_votes := p\<rparr>) (pv_insert_vote c v vv)
     else return_h (UnexpectedRound (v_round v) cur))"

definition record_vote :: "vote \<Rightarrow> round_state \<Rightarrow> round_state" where
  "record_vote v rs = (if v_round v = current_round rs then rs\<lparr>vote_sent := Some v\<rparr> else rs)"

section \<open>Runs\<close>

text \<open>What the round manager does with the round state, in any order.\<close>

datatype round_command =
    Certificates duration sync_info
  | LocalTimeout duration round
  | LeaderTimeout duration
  | InsertVote vote
  | RecordVote vote

fun round_step ::
  "crypto \<Rightarrow> validator_verifier \<Rightarrow> round_command \<Rightarrow> (round_state, new_round_event option, unit) handler" where
  "round_step c vv (Certificates now si) = process_certificates now si"
| "round_step c vv (LocalTimeout now rnd) = bind_h (process_local_timeout now rnd) (\<lambda>_. return_h None)"
| "round_step c vv (LeaderTimeout now) = bind_h (setup_leader_timeout now) (\<lambda>_. return_h None)"
| "round_step c vv (InsertVote v) = bind_h (rs_insert_vote c v vv) (\<lambda>_. return_h None)"
| "round_step c vv (RecordVote v) = bind_h (modify_h (record_vote v)) (\<lambda>_. return_h None)"

text \<open>The events of a run; a panic ends it.\<close>

fun round_run ::
  "crypto \<Rightarrow> validator_verifier \<Rightarrow> round_command list \<Rightarrow> (round_state, new_round_event list, unit) handler" where
  "round_run c vv [] = return_h []"
| "round_run c vv (cmd # cmds) =
     bind_h (round_step c vv cmd) (\<lambda>ev.
     bind_h (round_run c vv cmds) (\<lambda>evs.
     return_h ((case ev of Some e \<Rightarrow> [e] | None \<Rightarrow> []) @ evs)))"

text \<open>What belongs to the current round: the votes collected, the vote sent and the armed timer.\<close>

definition votes_of_round :: "pending_votes \<Rightarrow> round \<Rightarrow> bool" where
  "votes_of_round p rnd \<longleftrightarrow>
     bt_invar (author_to_vote p) \<and>
     (\<forall>a x. bt_get (author_to_vote p) a = Some x \<longrightarrow> v_round (fst x) = rnd)"

definition round_inv :: "round_state \<Rightarrow> bool" where
  "round_inv rs \<longleftrightarrow>
     votes_of_round (rs_pending_votes rs) (current_round rs) \<and>
     (\<forall>v. vote_sent rs = Some v \<longrightarrow> v_round v = current_round rs) \<and>
     (\<forall>t r. abort_handle rs = Some (t, r) \<longrightarrow> r = current_round rs)"

lemma votes_of_round_new: "votes_of_round pending_votes_new rnd"
  by (simp add: votes_of_round_def pending_votes_new_def bt.invar_empty bt.get_empty)

lemma votes_of_round_insert:
  assumes "votes_of_round p rnd" and "v_round v = rnd"
    and "author_to_vote p' = author_to_vote p \<or> (\<exists>d. author_to_vote p' = bt_insert (v_author v) (v, d) (author_to_vote p))"
  shows "votes_of_round p' rnd"
  unfolding votes_of_round_def
proof (intro conjI allI impI)
  have inv: "bt_invar (author_to_vote p)" using assms(1) by (simp add: votes_of_round_def)
  then show "bt_invar (author_to_vote p')" using assms(3) by (auto simp: bt.invar_insert)
  fix a x assume "bt_get (author_to_vote p') a = Some x"
  then have "bt_get (author_to_vote p) a = Some x \<or> fst x = v"
    using assms(3) inv by (auto simp: bt.get_insert split: if_splits)
  then show "v_round (fst x) = rnd" using assms(1,2) unfolding votes_of_round_def by blast
qed

lemma setup_timeout_Ok:
  assumes "setup_timeout now m rs = (Ok t, rs')"
  shows "\<exists>deadline. rs' = rs\<lparr>current_round_deadline := deadline, abort_handle := Some (t, current_round rs)\<rparr>"
  using assms by (auto simp: setup_timeout_def setup_deadline_def result_simps)

lemma try_timeout_cert_author:
  "try_timeout_cert c v vv s = (r, s') \<Longrightarrow> author_to_vote s' = author_to_vote s"
  by (auto simp: try_timeout_cert_def Let_def bind_lift split: option.splits result.splits verify_error.splits if_splits)

lemma pv_insert_vote_author:
  assumes "pv_insert_vote c v vv s = (Ok res, s')"
  shows "author_to_vote s' = author_to_vote s \<or> (\<exists>d. author_to_vote s' = bt_insert (v_author v) (v, d) (author_to_vote s))"
proof -
  have certify: "author_to_vote s2 = author_to_vote s1" if "certify_vote c v vv l s1 = (Ok res, s2)" for l s1 s2
    using that
    by (auto simp: certify_vote_def bind_lift bind_h_eq_Ok return_h_def split: sum.splits option.splits result.splits
        dest: try_timeout_cert_author)
  show ?thesis
    using assms
    by (auto simp: pv_insert_vote_def result_simps add_vote_signature_def Let_def store_vote_def
        split: option.splits prod.splits dest!: certify)
qed

lemma rs_insert_vote_inv:
  assumes run: "rs_insert_vote c v vv rs = (Ok res :: (_, 'e) result, rs')" and inv: "round_inv rs"
  shows "round_inv rs' \<and> current_round rs' = current_round rs"
proof (cases "v_round v = current_round rs")
  case True
  then have "\<exists>p. pv_insert_vote c v vv (rs_pending_votes rs) = (Ok res :: (_, 'e) result, p) \<and> rs' = rs\<lparr>rs_pending_votes := p\<rparr>"
    using run by (simp add: rs_insert_vote_def bind_lift focus_h_eq_Ok)
  then obtain p where p: "pv_insert_vote c v vv (rs_pending_votes rs) = (Ok res :: (_, 'e) result, p)"
    and rs': "rs' = rs\<lparr>rs_pending_votes := p\<rparr>" by blast
  have "votes_of_round p (current_round rs)"
    using votes_of_round_insert [OF _ True pv_insert_vote_author [OF p]] inv by (simp add: round_inv_def)
  then show ?thesis using inv by (simp add: rs' round_inv_def)
qed (use run inv in \<open>auto simp: rs_insert_vote_def result_simps\<close>)

lemma process_certificates_Ok:
  assumes run: "process_certificates now si rs = (Ok ev, rs')"
  shows "unat (highest_round si) + 1 < 2 ^ 64"
    and "highest_round si + 1 \<le> current_round rs \<Longrightarrow>
      ev = None \<and> rs' = update_committed_round si rs"
    and "\<not> highest_round si + 1 \<le> current_round rs \<Longrightarrow>
      \<exists>e t deadline. ev = Some e \<and> nre_round e = highest_round si + 1 \<and>
        rs' = (start_round (highest_round si + 1) (update_committed_round si rs))
          \<lparr>current_round_deadline := deadline, abort_handle := Some (t, highest_round si + 1)\<rparr>"
proof -
  have cur: "current_round (update_committed_round si rs) = current_round rs"
    by (simp add: update_committed_round_def)
  obtain n where n: "plus_or_panic (highest_round si) 1 = (Ok n :: (_, 'a) result)"
    using run by (auto simp: process_certificates_def bind_lift bind_modify split: result.splits)
  then have bound: "unat (highest_round si) + 1 < 2 ^ 64" and n_eq: "n = highest_round si + 1"
    by (auto simp: plus_or_panic_def checked_add_def expect_def split: if_splits)
  then show "unat (highest_round si) + 1 < 2 ^ 64" by blast
  note run' = run [unfolded process_certificates_def, simplified bind_lift bind_modify n result.case cur, unfolded n_eq]
  show "ev = None \<and> rs' = update_committed_round si rs" if "highest_round si + 1 \<le> current_round rs"
    using run' leD [OF that] by (simp add: return_h_def)
  show "\<exists>e t deadline. ev = Some e \<and> nre_round e = highest_round si + 1 \<and>
        rs' = (start_round (highest_round si + 1) (update_committed_round si rs))
          \<lparr>current_round_deadline := deadline, abort_handle := Some (t, highest_round si + 1)\<rparr>"
    if "\<not> highest_round si + 1 \<le> current_round rs"
  proof -
    have lt: "current_round rs < highest_round si + 1" using that by (simp only: not_le)
    obtain t where t: "setup_timeout now 1 (start_round (highest_round si + 1) (update_committed_round si rs)) =
        (Ok t :: (_, 'a) result, rs')" and "\<exists>e. ev = Some e \<and> nre_round e = highest_round si + 1"
      using run' unfolding if_P [OF lt]
      by (auto simp: bind_h_eq_Ok lift_h_eq_Ok modify_h_eq_Ok return_h_eq_Ok split: prod.splits)
    then show ?thesis using setup_timeout_Ok [OF t] by (auto simp: start_round_def)
  qed
qed

text \<open>The round a command asks for.\<close>

fun command_round :: "round_command \<Rightarrow> round" where
  "command_round (Certificates now si) = highest_round si + 1"
| "command_round _ = 0"

lemma setup_timeout_inv:
  assumes "setup_timeout now m rs = (Ok t, rs')" and "round_inv rs"
  shows "round_inv rs' \<and> current_round rs' = current_round rs"
  using setup_timeout_Ok [OF assms(1)] assms(2) by (auto simp: round_inv_def)

lemma process_certificates_inv:
  assumes run: "process_certificates now si rs = (Ok ev, rs')" and inv: "round_inv rs"
  shows "round_inv rs'" and "current_round rs' = max (current_round rs) (highest_round si + 1)"
    and "ev = Some e \<Longrightarrow> nre_round e = current_round rs' \<and> current_round rs < current_round rs'"
    and "ev = None \<Longrightarrow> current_round rs' = current_round rs"
proof -
  have "round_inv rs' \<and> current_round rs' = max (current_round rs) (highest_round si + 1) \<and>
      (\<forall>e. ev = Some e \<longrightarrow> nre_round e = current_round rs' \<and> current_round rs < current_round rs') \<and>
      (ev = None \<longrightarrow> current_round rs' = current_round rs)"
  proof (cases "highest_round si + 1 \<le> current_round rs")
    case True
    then show ?thesis
      using process_certificates_Ok(2) [OF run True] inv
      by (auto simp: update_committed_round_def round_inv_def max_def)
  next
    case False
    then have less: "current_round rs < highest_round si + 1" by (simp only: not_le)
    show ?thesis
      using process_certificates_Ok(3) [OF run False] less
      by (auto simp: start_round_def round_inv_def votes_of_round_new)
  qed
  then show "round_inv rs'" "current_round rs' = max (current_round rs) (highest_round si + 1)"
    "ev = Some e \<Longrightarrow> nre_round e = current_round rs' \<and> current_round rs < current_round rs'"
    "ev = None \<Longrightarrow> current_round rs' = current_round rs"
    by blast+
qed

lemma round_step_inv:
  assumes run: "round_step c vv cmd rs = (Ok ev, rs')" and inv: "round_inv rs"
  shows "round_inv rs' \<and> current_round rs' = max (current_round rs) (command_round cmd) \<and>
    (case ev of Some e \<Rightarrow> nre_round e = current_round rs' \<and> current_round rs < current_round rs'
     | None \<Rightarrow> current_round rs' = current_round rs)"
proof (cases cmd)
  case (Certificates now si)
  then show ?thesis using process_certificates_inv [OF run [unfolded Certificates round_step.simps] inv]
    by (auto split: option.split)
next
  case (LocalTimeout now rnd)
  then show ?thesis
    using run inv by (auto simp: process_local_timeout_def result_simps split: if_splits dest: setup_timeout_inv)
next
  case (LeaderTimeout now)
  then show ?thesis
    using run inv by (auto simp: setup_leader_timeout_def result_simps dest: setup_timeout_inv)
next
  case (InsertVote v)
  then obtain res where "rs_insert_vote c v vv rs = (Ok res :: (_, unit) result, rs')" "ev = None"
    using run by (auto simp: bind_h_eq_Ok return_h_eq_Ok)
  then show ?thesis using rs_insert_vote_inv [of c v vv rs res rs'] inv InsertVote by simp
next
  case (RecordVote v)
  then show ?thesis using run inv by (auto simp: result_simps record_vote_def round_inv_def)
qed

lemma round_run_inv:
  assumes "round_run c vv cmds rs = (Ok evs, rs')" and "round_inv rs"
  shows "round_inv rs' \<and> sorted_wrt (<) (current_round rs # map nre_round evs) \<and>
    current_round rs' = last (current_round rs # map nre_round evs) \<and>
    current_round rs' = foldl max (current_round rs) (map command_round cmds)"
  using assms
proof (induction cmds arbitrary: rs evs)
  case Nil
  then show ?case by (simp add: return_h_eq_Ok)
next
  case (Cons cmd cmds)
  obtain ev rs1 evs1 where step: "round_step c vv cmd rs = (Ok ev, rs1)"
    and rest: "round_run c vv cmds rs1 = (Ok evs1, rs')" and evs: "evs = (case ev of Some e \<Rightarrow> [e] | None \<Rightarrow> []) @ evs1"
    using Cons.prems(1) by (auto simp: bind_h_eq_Ok return_h_eq_Ok)
  note s = round_step_inv [OF step Cons.prems(2)]
  note r = Cons.IH [OF rest conjunct1 [OF s]]
  show ?case
  proof (cases ev)
    case None
    then have eq: "current_round rs1 = current_round rs" "max (current_round rs) (command_round cmd) = current_round rs"
      using s by auto
    show ?thesis using r unfolding eq by (auto simp: evs None eq)
  next
    case (Some e)
    then have e: "nre_round e = current_round rs1" and less: "current_round rs < current_round rs1" using s by auto
    have "current_round rs < nre_round x" if "x \<in> set evs1" for x
      using less_trans [OF less, of "nre_round x"] r that by simp
    moreover have "current_round rs1 = max (current_round rs) (command_round cmd)" using s by blast
    ultimately show ?thesis using r less by (simp add: evs Some e) auto
  qed
qed

lemma round_inv_init: "round_inv (round_state_new interval now)"
  by (simp add: round_inv_def round_state_new_def votes_of_round_new)

section \<open>Progress\<close>

text \<open>No arithmetic of the timers and rounds overflows.\<close>

definition timers_fit :: "duration \<Rightarrow> round_state \<Rightarrow> sync_info \<Rightarrow> bool" where
  "timers_fit now rs si \<longleftrightarrow>
     (\<forall>i. now + time_interval rs i < duration_limit) \<and> unat (highest_round si) + 1 < 2 ^ 64 \<and>
     unat (highest_committed_round rs) + 3 < 2 ^ 64 \<and> unat (highest_ordered_round si) + 3 < 2 ^ 64"

lemma round_index_Ok:
  assumes "current_round rs \<noteq> 0" and "unat (highest_committed_round rs) + 3 < 2 ^ 64"
  shows "\<exists>i. round_index_after_committed_round rs = (Ok i :: (_, 'e) result)"
proof (cases "highest_committed_round rs = 0")
  case True
  have "1 \<le> current_round rs" using assms(1) by (simp add: word_le_nat_alt word_neq_0_conv [symmetric] unat_gt_0 Suc_le_eq)
  then show ?thesis using True by (simp add: round_index_after_committed_round_def minus_or_panic_def checked_sub_def expect_def)
next
  case False
  let ?h = "highest_committed_round rs" and ?r = "current_round rs"
  have third: "plus_or_panic ?h 3 = (Ok (?h + 3) :: (_, 'e) result)" and u: "unat (?h + 3) = unat ?h + 3"
    using assms(2) by (auto simp: plus_or_panic_def checked_add_def expect_def unat_add_lem [THEN iffD1])
  show ?thesis
  proof (cases "?r < ?h + 3")
    case True
    then show ?thesis using False third by (simp add: round_index_after_committed_round_def)
  next
    case late: False
    then have le: "unat ?h + 3 \<le> unat ?r" using u by (simp add: word_less_nat_alt)
    then have "?h \<le> ?r" "3 \<le> ?r - ?h" by (simp_all add: word_le_nat_alt unat_sub)
    then show ?thesis
      using False third late
      by (simp add: round_index_after_committed_round_def minus_or_panic_def checked_sub_def expect_def)
  qed
qed

lemma setup_timeout_progress:
  assumes "current_round rs \<noteq> 0" and "unat (highest_committed_round rs) + 3 < 2 ^ 64"
    and "\<forall>i. now + time_interval rs i < duration_limit"
  shows "\<exists>t rs'. setup_timeout now 1 rs = (Ok t :: (_, 'e) result, rs')"
proof -
  obtain i where i: "round_index_after_committed_round rs = (Ok i :: (_, 'e) result)" using round_index_Ok [OF assms(1,2)] by blast
  have "now + time_interval rs i < duration_limit" using assms(3) by blast
  then have "duration_mul (time_interval rs i) 1 = (Ok (time_interval rs i) :: (_, 'e) result)"
    "duration_add now (time_interval rs i) = (Ok (now + time_interval rs i) :: (_, 'e) result)"
    by (simp_all add: duration_mul_def duration_add_def)
  then show ?thesis
    by (simp add: setup_timeout_def setup_deadline_def bind_h_def lift_h_def modify_h_def return_h_def i)
qed

text \<open>A certificate of the current round, or of a later one, starts the round after it.\<close>

lemma process_certificates_progress:
  assumes fit: "timers_fit now rs si" and cert: "current_round rs \<le> highest_round si"
  shows "\<exists>e rs'. process_certificates now si rs = (Ok (Some e) :: (_, 'e) result, rs') \<and>
    nre_round e = highest_round si + 1 \<and> current_round rs' = highest_round si + 1 \<and>
    current_round rs < current_round rs'"
proof -
  let ?n = "highest_round si + 1" and ?rs = "update_committed_round si rs"
  have bound: "unat (highest_round si) + 1 < 2 ^ 64" using fit by (simp add: timers_fit_def)
  then have n: "plus_or_panic (highest_round si) 1 = (Ok ?n :: (_, 'e) result)" and un: "unat ?n = unat (highest_round si) + 1"
    by (auto simp: plus_or_panic_def checked_add_def expect_def unat_add_lem [THEN iffD1])
  have less: "current_round rs < ?n" using cert un by (simp add: word_less_nat_alt word_le_nat_alt)
  have cur: "current_round ?rs = current_round rs" by (simp add: update_committed_round_def)
  have "current_round (start_round ?n ?rs) \<noteq> 0" using less by (auto simp: start_round_def)
  moreover have "unat (highest_committed_round (start_round ?n ?rs)) + 3 < 2 ^ 64"
    "\<forall>i. now + time_interval (start_round ?n ?rs) i < duration_limit"
    using fit by (auto simp: start_round_def update_committed_round_def timers_fit_def)
  ultimately obtain t rs' where t: "setup_timeout now 1 (start_round ?n ?rs) = (Ok t :: (_, 'e) result, rs')"
    using setup_timeout_progress by blast
  have "unat (highest_certified_round si) + 1 < 2 ^ 64"
    using bound by (simp add: highest_round_def max_def word_le_nat_alt split: if_splits)
  then have q: "plus_or_panic (highest_certified_round si) 1 = (Ok (highest_certified_round si + 1) :: (_, 'e) result)"
    by (simp add: plus_or_panic_def checked_add_def expect_def)
  obtain pv ptv where drained: "fst (drain_votes (rs_pending_votes ?rs)) = (pv, ptv)" by (cases "fst (drain_votes (rs_pending_votes ?rs))")
  have "process_certificates now si rs = (Ok (Some
         \<lparr>nre_round = ?n, nre_reason = (if highest_certified_round si + 1 = ?n then QCReady else TimeoutReason),
          nre_timeout = t, nre_prev_round_votes = pv, nre_prev_round_timeout_votes = ptv\<rparr>) :: (_, 'e) result, rs')"
    using less by (simp add: process_certificates_def bind_lift bind_modify n cur drained
        bind_step [where m = "setup_timeout now 1", OF t] q return_h_def del: One_nat_def)
  moreover have "current_round rs' = ?n" using setup_timeout_Ok [OF t] by (auto simp: start_round_def)
  ultimately show ?thesis using less by auto
qed

text \<open>A sequence of votes handed to the round state.\<close>

fun rs_insert_votes ::
  "crypto \<Rightarrow> validator_verifier \<Rightarrow> vote list \<Rightarrow> round_state \<Rightarrow>
   (vote_reception_result, unit) result list \<times> round_state" where
  "rs_insert_votes c vv [] rs = ([], rs)"
| "rs_insert_votes c vv (v # vs) rs =
     (case rs_insert_vote c v vv rs of
        (r, rs') \<Rightarrow> (case rs_insert_votes c vv vs rs' of (xs, rs'') \<Rightarrow> (r # xs, rs'')))"

lemma rs_insert_votes_eq:
  "\<forall>v \<in> set vs. v_round v = current_round rs \<Longrightarrow>
   rs_insert_votes c vv vs rs =
     (case insert_votes c vv vs (rs_pending_votes rs) of (xs, p) \<Rightarrow> (xs, rs\<lparr>rs_pending_votes := p\<rparr>))"
proof (induction vs arbitrary: rs)
  case (Cons v vs)
  obtain r p where p: "pv_insert_vote c v vv (rs_pending_votes rs) = (r :: (_, unit) result, p)" by fastforce
  then have "rs_insert_vote c v vv rs = (r, rs\<lparr>rs_pending_votes := p\<rparr>)"
    using Cons.prems by (simp add: rs_insert_vote_def bind_lift focus_h_def)
  then show ?case using Cons.IH [of "rs\<lparr>rs_pending_votes := p\<rparr>"] Cons.prems p by (simp split: prod.splits)
qed simp

end
