(* ===== verification/Round_Progress.thy ===== *)
theory Round_Progress
  imports Round_State Safety_Service
begin

text \<open>
  What moves a round forward: the properties of \<open>Pending_Votes\<close> and \<open>Round_State\<close>, with the sample
  validators of \<open>Safety_Rules\<close> as witnesses. The votes may arrive in any order and with any others
  in between, duplicates and equivocations of validators outside the quorum included; nothing is
  assumed of the network beyond their arrival.
\<close>

section \<open>Sample votes\<close>

definition sample_timeout_vote :: "author \<Rightarrow> vote" where
  "sample_timeout_vote a =
     add_2chain_timeout sample_timeout (sample_sign a (msg_timeout (signing_format sample_timeout)))
       (sample_vote a sample_genesis_qc)"

definition sample_li :: ledger_info where
  "sample_li =
     \<lparr>commit_info = certified_block sample_genesis_qc,
      consensus_data_hash = sample_hash (msg_vote_data (vote_data_ordering_only (sample_vote_proposal sample_genesis_qc)))\<rparr>"

definition sample_round :: round_state where
  "sample_round = (round_state_new (\<lambda>_. 1000) 0)\<lparr>current_round := 1\<rparr>"

lemma sample_aggregate_complete: "bls_aggregate_complete sample_crypto"
proof -
  have sum: "sum_list (map sample_scalar sigs) = sum_list (map (\<lambda>(m, pk). sample_scalar pk * sample_point m) mps)"
    if "list_all2 (\<lambda>sig (m, pk). sig = [sample_scalar pk * sample_point m]) sigs mps" for sigs mps
    using that by (induction rule: list_all2_induct) (auto simp: sample_scalar_def)
  have perm: "sum_list (map (\<lambda>(m, pk). sample_scalar pk * sample_point m) mps') =
      sum_list (map (\<lambda>(m, pk). sample_scalar pk * sample_point m) mps)" if "mset mps' = mset mps" for mps mps'
    using that by (simp flip: sum_mset_sum_list)
  have zip: "map (\<lambda>(pk, bs). sample_scalar pk * sample_point bs) (zip (map snd mps) (map fst mps)) =
      map (\<lambda>(m, pk). sample_scalar pk * sample_point m) mps" for mps :: "(u8 list \<times> u8 list) list"
    by (induction mps) auto
  show ?thesis
    unfolding bls_aggregate_complete_def
  proof (intro allI impI, elim conjE)
    fix sigs mps
    assume ne: "sigs \<noteq> []" and ver: "list_all2 (\<lambda>sig (m, pk). blst_verify sample_crypto sig m pk) sigs mps"
    then have "list_all2 (\<lambda>sig (m, pk). sig = [sample_scalar pk * sample_point m]) sigs mps"
      by (simp add: sample_crypto_def)
    then have eq: "sum_list (map sample_scalar sigs) = sum_list (map (\<lambda>(m, pk). sample_scalar pk * sample_point m) mps)"
      by (rule sum)
    have "blst_aggregate_sigs sample_crypto sigs = Some [sum_list (map sample_scalar sigs)]"
      using ne by (simp add: sample_crypto_def)
    moreover have "blst_aggregate_verify sample_crypto [sum_list (map sample_scalar sigs)] (map fst mps') (map snd mps')"
      if "mset mps' = mset mps" for mps'
      using perm [OF that] eq zip [of mps'] by (simp add: sample_crypto_def)
    ultimately show "\<exists>S. blst_aggregate_sigs sample_crypto sigs = Some S \<and>
        (\<forall>mps'. mset mps' = mset mps \<longrightarrow> blst_aggregate_verify sample_crypto S (map fst mps') (map snd mps'))"
      by blast
  qed
qed

lemma sample_vote_fields [simp]:
  "v_author (sample_vote a qc) = a" "v_author (sample_timeout_vote a) = a"
  "v_ledger_info (sample_timeout_vote a) = sample_li" "v_ledger_info (sample_vote a sample_genesis_qc) = sample_li"
  "v_epoch (sample_timeout_vote a) = 1" "v_round (sample_timeout_vote a) = 1" "is_timeout (sample_timeout_vote a)"
  using sample_vote_simps [of a sample_genesis_qc]
  by (simp_all add: sample_timeout_vote_def add_2chain_timeout_def is_timeout_def v_epoch_def v_round_def)
    (simp_all add: sample_vote_def Let_def vote_new_with_signature_def sample_li_def)

lemma sample_vote_verifies:
  assumes "a \<in> {1, 2, 3, 4}"
  shows "vote_verify sample_crypto (sample_vote a sample_genesis_qc) sample_verifier = Ok ()"
    and "vote_verify sample_crypto (sample_timeout_vote a) sample_verifier = Ok ()"
proof -
  let ?v = "sample_vote a sample_genesis_qc"
  have "bi_timestamp_usecs (certified_block sample_genesis_qc) = 0"
    by (simp add: sample_genesis_qc_def certified_block_def sample_genesis_info_def block_info_empty_def Let_def)
  then have data: "vote_data_verify (v_vote_data ?v) = Ok ()"
    by (simp add: vote_data_verify_def ensure_def) (simp add: sample_vote_def Let_def vote_new_with_signature_def
        vote_data_ordering_only_def gen_block_info_def)
  have sig: "verifier_verify sample_crypto sample_verifier a (msg_ledger_info (v_ledger_info ?v)) (v_signature ?v) = Ok ()"
    "consensus_data_hash (v_ledger_info ?v) = sample_hash (msg_vote_data (v_vote_data ?v))" "v_two_chain_timeout ?v = None"
    using sample_signature_verifies [OF assms]
    by (simp_all add: sample_li_def) (simp_all add: sample_vote_def Let_def vote_new_with_signature_def sample_sign_def)
  show "vote_verify sample_crypto ?v sample_verifier = Ok ()"
    using sig data by (simp add: vote_verify_def ensure_def)
  have "timeout_verify sample_crypto sample_timeout sample_verifier = Ok ()"
    by (simp add: timeout_verify_def ensure_def hqc_round_def sample_timeout_def)
  moreover have "v_vote_data (sample_timeout_vote a) = v_vote_data ?v" "v_signature (sample_timeout_vote a) = v_signature ?v"
    "v_two_chain_timeout (sample_timeout_vote a) =
       Some (sample_timeout, sample_sign a (msg_timeout (signing_format sample_timeout)))"
    "to_epoch sample_timeout = 1" "to_round sample_timeout = 1"
    by (simp_all add: sample_timeout_vote_def add_2chain_timeout_def sample_timeout_def)
  moreover have "verifier_verify sample_crypto sample_verifier a (msg_timeout (signing_format sample_timeout))
      (sample_sign a (msg_timeout (signing_format sample_timeout))) = Ok ()"
    using sample_signature_verifies [OF assms] by (simp add: sample_sign_def)
  ultimately show "vote_verify sample_crypto (sample_timeout_vote a) sample_verifier = Ok ()"
    using sig data by (simp add: vote_verify_def ensure_def)
qed

lemma sample_quorum: "is_quorum sample_verifier {1, 2, 3}"
proof -
  have power: "vv_power sample_verifier 1 = 1" "vv_power sample_verifier 2 = 1" "vv_power sample_verifier 3 = 1"
    "vv_quorum sample_verifier = 3"
    by code_simp+
  have "{1, 2, 3} \<subseteq> vv_members sample_verifier" by code_simp
  then show ?thesis by (simp add: is_quorum_def power)
qed

section \<open>Properties\<close>

lemma vote_env_of_quorum:
  assumes "wf_verifier vv" "bls_multisig_complete c" "bls_aggregate_complete c" "is_quorum vv S"
    and "inj_on (\<lambda>li. message_hash c (msg_ledger_info li)) L"
  shows "vote_env c vv L"
proof -
  have "vv_quorum vv \<le> sum (vv_power vv) S" "S \<subseteq> vv_members vv" using assms(4) by (simp_all add: is_quorum_def)
  moreover have "sum (vv_power vv) S \<le> sum (vv_power vv) (vv_members vv)"
    using calculation(2) vq.finite_members [OF assms(1)] by (intro sum_mono2) auto
  ultimately show ?thesis using assms by (simp add: vote_env_def sum_vv_power_members)
qed

text \<open>
  C6. Votes for one block certify it. Take a round that has just started and a list of verified votes of that round
  and epoch, inserted in any order, whose ledger infos do not collide under the hash. If the list has a vote of each
  member of a quorum, and no member of that quorum votes for another ledger info in the list than the common one,
  then one of the insertions has returned a quorum certificate on that ledger info, and the certificate
  verifies. What the other voters vote for does not matter.
\<close>

theorem votes_of_quorum_certify:
  assumes wf: "wf_verifier vv" and bls: "bls_multisig_complete c" "bls_aggregate_complete c"
    and inj: "inj_on (\<lambda>li. message_hash c (msg_ledger_info li)) (v_ledger_info ` set vs)"
    and votes: "\<forall>v \<in> set vs. vote_verify c v vv = Ok () \<and> v_epoch v = epoch \<and> v_round v = current_round rs"
    and start: "rs_pending_votes rs = pending_votes_new"
    and S: "is_quorum vv S" "S \<subseteq> v_author ` set vs"
    and same: "\<forall>v \<in> set vs. v_author v \<in> S \<longrightarrow> v_ledger_info v = li"
  shows "\<exists>qc. Ok (NewQuorumCertificate qc) \<in> set (fst (rs_insert_votes c vv vs rs)) \<and>
    qc_verify c qc vv = Ok () \<and> lis_ledger_info (qc_signed_ledger_info qc) = li \<and>
    bi_epoch (certified_block qc) = epoch \<and> bi_round (certified_block qc) = current_round rs"
proof -
  let ?L = "v_ledger_info ` set vs" and ?xs = "fst (insert_votes c vv vs pending_votes_new)"
  have env: "vote_env c vv ?L" by (rule vote_env_of_quorum [OF wf bls S(1) inj])
  have checked: "\<forall>v \<in> set vs. checked_vote c vv epoch (current_round rs) ?L v"
    using votes by (auto simp: checked_vote_def)
  have results: "fst (rs_insert_votes c vv vs rs) = ?xs"
    using votes start by (simp add: rs_insert_votes_eq split: prod.split)
  obtain v where v: "v \<in> set vs" "v_author v \<in> S"
    using S quorum_nonempty [OF wf] by (metis ex_in_conv imageE subsetD)
  then obtain d where d: "message_hash c (msg_ledger_info li) = Some d"
    using pv_insert_vote_step [OF env _ votes_inv_new timeouts_inv_new, of epoch "current_round rs" v] checked same by metis
  have "\<exists>qc. Ok (NewQuorumCertificate qc) \<in> set ?xs \<and> lis_ledger_info (qc_signed_ledger_info qc) = li"
    using S quorum_nonempty [OF wf]
    by (intro insert_votes_quorum_cert [OF env S(1) d checked same votes_inv_new timeouts_inv_new])
      (auto simp: all_voters_def pending_votes_new_def bt.keys_empty)
  then obtain qc where qc: "Ok (NewQuorumCertificate qc) \<in> set ?xs" "lis_ledger_info (qc_signed_ledger_info qc) = li"
    by blast
  then have "sound_result c vv epoch (current_round rs) (NewQuorumCertificate qc)"
    using insert_votes_sound [OF env checked votes_inv_new timeouts_inv_new] by (metis result.inject(1))
  then show ?thesis using qc unfolding results by auto
qed

theorem votes_of_quorum_certify_witness:
  "\<exists>qc. Ok (NewQuorumCertificate qc) \<in>
      set (fst (rs_insert_votes sample_crypto sample_verifier
        (map (\<lambda>a. sample_vote a sample_genesis_qc) [3, 1, 1, 2]) sample_round)) \<and>
    qc_verify sample_crypto qc sample_verifier = Ok () \<and>
    lis_ledger_info (qc_signed_ledger_info qc) = sample_li \<and>
    bi_epoch (certified_block qc) = 1 \<and> bi_round (certified_block qc) = current_round sample_round"
proof (rule votes_of_quorum_certify [OF wf_sample_verifier sample_multisig_complete sample_aggregate_complete _ _ _ sample_quorum])
  show "\<forall>v \<in> set (map (\<lambda>a. sample_vote a sample_genesis_qc) [3, 1, 1, 2]).
      vote_verify sample_crypto v sample_verifier = Ok () \<and> v_epoch v = 1 \<and> v_round v = current_round sample_round"
    using sample_vote_verifies(1) by (simp add: sample_round_def)
qed (auto simp: sample_round_def round_state_new_def)

text \<open>
  C7. Timeouts end a round. In a round that has just started, once a quorum of validators, none of
  which votes for two ledger infos, has sent verified timeout votes, in any order and among any
  other verified votes of the round, one of the insertions has returned a quorum certificate or a
  timeout certificate of the round, the certificate verifies, and handing it over with a sync info
  (as its highest quorum certificate or its timeout certificate) starts a later round.
\<close>

theorem timeouts_of_quorum_end_round:
  assumes wf: "wf_verifier vv" and bls: "bls_multisig_complete c" "bls_aggregate_complete c"
    and inj: "inj_on (\<lambda>li. message_hash c (msg_ledger_info li)) (v_ledger_info ` set vs)"
    and votes: "\<forall>v \<in> set vs. vote_verify c v vv = Ok () \<and> v_epoch v = epoch \<and> v_round v = current_round rs"
    and start: "rs_pending_votes rs = pending_votes_new"
    and S: "is_quorum vv S" "S \<subseteq> v_author ` {v \<in> set vs. is_timeout v}"
    and same: "\<forall>v \<in> set vs. \<forall>w \<in> set vs. v_author v \<in> S \<and> v_author w = v_author v \<longrightarrow> v_ledger_info w = v_ledger_info v"
    and run: "rs_insert_votes c vv vs rs = (xs, rs')"
  shows "(\<exists>qc. Ok (NewQuorumCertificate qc) \<in> set xs \<and> qc_verify c qc vv = Ok () \<and>
      (\<forall>now si. timers_fit now rs' si \<and> highest_quorum_cert si = qc \<longrightarrow>
        (\<exists>e rs''. process_certificates now si rs' = (Ok (Some e) :: (_, unit) result, rs'') \<and>
          nre_round e = current_round rs'' \<and> current_round rs < current_round rs''))) \<or>
    (\<exists>tc. Ok (New2ChainTimeoutCertificate tc) \<in> set xs \<and> tc_verify c tc vv = Ok () \<and>
      (\<forall>now si. timers_fit now rs' si \<and> highest_2chain_timeout_cert si = Some tc \<longrightarrow>
        (\<exists>e rs''. process_certificates now si rs' = (Ok (Some e) :: (_, unit) result, rs'') \<and>
          nre_round e = current_round rs'' \<and> current_round rs < current_round rs'')))"
proof -
  let ?L = "v_ledger_info ` set vs"
  have env: "vote_env c vv ?L" by (rule vote_env_of_quorum [OF wf bls S(1) inj])
  have checked: "\<forall>v \<in> set vs. checked_vote c vv epoch (current_round rs) ?L v"
    using votes by (auto simp: checked_vote_def)
  have results: "fst (insert_votes c vv vs pending_votes_new) = xs" and cur: "current_round rs' = current_round rs"
    using run votes start by (auto simp: rs_insert_votes_eq split: prod.splits)
  define lf where "lf a = v_ledger_info (SOME v. v \<in> set vs \<and> v_author v = a)" for a
  have lf: "v_ledger_info v = lf (v_author v)" if "v \<in> set vs" "v_author v \<in> S" for v
    using someI [of "\<lambda>w. w \<in> set vs \<and> v_author w = v_author v" v] that same unfolding lf_def by metis
  have cert: "(\<exists>qc. Ok (NewQuorumCertificate qc) \<in> set xs) \<or> (\<exists>tc. Ok (New2ChainTimeoutCertificate tc) \<in> set xs)"
    unfolding results [symmetric] using S quorum_nonempty [OF wf] lf
    by (intro insert_votes_timeout_cert [OF env S(1) checked _ votes_inv_new timeouts_inv_new, where lf = lf])
      (auto simp: stored_for_def timeout_voters_def pending_votes_new_def bt.get_empty)
  have sound: "sound_result c vv epoch (current_round rs) res" if "Ok res \<in> set xs" for res
    using insert_votes_sound [OF env checked votes_inv_new timeouts_inv_new] that unfolding results
    by (metis result.inject(1))
  have next_round: "\<exists>e rs''. process_certificates now si rs' = (Ok (Some e) :: (_, unit) result, rs'') \<and>
      nre_round e = current_round rs'' \<and> current_round rs < current_round rs''"
    if "timers_fit now rs' si" "current_round rs \<le> highest_round si" for now si
    using process_certificates_progress [of now rs' si, where 'e = unit] that unfolding cur by metis
  show ?thesis
    using cert
  proof (elim disjE exE)
    fix qc assume qc: "Ok (NewQuorumCertificate qc) \<in> set xs"
    have "current_round rs \<le> highest_round si" if "highest_quorum_cert si = qc" for si
      using sound [OF qc] that by (simp add: highest_round_def highest_certified_round_def)
    then have "\<forall>now si. timers_fit now rs' si \<and> highest_quorum_cert si = qc \<longrightarrow>
        (\<exists>e rs''. process_certificates now si rs' = (Ok (Some e) :: (_, unit) result, rs'') \<and>
          nre_round e = current_round rs'' \<and> current_round rs < current_round rs'')"
      using next_round by blast
    moreover have "qc_verify c qc vv = Ok ()" using sound [OF qc] by simp
    ultimately show ?thesis using qc by blast
  next
    fix tc assume tc: "Ok (New2ChainTimeoutCertificate tc) \<in> set xs"
    have "current_round rs \<le> highest_round si" if "highest_2chain_timeout_cert si = Some tc" for si
      using sound [OF tc] that by (simp add: highest_round_def highest_timeout_round_def)
    then have "\<forall>now si. timers_fit now rs' si \<and> highest_2chain_timeout_cert si = Some tc \<longrightarrow>
        (\<exists>e rs''. process_certificates now si rs' = (Ok (Some e) :: (_, unit) result, rs'') \<and>
          nre_round e = current_round rs'' \<and> current_round rs < current_round rs'')"
      using next_round by blast
    moreover have "tc_verify c tc vv = Ok ()" using sound [OF tc] by simp
    ultimately show ?thesis using tc by blast
  qed
qed

theorem timeouts_of_quorum_end_round_witness:
  "let (xs, rs') = rs_insert_votes sample_crypto sample_verifier (map sample_timeout_vote [3, 1, 1, 2]) sample_round in
   (\<exists>qc. Ok (NewQuorumCertificate qc) \<in> set xs \<and> qc_verify sample_crypto qc sample_verifier = Ok ()) \<or>
   (\<exists>tc. Ok (New2ChainTimeoutCertificate tc) \<in> set xs \<and> tc_verify sample_crypto tc sample_verifier = Ok ())"
proof -
  let ?vs = "map sample_timeout_vote [3, 1, 1, 2]"
  obtain xs rs' where run: "rs_insert_votes sample_crypto sample_verifier ?vs sample_round = (xs, rs')" by fastforce
  have "\<forall>v \<in> set ?vs. vote_verify sample_crypto v sample_verifier = Ok () \<and> v_epoch v = 1 \<and>
      v_round v = current_round sample_round"
    using sample_vote_verifies(2) by (simp add: sample_round_def)
  moreover have "{1, 2, 3} \<subseteq> v_author ` {v \<in> set ?vs. is_timeout v}"
  proof -
    have "a = v_author (sample_timeout_vote a) \<and> is_timeout (sample_timeout_vote a)" for a by simp
    then show ?thesis by (force simp: image_iff)
  qed
  moreover have "rs_pending_votes sample_round = pending_votes_new" by (simp add: sample_round_def round_state_new_def)
  ultimately have "(\<exists>qc. Ok (NewQuorumCertificate qc) \<in> set xs \<and> qc_verify sample_crypto qc sample_verifier = Ok ()) \<or>
      (\<exists>tc. Ok (New2ChainTimeoutCertificate tc) \<in> set xs \<and> tc_verify sample_crypto tc sample_verifier = Ok ())"
    using timeouts_of_quorum_end_round [OF wf_sample_verifier sample_multisig_complete sample_aggregate_complete,
        of ?vs 1 sample_round "{1, 2, 3}" xs rs'] run sample_quorum
    by (auto simp: inj_on_def)
  then show ?thesis unfolding run by simp
qed

text \<open>
  C8. Rounds only advance. Whatever a validator does with its round state, certificates, local
  timeouts, the leader's timer, votes received and its own votes in any order, the new round events it
  emits are strictly increasing, the current round is the highest round certified so far plus one, and
  the collected votes, the recorded own vote and the one armed timer all belong to the current round.
\<close>

theorem rounds_only_advance:
  assumes "round_run c vv cmds (round_state_new interval now) = (Ok evs, rs)"
  shows "sorted_wrt (<) (map nre_round evs) \<and> (evs \<noteq> [] \<longrightarrow> current_round rs = nre_round (last evs)) \<and>
    current_round rs = foldl max 0 (map command_round cmds) \<and>
    (\<forall>a v d. bt_get (author_to_vote (rs_pending_votes rs)) a = Some (v, d) \<longrightarrow> v_round v = current_round rs) \<and>
    (\<forall>v. vote_sent rs = Some v \<longrightarrow> v_round v = current_round rs) \<and>
    (\<forall>t r. abort_handle rs = Some (t, r) \<longrightarrow> r = current_round rs)"
  using round_run_inv [OF assms round_inv_init] unfolding round_inv_def votes_of_round_def
  by (auto simp: round_state_new_def last_map)

definition sample_sync_info :: sync_info where
  "sample_sync_info = sync_info_new sample_genesis_qc sample_genesis_qc None"

lemma sample_round_run:
  "\<exists>evs rs. round_run sample_crypto sample_verifier [Certificates 5 sample_sync_info, Certificates 6 sample_sync_info]
     (round_state_new (\<lambda>_. 1000) 0) = (Ok evs, rs) \<and> map nre_round evs = [1]"
proof -
  let ?rs = "round_state_new (\<lambda>_. 1000) 0"
  have si: "highest_round sample_sync_info = 0" "highest_ordered_round sample_sync_info = 0"
    by (simp_all add: sample_sync_info_def sync_info_new_def sync_info_new_decoupled_def highest_round_def
        highest_certified_round_def highest_timeout_round_def highest_ordered_round_def highest_ordered_cert_def)
      (simp add: sample_genesis_qc_def qc_commit_info_def sample_genesis_info_def block_info_empty_def Let_def)
  have fit: "timers_fit 5 ?rs sample_sync_info"
    by (simp add: timers_fit_def round_state_new_def si duration_limit_def)
  obtain e rs1 where first: "process_certificates 5 sample_sync_info ?rs = (Ok (Some e) :: (_, unit) result, rs1)"
    and rs1: "nre_round e = 1" "current_round rs1 = 1"
    using process_certificates_progress [OF fit, where 'e = unit] by (auto simp: si round_state_new_def)
  have "process_certificates 6 sample_sync_info rs1 =
      (Ok None :: (_, unit) result, update_committed_round sample_sync_info rs1)"
    using rs1 by (simp add: process_certificates_def bind_lift bind_modify si plus_or_panic_def checked_add_def expect_def
        return_h_def) (simp add: update_committed_round_def si)
  then show ?thesis using first rs1(1) by (simp add: bind_h_def return_h_def)
qed

theorem rounds_only_advance_witness:
  "\<exists>evs rs. round_run sample_crypto sample_verifier [Certificates 5 sample_sync_info, Certificates 6 sample_sync_info]
     (round_state_new (\<lambda>_. 1000) 0) = (Ok evs, rs) \<and> map nre_round evs = [1] \<and>
     current_round rs = nre_round (last evs)"
proof -
  from sample_round_run show ?thesis
  proof (elim exE conjE)
    fix evs rs
    assume run: "round_run sample_crypto sample_verifier
        [Certificates 5 sample_sync_info, Certificates 6 sample_sync_info] (round_state_new (\<lambda>_. 1000) 0) = (Ok evs, rs)"
      and evs: "map nre_round evs = [1]"
    then show ?thesis using rounds_only_advance [OF run] by auto
  qed
qed

end
