(* ===== verification/Block_Tree.thy ===== *)
theory Block_Tree
  imports Consensus_Msgs
begin

text \<open>
  The tree of pending blocks, \<^verbatim>\<open>consensus/src/block_storage/block_tree.rs\<close>: insertion of blocks and
  certificates, the paths from its two roots, and the pruning of a commit. Two of its methods loop
  over the links of the tree; they are partial functions whose value \<open>None\<close> is a loop that does not
  return, and the lemmas show that on every tree the operations build they do return.

  The execution result of a block is only stored and compared, it is the type parameter \<open>'r\<close>. A hash
  set is iterated in an order that is a parameter (\<open>order\<close>, any permutation of the elements).
\<close>

section \<open>Blocks and links\<close>

record 'r executed_block =
  eb_block :: block
  eb_state_compute_result :: 'r

definition eb_id :: "'r executed_block \<Rightarrow> hash_value" where
  "eb_id b = b_id (eb_block b)"

definition eb_parent_id :: "'r executed_block \<Rightarrow> hash_value" where
  "eb_parent_id b = bi_id (certified_block (b_quorum_cert (eb_block b)))"

definition eb_round :: "'r executed_block \<Rightarrow> round" where
  "eb_round b = b_round (eb_block b)"

record 'r linkable_block =
  lb_executed_block :: "'r executed_block"
  lb_children :: "hash_value list"

definition linkable_block_new :: "'r executed_block \<Rightarrow> 'r linkable_block" where
  "linkable_block_new b = \<lparr>lb_executed_block = b, lb_children = []\<rparr>"

definition lb_id :: "'r linkable_block \<Rightarrow> hash_value" where
  "lb_id lb = eb_id (lb_executed_block lb)"

definition add_child :: "hash_value \<Rightarrow> 'r linkable_block \<Rightarrow> ('r linkable_block, 'e) result" where
  "add_child child_id lb =
     and_then (rust_assert (child_id \<notin> set (lb_children lb))) (\<lambda>_.
     Ok (lb\<lparr>lb_children := lb_children lb @ [child_id]\<rparr>))"

record 'r block_tree =
  id_to_block :: "(hash_value, 'r linkable_block) btree_map"
  ordered_root_id :: hash_value
  commit_root_id :: hash_value
  highest_certified_block_id :: hash_value
  tree_highest_quorum_cert :: quorum_cert
  tree_highest_2chain_timeout_cert :: "two_chain_timeout_certificate option"
  tree_highest_ordered_cert :: quorum_cert
  tree_highest_commit_cert :: quorum_cert
  id_to_quorum_cert :: "(hash_value, quorum_cert) btree_map"
  pruned_block_ids :: "hash_value list"
  max_pruned_blocks_in_mem :: nat

definition block_tree_new ::
  "'r executed_block \<Rightarrow> quorum_cert \<Rightarrow> quorum_cert \<Rightarrow> quorum_cert \<Rightarrow> nat \<Rightarrow>
   two_chain_timeout_certificate option \<Rightarrow> ('r block_tree, 'e) result" where
  "block_tree_new root root_quorum_cert root_ordered_cert root_commit_cert max_pruned tc =
     and_then (rust_assert (eb_id root = bi_id (qc_commit_info root_ordered_cert))) (\<lambda>_.
     let root_id = eb_id root in
     Ok \<lparr>id_to_block = bt_insert root_id (linkable_block_new root) bt_empty,
         ordered_root_id = root_id, commit_root_id = root_id, highest_certified_block_id = root_id,
         tree_highest_quorum_cert = root_quorum_cert, tree_highest_2chain_timeout_cert = tc,
         tree_highest_ordered_cert = root_ordered_cert, tree_highest_commit_cert = root_commit_cert,
         id_to_quorum_cert = bt_insert (bi_id (certified_block root_quorum_cert)) root_quorum_cert bt_empty,
         pruned_block_ids = [], max_pruned_blocks_in_mem = max_pruned\<rparr>)"

section \<open>Queries\<close>

definition get_linkable_block :: "'r block_tree \<Rightarrow> hash_value \<Rightarrow> 'r linkable_block option" where
  "get_linkable_block t block_id = bt_get (id_to_block t) block_id"

definition get_all_quorum_certs_with_commit_info :: "'r block_tree \<Rightarrow> quorum_cert list" where
  "get_all_quorum_certs_with_commit_info t =
     filter (\<lambda>qc. qc_commit_info qc \<noteq> block_info_empty) (bt_values (id_to_quorum_cert t))"

definition linkable_root :: "'r block_tree \<Rightarrow> ('r linkable_block, 'e) result" where
  "linkable_root t = expect (get_linkable_block t (commit_root_id t))"

definition block_exists :: "'r block_tree \<Rightarrow> hash_value \<Rightarrow> bool" where
  "block_exists t block_id \<longleftrightarrow> bt_get (id_to_block t) block_id \<noteq> None"

definition get_block :: "'r block_tree \<Rightarrow> hash_value \<Rightarrow> 'r executed_block option" where
  "get_block t block_id = map_option lb_executed_block (get_linkable_block t block_id)"

definition ordered_root :: "'r block_tree \<Rightarrow> ('r executed_block, 'e) result" where
  "ordered_root t = expect (get_block t (ordered_root_id t))"

definition commit_root :: "'r block_tree \<Rightarrow> ('r executed_block, 'e) result" where
  "commit_root t = expect (get_block t (commit_root_id t))"

definition highest_certified_block :: "'r block_tree \<Rightarrow> ('r executed_block, 'e) result" where
  "highest_certified_block t = expect (get_block t (highest_certified_block_id t))"

definition get_quorum_cert_for_block :: "'r block_tree \<Rightarrow> hash_value \<Rightarrow> quorum_cert option" where
  "get_quorum_cert_for_block t block_id = bt_get (id_to_quorum_cert t) block_id"

section \<open>Insertion\<close>

definition replace_2chain_timeout_cert :: "two_chain_timeout_certificate \<Rightarrow> 'r block_tree \<Rightarrow> 'r block_tree" where
  "replace_2chain_timeout_cert tc t = t\<lparr>tree_highest_2chain_timeout_cert := Some tc\<rparr>"

text \<open>
  \<^verbatim>\<open>insert_block\<close>. The macro \<^verbatim>\<open>checked_verify_eq!\<close> of the MIRAI annotations is an assertion at run time,
  \<^verbatim>\<open>precondition!\<close> in \<^verbatim>\<open>insert_quorum_cert\<close> is only read by the MIRAI analyser.
\<close>

definition insert_block :: "'r executed_block \<Rightarrow> ('r block_tree, 'r executed_block, anyhow) handler" where
  "insert_block b t =
     (let block_id = eb_id b in
      case get_block t block_id of
        Some existing_block \<Rightarrow>
          if eb_state_compute_result existing_block = eb_state_compute_result b
          then (Ok existing_block, t) else (Panic, t)
      | None \<Rightarrow>
          (case get_linkable_block t (eb_parent_id b) of
             None \<Rightarrow> (Err (Anyhow ''Parent block not found''), t)
           | Some parent_link \<Rightarrow>
               (case add_child block_id parent_link of
                  Ok parent_link' \<Rightarrow>
                    let t' = t\<lparr>id_to_block := bt_insert (eb_parent_id b) parent_link' (id_to_block t)\<rparr> in
                    if bt_get (id_to_block t') block_id = None
                    then (Ok b, t'\<lparr>id_to_block := bt_insert block_id (linkable_block_new b) (id_to_block t')\<rparr>)
                    else (Panic, t'\<lparr>id_to_block := bt_insert block_id (linkable_block_new b) (id_to_block t')\<rparr>)
                | Err e \<Rightarrow> (Err e, t)
                | Panic \<Rightarrow> (Panic, t))))"

definition insert_quorum_cert :: "quorum_cert \<Rightarrow> ('r block_tree, unit, anyhow) handler" where
  "insert_quorum_cert qc =
     bind_h (lift_h (\<lambda>t. ok_or (get_block t (bi_id (certified_block qc))) (Anyhow ''Block not found''))) (\<lambda>block.
     bind_h (lift_h highest_certified_block) (\<lambda>highest.
     bind_h (modify_h (\<lambda>t. if eb_round block > eb_round highest
       then t\<lparr>highest_certified_block_id := eb_id block, tree_highest_quorum_cert := qc\<rparr> else t)) (\<lambda>_.
     bind_h (modify_h (\<lambda>t. t\<lparr>id_to_quorum_cert :=
       bt_or_insert (bi_id (certified_block qc)) qc (id_to_quorum_cert t)\<rparr>)) (\<lambda>_.
     modify_h (\<lambda>t. if bi_round (qc_commit_info (tree_highest_ordered_cert t)) < bi_round (qc_commit_info qc)
       then t\<lparr>tree_highest_ordered_cert := qc\<rparr> else t)))))"

section \<open>Pruning\<close>

text \<open>The loop of \<^verbatim>\<open>find_blocks_to_prune\<close>; the head of the list is the end of the vector.\<close>

definition push_children ::
  "(hash_value list \<Rightarrow> hash_value list) \<Rightarrow> 'r block_tree \<Rightarrow> hash_value \<Rightarrow> 'r linkable_block \<Rightarrow>
   'r linkable_block list \<Rightarrow> ('r linkable_block list, 'e) result" where
  "push_children order t next_root_id block_to_remove blocks_to_be_pruned =
     for_each (\<lambda>stack child_id.
         if next_root_id = child_id then Ok stack
         else and_then (expect (get_linkable_block t child_id)) (\<lambda>child. Ok (child # stack)))
       blocks_to_be_pruned (order (lb_children block_to_remove))"

partial_function (option) prune_loop ::
  "(hash_value list \<Rightarrow> hash_value list) \<Rightarrow> 'r block_tree \<Rightarrow> hash_value \<Rightarrow> 'r linkable_block list \<Rightarrow>
   hash_value list \<Rightarrow> (hash_value list, 'e) result option" where
  "prune_loop order t next_root_id blocks_to_be_pruned blocks_pruned =
     (case blocks_to_be_pruned of
        [] \<Rightarrow> Some (Ok blocks_pruned)
      | block_to_remove # rest \<Rightarrow>
          (case push_children order t next_root_id block_to_remove rest of
             Ok stack \<Rightarrow> prune_loop order t next_root_id stack (blocks_pruned @ [lb_id block_to_remove])
           | Err e \<Rightarrow> Some (Err e)
           | Panic \<Rightarrow> Some Panic))"

definition find_blocks_to_prune ::
  "(hash_value list \<Rightarrow> hash_value list) \<Rightarrow> 'r block_tree \<Rightarrow> hash_value \<Rightarrow> (hash_value list, 'e) result option" where
  "find_blocks_to_prune order t next_root_id =
     (if next_root_id = commit_root_id t then Some (Ok [])
      else case linkable_root t of
             Ok root \<Rightarrow> prune_loop order t next_root_id [root] []
           | Err e \<Rightarrow> Some (Err e)
           | Panic \<Rightarrow> Some Panic)"

definition remove_block :: "hash_value \<Rightarrow> 'r block_tree \<Rightarrow> 'r block_tree" where
  "remove_block block_id t =
     t\<lparr>id_to_block := bt_remove block_id (id_to_block t),
       id_to_quorum_cert := bt_remove block_id (id_to_quorum_cert t)\<rparr>"

text \<open>The loop of \<^verbatim>\<open>process_pruned_blocks\<close> pops the front of the deque as often as there are surplus blocks.\<close>

fun pop_and_remove :: "nat \<Rightarrow> 'r block_tree \<Rightarrow> 'r block_tree" where
  "pop_and_remove 0 t = t"
| "pop_and_remove (Suc n) t =
     pop_and_remove n
       (case pruned_block_ids t of
          [] \<Rightarrow> t
        | block_id # rest \<Rightarrow> remove_block block_id (t\<lparr>pruned_block_ids := rest\<rparr>))"

definition process_pruned_blocks :: "hash_value list \<Rightarrow> 'r block_tree \<Rightarrow> 'r block_tree" where
  "process_pruned_blocks newly_pruned_blocks t =
     (let t' = t\<lparr>pruned_block_ids := pruned_block_ids t @ newly_pruned_blocks\<rparr> in
      if length (pruned_block_ids t') > max_pruned_blocks_in_mem t'
      then pop_and_remove (length (pruned_block_ids t') - max_pruned_blocks_in_mem t') t'
      else t')"

definition update_ordered_root :: "hash_value \<Rightarrow> ('r block_tree, unit, 'e) handler" where
  "update_ordered_root root_id =
     bind_h (lift_h (\<lambda>t. rust_assert (block_exists t root_id))) (\<lambda>_.
     modify_h (\<lambda>t. t\<lparr>ordered_root_id := root_id\<rparr>))"

definition update_commit_root :: "hash_value \<Rightarrow> ('r block_tree, unit, 'e) handler" where
  "update_commit_root root_id =
     bind_h (lift_h (\<lambda>t. rust_assert (block_exists t root_id))) (\<lambda>_.
     modify_h (\<lambda>t. t\<lparr>commit_root_id := root_id\<rparr>))"

definition update_highest_commit_cert :: "quorum_cert \<Rightarrow> ('r block_tree, unit, 'e) handler" where
  "update_highest_commit_cert new_commit_cert t =
     (if bi_round (qc_commit_info new_commit_cert) > bi_round (qc_commit_info (tree_highest_commit_cert t))
      then bind_h (modify_h (\<lambda>t. t\<lparr>tree_highest_commit_cert := new_commit_cert\<rparr>)) (\<lambda>_.
             update_commit_root (bi_id (qc_commit_info new_commit_cert))) t
      else (Ok (), t))"

text \<open>
  \<^verbatim>\<open>commit_callback\<close> returns the ids it hands to the persistent storage for deletion (whose outcome it
  ignores); \<open>None\<close> if the search for them does not return.
\<close>

definition commit_callback ::
  "(hash_value list \<Rightarrow> hash_value list) \<Rightarrow> 'r executed_block list \<Rightarrow> quorum_cert \<Rightarrow> ledger_info_with_signatures \<Rightarrow>
   'r block_tree \<Rightarrow> ((hash_value list, 'e) result \<times> 'r block_tree) option" where
  "commit_callback order blocks_to_commit finality_proof commit_decision t =
     (case create_merged_with_executed_state finality_proof commit_decision of
        Ok commit_proof \<Rightarrow>
          (case (blocks_to_commit, commit_root t :: ('r executed_block, 'e) result) of
             (_ # _, Ok _) \<Rightarrow>
               (case find_blocks_to_prune order t (eb_id (last blocks_to_commit)) of
                  None \<Rightarrow> None
                | Some (Ok id_to_remove) \<Rightarrow>
                    Some (bind_h (update_highest_commit_cert commit_proof) (\<lambda>_. return_h id_to_remove)
                      (process_pruned_blocks id_to_remove t))
                | Some (Err e) \<Rightarrow> Some (Err e, t)
                | Some Panic \<Rightarrow> Some (Panic, t))
           | _ \<Rightarrow> Some (Panic, t))
      | _ \<Rightarrow> Some (Panic, t))"

section \<open>Paths\<close>

text \<open>The loop of \<^verbatim>\<open>path_from_root_to_block\<close>: a block that is missing, or the block it stopped at and the blocks passed.\<close>

partial_function (option) path_loop ::
  "'r block_tree \<Rightarrow> round \<Rightarrow> hash_value \<Rightarrow> 'r executed_block list \<Rightarrow> (hash_value \<times> 'r executed_block list) option option" where
  "path_loop t root_round cur_block_id res =
     (case get_block t cur_block_id of
        None \<Rightarrow> Some None
      | Some block \<Rightarrow>
          if eb_round block \<le> root_round then Some (Some (cur_block_id, res))
          else path_loop t root_round (eb_parent_id block) (res @ [block]))"

definition path_from_root_to_block ::
  "'r block_tree \<Rightarrow> hash_value \<Rightarrow> hash_value \<Rightarrow> round \<Rightarrow> 'r executed_block list option option" where
  "path_from_root_to_block t block_id root_id root_round =
     map_option (\<lambda>r. case r of
         None \<Rightarrow> None
       | Some (cur_block_id, res) \<Rightarrow> if cur_block_id \<noteq> root_id then None else Some (rev res))
       (path_loop t root_round block_id [])"

definition path_from_ordered_root ::
  "'r block_tree \<Rightarrow> hash_value \<Rightarrow> ('r executed_block list option, 'e) result option" where
  "path_from_ordered_root t block_id =
     (case ordered_root t of
        Ok root \<Rightarrow> map_option Ok (path_from_root_to_block t block_id (ordered_root_id t) (eb_round root))
      | Err e \<Rightarrow> Some (Err e)
      | Panic \<Rightarrow> Some Panic)"

definition path_from_commit_root ::
  "'r block_tree \<Rightarrow> hash_value \<Rightarrow> ('r executed_block list option, 'e) result option" where
  "path_from_commit_root t block_id =
     (case commit_root t of
        Ok root \<Rightarrow> map_option Ok (path_from_root_to_block t block_id (commit_root_id t) (eb_round root))
      | Err e \<Rightarrow> Some (Err e)
      | Panic \<Rightarrow> Some Panic)"

section \<open>The links of a well-formed tree\<close>

text \<open>
  The blocks handed to the tree: the parent of a block has a smaller round, and the id, a hash of the
  block, determines the parent.
\<close>

definition block_family :: "'r executed_block set \<Rightarrow> bool" where
  "block_family B \<longleftrightarrow> (\<forall>b \<in> B. \<forall>c \<in> B.
     (eb_parent_id c = eb_id b \<longrightarrow> eb_round b < eb_round c) \<and>
     (eb_id c = eb_id b \<longrightarrow> eb_parent_id c = eb_parent_id b))"

definition tree_parent :: "'r block_tree \<Rightarrow> hash_value \<Rightarrow> hash_value option" where
  "tree_parent t x = map_option eb_parent_id (get_block t x)"

text \<open>Child links, followed only to blocks other than \<open>stop\<close>, and everything below a block.\<close>

definition child_links :: "'r block_tree \<Rightarrow> (hash_value \<times> hash_value) set" where
  "child_links t = {(p, c). \<exists>lb. get_linkable_block t p = Some lb \<and> c \<in> set (lb_children lb)}"

definition links_but :: "'r block_tree \<Rightarrow> hash_value \<Rightarrow> (hash_value \<times> hash_value) set" where
  "links_but t stop = {(p, c) \<in> child_links t. c \<noteq> stop}"

definition descendants :: "'r block_tree \<Rightarrow> hash_value \<Rightarrow> hash_value set" where
  "descendants t root_id = (child_links t)\<^sup>* `` {root_id}"

definition links_inv :: "'r executed_block set \<Rightarrow> 'r block_tree \<Rightarrow> bool" where
  "links_inv B t \<longleftrightarrow> block_family B \<and> bt_invar (id_to_block t) \<and>
     (\<forall>k lb. get_linkable_block t k = Some lb \<longrightarrow>
        lb_id lb = k \<and> lb_executed_block lb \<in> B \<and> distinct (lb_children lb)) \<and>
     (\<forall>p c. (p, c) \<in> child_links t \<longleftrightarrow> tree_parent t c = Some p \<and> block_exists t p)"

lemma block_exists_iff: "block_exists t x \<longleftrightarrow> get_block t x \<noteq> None"
  by (simp add: block_exists_def get_block_def get_linkable_block_def)

lemma get_block_linkable: "get_block t x = Some b \<longleftrightarrow> (\<exists>lb. get_linkable_block t x = Some lb \<and> lb_executed_block lb = b)"
  by (auto simp: get_block_def)

lemma links_inv_child: "links_inv B t \<Longrightarrow> (p, c) \<in> child_links t \<longleftrightarrow> tree_parent t c = Some p \<and> block_exists t p"
  by (simp add: links_inv_def)

lemma links_inv_blockD:
  assumes "links_inv B t" and "get_block t x = Some b"
  shows "eb_id b = x" and "b \<in> B" and "tree_parent t x = Some (eb_parent_id b)"
proof -
  obtain lb where "get_linkable_block t x = Some lb" "lb_executed_block lb = b"
    using assms(2) by (auto simp: get_block_linkable)
  then show "eb_id b = x" "b \<in> B" using assms(1) by (auto simp: links_inv_def lb_id_def)
  show "tree_parent t x = Some (eb_parent_id b)" by (simp add: tree_parent_def assms(2))
qed

lemma child_unique_parent:
  "links_inv B t \<Longrightarrow> (p, c) \<in> child_links t \<Longrightarrow> (q, c) \<in> child_links t \<Longrightarrow> p = q"
  by (simp add: links_inv_child)

definition tree_round :: "'r block_tree \<Rightarrow> hash_value \<Rightarrow> nat" where
  "tree_round t x = (case get_block t x of Some b \<Rightarrow> unat (eb_round b) | None \<Rightarrow> 0)"

lemma parent_round_less:
  assumes inv: "links_inv B t" and b: "get_block t x = Some b" and p: "get_block t (eb_parent_id b) = Some p"
  shows "eb_round p < eb_round b"
proof -
  have "block_family B" using inv by (simp add: links_inv_def)
  moreover have "eb_parent_id b = eb_id p" using links_inv_blockD(1) [OF inv p] by simp
  ultimately show ?thesis
    using links_inv_blockD(2) [OF inv b] links_inv_blockD(2) [OF inv p] unfolding block_family_def by blast
qed

lemma child_round_less:
  assumes inv: "links_inv B t" and e: "(p, c) \<in> child_links t"
  shows "tree_round t p < tree_round t c"
proof -
  obtain b where b: "get_block t c = Some b" "eb_parent_id b = p"
    using e by (auto simp: links_inv_child [OF inv] tree_parent_def)
  obtain q where q: "get_block t p = Some q"
    using e by (auto simp: links_inv_child [OF inv] block_exists_iff)
  have "eb_round q < eb_round b" using parent_round_less [OF inv b(1)] b(2) q by simp
  then show ?thesis using b(1) q by (simp add: tree_round_def word_less_nat_alt)
qed

lemma links_round_less:
  assumes "links_inv B t" and "(p, c) \<in> (child_links t)\<^sup>+"
  shows "tree_round t p < tree_round t c"
  using assms(2) by (induction rule: trancl_induct) (auto dest: child_round_less [OF assms(1)])

lemma descendants_antisym:
  assumes "links_inv B t" and "x \<in> descendants t y" and "y \<in> descendants t x"
  shows "x = y"
  using assms(2,3) links_round_less [OF assms(1), of x y] links_round_less [OF assms(1), of y x]
  by (auto simp: descendants_def rtrancl_eq_or_trancl)

lemma descendants_self [simp]: "x \<in> descendants t x"
  by (simp add: descendants_def)

lemma descendants_child: "y \<in> descendants t x \<Longrightarrow> (y, z) \<in> child_links t \<Longrightarrow> z \<in> descendants t x"
  by (auto simp: descendants_def intro: rtrancl_into_rtrancl)

lemma descendants_trans: "y \<in> descendants t x \<Longrightarrow> z \<in> descendants t y \<Longrightarrow> z \<in> descendants t x"
  by (auto simp: descendants_def)

lemma descendants_exist:
  assumes "links_inv B t" and "block_exists t r" and "x \<in> descendants t r"
  shows "block_exists t x"
proof -
  have "(r, x) \<in> (child_links t)\<^sup>*" using assms(3) by (simp add: descendants_def)
  then show ?thesis
    by (cases rule: rtranclE) (use assms(2) in \<open>auto simp: links_inv_child [OF assms(1)] tree_parent_def block_exists_iff\<close>)
qed

text \<open>Below a block, the way to any other block leads through its only parent.\<close>

lemma descendants_parent:
  assumes inv: "links_inv B t" and x: "x \<in> descendants t r" and ne: "x \<noteq> r" and e: "(p, x) \<in> child_links t"
  shows "p \<in> descendants t r"
proof -
  have "(r, x) \<in> (child_links t)\<^sup>*" using x by (simp add: descendants_def)
  then obtain q where "(r, q) \<in> (child_links t)\<^sup>*" "(q, x) \<in> child_links t"
    using ne by (cases rule: rtranclE) auto
  then show ?thesis using child_unique_parent [OF inv e] by (auto simp: descendants_def)
qed

lemma descendants_stepE:
  assumes "links_inv B t" and "x \<in> descendants t r" and "x \<noteq> r"
  obtains p where "(p, x) \<in> child_links t" and "p \<in> descendants t r" and "tree_parent t x = Some p"
proof -
  have "(r, x) \<in> (child_links t)\<^sup>*" using assms(2) by (simp add: descendants_def)
  then obtain p where "(r, p) \<in> (child_links t)\<^sup>*" "(p, x) \<in> child_links t"
    using assms(3) by (cases rule: rtranclE) auto
  then show ?thesis using that links_inv_child [OF assms(1)] by (auto simp: descendants_def)
qed

section \<open>The paths are found\<close>

text \<open>The loop returns: the rounds of the blocks it passes decrease.\<close>

lemma path_loop_returns:
  assumes inv: "links_inv B t"
  shows "\<exists>r. path_loop t rr x res = Some r"
proof (induction "tree_round t x" arbitrary: x res rule: less_induct)
  case less
  show ?case
  proof (cases "get_block t x")
    case None
    then show ?thesis by (subst path_loop.simps) simp
  next
    case (Some b)
    show ?thesis
    proof (cases "get_block t (eb_parent_id b)")
      case None
      then have "path_loop t rr (eb_parent_id b) (res @ [b]) = Some None" by (subst path_loop.simps) simp
      then show ?thesis by (subst path_loop.simps) (simp add: Some)
    next
      case (Some p)
      then have "tree_round t (eb_parent_id b) < tree_round t x"
        using parent_round_less [OF inv \<open>get_block t x = Some b\<close> Some] \<open>get_block t x = Some b\<close>
        by (simp add: tree_round_def word_less_nat_alt)
      then obtain r where "path_loop t rr (eb_parent_id b) (res @ [b]) = Some r" using less by blast
      then show ?thesis by (subst path_loop.simps) (simp add: \<open>get_block t x = Some b\<close>)
    qed
  qed
qed

text \<open>What it passes on the way up is a chain of blocks of the tree.\<close>

definition block_chain :: "'r block_tree \<Rightarrow> hash_value \<Rightarrow> 'r executed_block list \<Rightarrow> hash_value \<Rightarrow> bool" where
  "block_chain t root_id path block_id \<longleftrightarrow>
     map eb_parent_id path @ [block_id] = root_id # map eb_id path \<and>
     (\<forall>b \<in> set path. get_block t (eb_id b) = Some b)"

lemma block_chain_Nil [simp]: "block_chain t r [] x \<longleftrightarrow> x = r"
  by (simp add: block_chain_def)

lemma block_chain_Cons [simp]:
  "block_chain t r (b # path) x \<longleftrightarrow>
     eb_parent_id b = r \<and> get_block t (eb_id b) = Some b \<and> block_chain t (eb_id b) path x"
  by (auto simp: block_chain_def)

lemma block_chain_snoc:
  "block_chain t r (path @ [b]) x \<longleftrightarrow> block_chain t r path (eb_parent_id b) \<and> eb_id b = x \<and> get_block t x = Some b"
  by (auto simp: block_chain_def)

lemma path_loop_chain:
  assumes inv: "links_inv B t"
  shows "path_loop t rr x res = Some (Some (y, res')) \<Longrightarrow>
    \<exists>path. res' = res @ rev path \<and> block_chain t y path x \<and> (\<exists>b. get_block t y = Some b \<and> eb_round b \<le> rr)"
proof (induction "tree_round t x" arbitrary: x res rule: less_induct)
  case less
  show ?case
  proof (cases "get_block t x")
    case None
    then show ?thesis using less.prems by (subst (asm) path_loop.simps) simp
  next
    case (Some b)
    show ?thesis
    proof (cases "eb_round b \<le> rr")
      case True
      then have "y = x" "res' = res" using less.prems Some by (subst (asm) path_loop.simps, simp)+
      then show ?thesis using Some True by auto
    next
      case False
      then have loop: "path_loop t rr (eb_parent_id b) (res @ [b]) = Some (Some (y, res'))"
        using less.prems Some by (subst (asm) path_loop.simps) simp
      then obtain p where p: "get_block t (eb_parent_id b) = Some p"
        by (cases "get_block t (eb_parent_id b)") (subst (asm) path_loop.simps, simp_all)
      have "tree_round t (eb_parent_id b) < tree_round t x"
        using parent_round_less [OF inv Some p] Some p by (simp add: tree_round_def word_less_nat_alt)
      from less.hyps [OF this loop] obtain path where
        "res' = (res @ [b]) @ rev path" "block_chain t y path (eb_parent_id b)"
        "\<exists>b. get_block t y = Some b \<and> eb_round b \<le> rr" by blast
      then have "res' = res @ rev (path @ [b]) \<and> block_chain t y (path @ [b]) x"
        using Some links_inv_blockD(1) [OF inv Some] by (simp add: block_chain_snoc)
      then show ?thesis using \<open>\<exists>b. get_block t y = Some b \<and> eb_round b \<le> rr\<close> by blast
    qed
  qed
qed

lemma block_chain_descends:
  assumes inv: "links_inv B t" and r: "block_exists t r"
  shows "block_chain t r path x \<Longrightarrow> x \<in> descendants t r"
proof (induction path arbitrary: x rule: rev_induct)
  case (snoc b path)
  then have "eb_parent_id b \<in> descendants t r" "eb_id b = x" "get_block t x = Some b" by (auto simp: block_chain_snoc)
  moreover from this have "(eb_parent_id b, x) \<in> child_links t"
    using descendants_exist [OF inv r] by (simp add: links_inv_child [OF inv] tree_parent_def)
  ultimately show ?case by (blast intro: descendants_child)
qed simp

lemma path_loop_reaches:
  assumes inv: "links_inv B t" and r: "get_block t r = Some root" and x: "x \<in> descendants t r"
  shows "\<exists>res'. path_loop t (eb_round root) x res = Some (Some (r, res'))"
proof -
  have "(r, x) \<in> (child_links t)\<^sup>*" using x by (simp add: descendants_def)
  then show ?thesis
  proof (induction arbitrary: res rule: rtrancl_induct)
    case base
    show ?case by (subst path_loop.simps) (simp add: r)
  next
    case (step y z)
    obtain b where b: "get_block t z = Some b" "eb_parent_id b = y"
      using step(2) by (auto simp: links_inv_child [OF inv] tree_parent_def)
    have "tree_round t r < tree_round t z"
      using links_round_less [OF inv] rtrancl_into_trancl1 [OF step(1,2)] by blast
    then have "\<not> eb_round b \<le> eb_round root" by (simp add: tree_round_def r b(1) word_le_nat_alt)
    moreover obtain res' where "path_loop t (eb_round root) y (res @ [b]) = Some (Some (r, res'))" using step.IH by blast
    ultimately show ?case using b by (subst path_loop.simps) simp
  qed
qed

lemma path_from_root_to_block_spec:
  assumes inv: "links_inv B t" and r: "get_block t r = Some root"
  shows "x \<notin> descendants t r \<Longrightarrow> path_from_root_to_block t x r (eb_round root) = Some None"
    and "x \<in> descendants t r \<Longrightarrow> \<exists>path. path_from_root_to_block t x r (eb_round root) = Some (Some path) \<and> block_chain t r path x"
proof -
  have ex: "block_exists t r" by (simp add: block_exists_iff r)
  obtain res where res: "path_loop t (eb_round root) x [] = Some res" using path_loop_returns [OF inv] by blast
  { assume nd: "x \<notin> descendants t r"
    have "fst p \<noteq> r" if "res = Some p" for p
    proof
      assume "fst p = r"
      then have "path_loop t (eb_round root) x [] = Some (Some (r, snd p))" using res that by (cases p) simp
      from path_loop_chain [OF inv this] show False using block_chain_descends [OF inv ex] nd by blast
    qed
    then show "path_from_root_to_block t x r (eb_round root) = Some None"
      by (auto simp: path_from_root_to_block_def res split: option.split) }
  { assume "x \<in> descendants t r"
    then obtain res' where l: "path_loop t (eb_round root) x [] = Some (Some (r, res'))"
      using path_loop_reaches [OF inv r] by blast
    from path_loop_chain [OF inv l] obtain path where "res' = [] @ rev path" "block_chain t r path x" by blast
    then show "\<exists>path. path_from_root_to_block t x r (eb_round root) = Some (Some path) \<and> block_chain t r path x"
      by (simp add: path_from_root_to_block_def l) }
qed

section \<open>The pruning is exact\<close>

text \<open>The blocks of a list come after their parents, which are in the list or in \<open>D\<close>.\<close>

fun parents_first :: "'r block_tree \<Rightarrow> hash_value set \<Rightarrow> hash_value list \<Rightarrow> bool" where
  "parents_first t D [] \<longleftrightarrow> True"
| "parents_first t D (x # xs) \<longleftrightarrow> tree_parent t x \<in> Some ` D \<and> parents_first t (insert x D) xs"

lemma parents_first_append:
  "parents_first t D (xs @ ys) \<longleftrightarrow> parents_first t D xs \<and> parents_first t (D \<union> set xs) ys"
  by (induction xs arbitrary: D) auto

lemma parents_first_cong:
  "(\<And>x. x \<in> set xs \<Longrightarrow> tree_parent t' x = tree_parent t x) \<Longrightarrow> parents_first t' D xs \<longleftrightarrow> parents_first t D xs"
  by (induction xs arbitrary: D) auto

definition on_tree :: "'r block_tree \<Rightarrow> 'r linkable_block list \<Rightarrow> bool" where
  "on_tree t stack \<longleftrightarrow> (\<forall>lb \<in> set stack. get_linkable_block t (lb_id lb) = Some lb)"

lemma push_loop_eq:
  assumes inv: "links_inv B t" and "\<forall>c \<in> set cs. block_exists t c" and "on_tree t stack"
  shows "\<exists>stack'. for_each (\<lambda>stack c. if n = c then Ok stack
      else and_then (expect (get_linkable_block t c)) (\<lambda>child. Ok (child # stack))) stack cs = (Ok stack' :: (_, 'e) result) \<and>
    on_tree t stack' \<and> map lb_id stack' = rev (filter (\<lambda>c. c \<noteq> n) cs) @ map lb_id stack"
  using assms(2,3)
proof (induction cs arbitrary: stack)
  case (Cons c cs)
  show ?case
  proof (cases "n = c")
    case True
    then show ?thesis using Cons.IH [of stack] Cons.prems by simp
  next
    case False
    obtain lb where lb: "get_linkable_block t c = Some lb"
      using Cons.prems(1) by (auto simp: block_exists_def get_linkable_block_def)
    then have id: "lb_id lb = c" using inv by (auto simp: links_inv_def)
    then have "on_tree t (lb # stack)" using Cons.prems(2) lb by (simp add: on_tree_def)
    with Cons.IH [of "lb # stack"] Cons.prems(1) show ?thesis
      using False lb id by (auto simp: expect_def)
  qed
qed simp

lemma push_children_eq:
  assumes inv: "links_inv B t" and ord: "\<And>xs. mset (order xs) = mset xs"
    and "on_tree t (lb # stack)"
  obtains stack' where "push_children order t n lb stack = (Ok stack' :: (_, 'e) result)"
    and "on_tree t stack'"
    and "map lb_id stack' = rev (filter (\<lambda>c. c \<noteq> n) (order (lb_children lb))) @ map lb_id stack"
proof -
  have "\<forall>c \<in> set (order (lb_children lb)). block_exists t c"
  proof
    fix c assume "c \<in> set (order (lb_children lb))"
    then have "c \<in> set (lb_children lb)" using ord mset_eq_setD by metis
    then have "(lb_id lb, c) \<in> child_links t" using assms(3) by (auto simp: child_links_def on_tree_def)
    then show "block_exists t c" by (auto simp: links_inv_child [OF inv] tree_parent_def block_exists_iff)
  qed
  from push_loop_eq [OF inv this, of stack n, where 'e = 'e] assms(3) that show ?thesis
    by (auto simp: push_children_def on_tree_def)
qed

lemma finite_blocks: "finite {x. block_exists t x}"
  unfolding block_exists_def bt_get_def by (rule finite_dom_map_of [unfolded dom_def])

abbreviation pruned_from :: "'r block_tree \<Rightarrow> hash_value \<Rightarrow> hash_value set \<Rightarrow> hash_value set" where
  "pruned_from t stop xs \<equiv> (links_but t stop)\<^sup>* `` xs"

lemma links_but_child: "(p, c) \<in> links_but t n \<longleftrightarrow> (p, c) \<in> child_links t \<and> c \<noteq> n"
  by (simp add: links_but_def)

lemma pruned_from_exist:
  assumes "links_inv B t" and "\<forall>x \<in> X. block_exists t x"
  shows "pruned_from t n X \<subseteq> {x. block_exists t x}"
proof
  fix y assume "y \<in> pruned_from t n X"
  then obtain x where x: "x \<in> X" "(x, y) \<in> (links_but t n)\<^sup>*" by blast
  then have "(x, y) \<in> (child_links t)\<^sup>*" by (rule_tac subsetD [OF rtrancl_mono]) (auto simp: links_but_def)
  then show "y \<in> {x. block_exists t x}"
    using descendants_exist [OF assms(1)] assms(2) x(1) by (auto simp: descendants_def)
qed

text \<open>The blocks of the stack are not below each other; one step of the loop keeps it so.\<close>

definition apart :: "(hash_value \<times> hash_value) set \<Rightarrow> hash_value set \<Rightarrow> bool" where
  "apart E X \<longleftrightarrow> (\<forall>a \<in> X. \<forall>b \<in> X. (a, b) \<in> E\<^sup>* \<longrightarrow> a = b)"

lemma links_but_acyclic:
  assumes "links_inv B t" shows "(x, x) \<notin> (links_but t n)\<^sup>+"
proof
  assume "(x, x) \<in> (links_but t n)\<^sup>+"
  then have "(x, x) \<in> (child_links t)\<^sup>+" by (rule_tac subsetD [OF trancl_mono_subset]) (auto simp: links_but_def)
  then show False using links_round_less [OF assms] by blast
qed

lemma apart_step:
  assumes inv: "links_inv B t" and E: "E = links_but t n"
    and ap: "apart E (insert x X)" and x: "x \<notin> X"
  shows "apart E (E `` {x} \<union> X)" and "x \<notin> E\<^sup>* `` (E `` {x} \<union> X)" and "E `` {x} \<inter> X = {}"
proof -
  have acyc: "(y, y) \<notin> E\<^sup>+" for y unfolding E by (rule links_but_acyclic [OF inv])
  have up: "(a, x) \<in> E\<^sup>*" if "(a, c) \<in> E\<^sup>*" "(x, c) \<in> E" "a \<noteq> c" for a c
  proof -
    from that(1,3) obtain p where "(a, p) \<in> E\<^sup>*" "(p, c) \<in> E" by (cases rule: rtranclE) auto
    moreover from this(2) that(2) have "p = x"
      using child_unique_parent [OF inv] by (auto simp: E links_but_child)
    ultimately show ?thesis by simp
  qed
  have noback: "(c, x) \<notin> E\<^sup>*" if "(x, c) \<in> E" for c
    using acyc [of x] rtrancl_into_trancl2 [OF that] by blast
  have away: "(a, x) \<notin> E\<^sup>*" if "a \<in> X" for a
    using ap that x unfolding apart_def by blast
  have away': "(x, a) \<notin> E\<^sup>*" if "a \<in> X" for a
    using ap that x unfolding apart_def by blast
  show disj: "E `` {x} \<inter> X = {}" using away' by blast
  show "x \<notin> E\<^sup>* `` (E `` {x} \<union> X)" using noback away by blast
  show "apart E (E `` {x} \<union> X)"
    unfolding apart_def
  proof (intro ballI impI, rule ccontr)
    fix a b assume a: "a \<in> E `` {x} \<union> X" and b: "b \<in> E `` {x} \<union> X" and ab: "(a, b) \<in> E\<^sup>*" and ne: "a \<noteq> b"
    show False
    proof (cases "b \<in> X")
      case True
      then show ?thesis
      proof (cases "a \<in> X")
        case True
        then show ?thesis using ap \<open>b \<in> X\<close> ab ne unfolding apart_def by blast
      next
        case False
        then have "(x, b) \<in> E\<^sup>*" using a ab by (auto intro: converse_rtrancl_into_rtrancl)
        then show ?thesis using away' \<open>b \<in> X\<close> by blast
      qed
    next
      case False
      then have "(a, x) \<in> E\<^sup>*" using b up [OF ab _ ne] by blast
      then show ?thesis using a noback away by blast
    qed
  qed
qed

lemma rtrancl_Image_step: "E\<^sup>* `` insert x X = insert x (E\<^sup>* `` (E `` {x} \<union> X))"
proof -
  have "E\<^sup>* `` {x} = insert x (E\<^sup>* `` (E `` {x}))"
    by (auto elim: converse_rtranclE intro: converse_rtrancl_into_rtrancl)
  then show ?thesis by (auto simp: Image_Un insert_is_Un [of x X] simp del: Un_insert_left)
qed

lemma prune_loop_spec:
  assumes inv: "links_inv B t" and ord: "\<And>xs. mset (order xs) = mset xs"
  shows "on_tree t stack \<Longrightarrow> distinct (map lb_id stack) \<Longrightarrow> apart (links_but t n) (set (map lb_id stack)) \<Longrightarrow>
    \<exists>ids. prune_loop order t n stack acc = Some (Ok (acc @ ids) :: (_, 'e) result) \<and> distinct ids \<and>
      set ids = pruned_from t n (set (map lb_id stack)) \<and>
      (\<forall>D. (\<forall>a \<in> set (map lb_id stack). tree_parent t a \<in> Some ` D) \<longrightarrow> parents_first t D ids)"
proof (induction "card (pruned_from t n (set (map lb_id stack)))" arbitrary: stack acc rule: less_induct)
  case less
  let ?E = "links_but t n"
  show ?case
  proof (cases stack)
    case Nil
    then show ?thesis by (subst prune_loop.simps) simp
  next
    case (Cons lb rest)
    let ?x = "lb_id lb" and ?X = "set (map lb_id rest)"
    obtain stack' where push: "push_children order t n lb rest = (Ok stack' :: (_, 'e) result)"
      and on: "on_tree t stack'"
      and ids': "map lb_id stack' = rev (filter (\<lambda>c. c \<noteq> n) (order (lb_children lb))) @ map lb_id rest"
      using push_children_eq [OF inv ord less.prems(1) [unfolded Cons], where 'e = 'e] by blast
    have lb: "get_linkable_block t ?x = Some lb" using less.prems(1) Cons by (simp add: on_tree_def)
    have kids: "set (filter (\<lambda>c. c \<noteq> n) (order (lb_children lb))) = ?E `` {?x}"
      using mset_eq_setD [OF ord [of "lb_children lb"]] lb by (auto simp: links_but_def child_links_def)
    then have set': "set (map lb_id stack') = ?E `` {?x} \<union> ?X" unfolding ids' by simp
    have x: "?x \<notin> ?X" and ap: "apart ?E (insert ?x ?X)" using less.prems Cons by simp_all
    note ap' = apart_step [OF inv refl ap x]
    have "distinct (lb_children lb)" using inv lb by (auto simp: links_inv_def)
    then have "distinct (order (lb_children lb))" using ord mset_eq_imp_distinct_iff by metis
    then have dist: "distinct (map lb_id stack')"
      unfolding ids' using ap'(3) kids less.prems(2) Cons by auto
    have step: "pruned_from t n (set (map lb_id stack)) = insert ?x (pruned_from t n (set (map lb_id stack')))"
      unfolding set' Cons using rtrancl_Image_step [of ?E ?x ?X] by simp
    have notin: "?x \<notin> pruned_from t n (set (map lb_id stack'))" unfolding set' by (rule ap'(2))
    have "\<forall>y \<in> set (map lb_id stack'). block_exists t y"
      using on by (auto simp: on_tree_def block_exists_def get_linkable_block_def)
    then have fin: "finite (pruned_from t n (set (map lb_id stack')))"
      using pruned_from_exist [OF inv] finite_blocks finite_subset by metis
    have "card (pruned_from t n (set (map lb_id stack'))) < card (pruned_from t n (set (map lb_id stack)))"
      unfolding step using fin notin by simp
    from less.hyps [OF this on dist, of "acc @ [?x]"] ap'(1) set' obtain ids where
      ids: "prune_loop order t n stack' (acc @ [?x]) = Some (Ok ((acc @ [?x]) @ ids) :: (_, 'e) result)" "distinct ids"
        "set ids = pruned_from t n (set (map lb_id stack'))"
      and first: "\<And>D. \<forall>a \<in> set (map lb_id stack'). tree_parent t a \<in> Some ` D \<Longrightarrow> parents_first t D ids" by auto
    have r1: "prune_loop order t n stack acc = Some (Ok (acc @ ?x # ids) :: (_, 'e) result)"
      using ids(1) push by (subst prune_loop.simps) (simp add: Cons)
    have r2: "distinct (?x # ids)" using ids(2,3) notin by simp
    have r3: "set (?x # ids) = pruned_from t n (set (map lb_id stack))" using ids(3) step by simp
    have r4: "parents_first t D (?x # ids)" if D: "\<forall>a \<in> set (map lb_id stack). tree_parent t a \<in> Some ` D" for D
    proof -
      have "\<forall>a \<in> ?E `` {?x} \<union> ?X. tree_parent t a \<in> Some ` insert ?x D"
        using D Cons by (auto simp: links_but_child links_inv_child [OF inv])
      then have "\<forall>a \<in> set (map lb_id stack'). tree_parent t a \<in> Some ` insert ?x D" unfolding set' .
      then have "parents_first t (insert ?x D) ids" by (rule first)
      then show ?thesis using D Cons by simp
    qed
    show ?thesis by (intro exI [of _ "?x # ids"] conjI allI impI r1 r2 r3 r4)
  qed
qed

lemma pruned_from_root:
  assumes inv: "links_inv B t" and n: "n \<in> descendants t r" and ne: "n \<noteq> r"
  shows "pruned_from t n {r} = descendants t r - descendants t n"
proof (intro set_eqI iffI)
  fix x assume "x \<in> pruned_from t n {r}"
  then have "(r, x) \<in> (links_but t n)\<^sup>*" by simp
  then show "x \<in> descendants t r - descendants t n"
  proof (induction rule: rtrancl_induct)
    case base
    show ?case using descendants_antisym [OF inv n] ne by auto
  next
    case (step y z)
    then have "(y, z) \<in> child_links t" "z \<noteq> n" by (auto simp: links_but_child)
    then show ?case using step.IH descendants_child descendants_parent [OF inv] by blast
  qed
next
  fix x assume x: "x \<in> descendants t r - descendants t n"
  then have "(r, x) \<in> (child_links t)\<^sup>*" by (simp add: descendants_def)
  then have "x \<notin> descendants t n \<longrightarrow> (r, x) \<in> (links_but t n)\<^sup>*"
  proof (induction rule: rtrancl_induct)
    case (step y z)
    show ?case
    proof
      assume z: "z \<notin> descendants t n"
      then have "y \<notin> descendants t n" "z \<noteq> n" using descendants_child step(2) by auto
      then show "(r, z) \<in> (links_but t n)\<^sup>*"
        using step by (auto simp: links_but_child intro: rtrancl_into_rtrancl)
    qed
  qed simp
  then show "x \<in> pruned_from t n {r}" using x by simp
qed

lemma find_blocks_to_prune_spec:
  assumes inv: "links_inv B t" and ord: "\<And>xs. mset (order xs) = mset xs"
    and r: "block_exists t (commit_root_id t)" and n: "n \<in> descendants t (commit_root_id t)"
  obtains ids where "find_blocks_to_prune order t n = Some (Ok ids :: (_, 'e) result)" and "distinct ids"
    and "set ids = descendants t (commit_root_id t) - descendants t n"
    and "\<And>D. tree_parent t (commit_root_id t) \<in> Some ` D \<Longrightarrow> parents_first t D ids"
proof (cases "n = commit_root_id t")
  case True
  then show ?thesis using that [of "[]"] by (simp add: find_blocks_to_prune_def)
next
  case False
  obtain lb where lb: "get_linkable_block t (commit_root_id t) = Some lb"
    using r by (auto simp: block_exists_def get_linkable_block_def)
  then have id: "lb_id lb = commit_root_id t" using inv by (auto simp: links_inv_def)
  have "on_tree t [lb]" "distinct (map lb_id [lb])" "apart (links_but t n) (set (map lb_id [lb]))"
    using lb id by (auto simp: on_tree_def apart_def)
  from prune_loop_spec [OF inv ord this, of "[]", where 'e = 'e] id obtain ids where
    "prune_loop order t n [lb] [] = Some (Ok ids :: (_, 'e) result)" "distinct ids"
    "set ids = pruned_from t n {commit_root_id t}"
    "\<And>D. tree_parent t (commit_root_id t) \<in> Some ` D \<Longrightarrow> parents_first t D ids" by auto
  then show ?thesis using that [of ids] False lb pruned_from_root [OF inv n False]
    by (simp add: find_blocks_to_prune_def linkable_root_def expect_def)
qed

section \<open>The invariant of the tree\<close>

text \<open>
  \<open>D\<close> are the ids of blocks that can not come back: removed blocks and the ancestors of the first root.
  A pruned block waits in the deque behind its parent, so that a removal never breaks a link.
\<close>

definition tree_inv :: "'r executed_block set \<Rightarrow> hash_value set \<Rightarrow> hash_value \<Rightarrow> 'r block_tree \<Rightarrow> bool" where
  "tree_inv B D r t \<longleftrightarrow> links_inv B t \<and>
     (\<forall>x \<in> D. \<not> block_exists t x) \<and> (\<forall>b \<in> B. eb_id b \<in> D \<longrightarrow> eb_parent_id b \<in> D) \<and>
     (\<forall>x p. tree_parent t x = Some p \<longrightarrow> block_exists t p \<or> p \<in> D) \<and>
     block_exists t r \<and> distinct (pruned_block_ids t) \<and>
     (\<forall>x \<in> set (pruned_block_ids t). block_exists t x \<and> x \<notin> descendants t r) \<and>
     parents_first t D (pruned_block_ids t) \<and>
     tree_parent t r \<in> Some ` (D \<union> set (pruned_block_ids t))"

lemma tree_cong:
  assumes "id_to_block t' = id_to_block t"
  shows "child_links t' = child_links t" and "get_block t' = get_block t" and "tree_parent t' = tree_parent t"
    and "block_exists t' = block_exists t" and "descendants t' = descendants t"
    and "get_linkable_block t' = get_linkable_block t"
proof -
  show get: "get_linkable_block t' = get_linkable_block t" by (rule ext) (simp add: get_linkable_block_def assms)
  show links: "child_links t' = child_links t" by (simp add: child_links_def get)
  show blk: "get_block t' = get_block t" by (rule ext) (simp add: get_block_def get)
  show "tree_parent t' = tree_parent t" by (rule ext) (simp add: tree_parent_def blk)
  show "block_exists t' = block_exists t" by (rule ext) (simp add: block_exists_def assms)
  show "descendants t' = descendants t" by (rule ext) (simp add: descendants_def links)
qed

lemma tree_inv_cong:
  assumes "id_to_block t' = id_to_block t" and "pruned_block_ids t' = pruned_block_ids t"
  shows "tree_inv B D r t' = tree_inv B D r t"
proof -
  have "parents_first t' D (pruned_block_ids t) = parents_first t D (pruned_block_ids t)"
    by (rule parents_first_cong) (simp add: tree_cong(3) [OF assms(1)])
  then show ?thesis
    unfolding tree_inv_def links_inv_def assms tree_cong [OF assms(1)] by simp
qed

text \<open>Insertion of a new block adds one link.\<close>

lemma insert_block_new:
  assumes inv: "links_inv B t" and new: "get_block t (eb_id b) = None"
    and ok: "insert_block b t = (Ok b', t')"
  shows "block_exists t (eb_parent_id b)" and "b' = b"
    and "get_block t' x = (if x = eb_id b then Some b else get_block t x)"
    and "child_links t' = insert (eb_parent_id b, eb_id b) (child_links t)"
    and "pruned_block_ids t' = pruned_block_ids t" and "commit_root_id t' = commit_root_id t"
    and "ordered_root_id t' = ordered_root_id t" and "bt_invar (id_to_block t')"
    and "\<forall>k lb. get_linkable_block t' k = Some lb \<longrightarrow> distinct (lb_children lb)"
proof -
  have bi: "bt_invar (id_to_block t)" using inv by (simp add: links_inv_def)
  obtain pl where pl: "get_linkable_block t (eb_parent_id b) = Some pl"
    using ok new by (auto simp: insert_block_def Let_def split: option.splits)
  have ne: "eb_id b \<noteq> eb_parent_id b" using new pl by (auto simp: get_block_def)
  have newc: "eb_id b \<notin> set (lb_children pl)"
  proof
    assume "eb_id b \<in> set (lb_children pl)"
    then have "(eb_parent_id b, eb_id b) \<in> child_links t" using pl by (auto simp: child_links_def)
    then show False using new by (simp add: links_inv_child [OF inv] tree_parent_def)
  qed
  define pl' where "pl' = pl\<lparr>lb_children := lb_children pl @ [eb_id b]\<rparr>"
  have none: "bt_get (id_to_block t) (eb_id b) = None" using new by (simp add: get_block_def get_linkable_block_def)
  have t': "t' = t\<lparr>id_to_block := bt_insert (eb_id b) (linkable_block_new b) (bt_insert (eb_parent_id b) pl' (id_to_block t))\<rparr>"
    and "b' = b"
    using ok new pl newc ne none bi
    by (auto simp: insert_block_def Let_def add_child_def rust_assert_def bt_get_insert pl'_def split: if_splits)
  then show "b' = b" by simp
  have get: "get_linkable_block t' k =
      (if k = eb_id b then Some (linkable_block_new b) else if k = eb_parent_id b then Some pl' else get_linkable_block t k)" for k
    using bi by (simp add: t' get_linkable_block_def bt_get_insert bt_invar_insert)
  show "block_exists t (eb_parent_id b)" using pl by (simp add: block_exists_def get_linkable_block_def)
  show "get_block t' x = (if x = eb_id b then Some b else get_block t x)"
    using pl by (auto simp: get_block_def get linkable_block_new_def pl'_def)
  show "child_links t' = insert (eb_parent_id b, eb_id b) (child_links t)"
    using pl new ne unfolding child_links_def get
    by (auto simp: linkable_block_new_def pl'_def get_block_def split: if_splits)
  show "pruned_block_ids t' = pruned_block_ids t" "commit_root_id t' = commit_root_id t"
    "ordered_root_id t' = ordered_root_id t" "bt_invar (id_to_block t')"
    using bi by (simp_all add: t' bt_invar_insert)
  have "\<forall>k lb. get_linkable_block t k = Some lb \<longrightarrow> distinct (lb_children lb)" using inv by (simp add: links_inv_def)
  then show "\<forall>k lb. get_linkable_block t' k = Some lb \<longrightarrow> distinct (lb_children lb)"
    using pl newc by (auto simp: get linkable_block_new_def pl'_def)
qed

lemma tree_inv_links: "tree_inv B D r t \<Longrightarrow> links_inv B t"
  by (simp add: tree_inv_def)

lemma tree_inv_dead: "tree_inv B D r t \<Longrightarrow> x \<in> D \<Longrightarrow> \<not> block_exists t x"
  by (simp add: tree_inv_def)

lemma tree_inv_parent: "tree_inv B D r t \<Longrightarrow> tree_parent t x = Some p \<Longrightarrow> block_exists t p \<or> p \<in> D"
  unfolding tree_inv_def by blast

lemma tree_inv_root: "tree_inv B D r t \<Longrightarrow> block_exists t r"
  by (simp add: tree_inv_def)

lemma tree_inv_pruned:
  assumes "tree_inv B D r t"
  shows "distinct (pruned_block_ids t)" and "parents_first t D (pruned_block_ids t)"
    and "tree_parent t r \<in> Some ` (D \<union> set (pruned_block_ids t))"
    and "\<And>x. x \<in> set (pruned_block_ids t) \<Longrightarrow> block_exists t x"
    and "\<And>x. x \<in> set (pruned_block_ids t) \<Longrightarrow> x \<notin> descendants t r"
  using assms unfolding tree_inv_def by blast+

lemma tree_invI:
  assumes "links_inv B t" and "\<And>x. x \<in> D \<Longrightarrow> \<not> block_exists t x"
    and "\<And>b. b \<in> B \<Longrightarrow> eb_id b \<in> D \<Longrightarrow> eb_parent_id b \<in> D"
    and "\<And>x p. tree_parent t x = Some p \<Longrightarrow> block_exists t p \<or> p \<in> D"
    and "block_exists t r" and "distinct (pruned_block_ids t)"
    and "\<And>x. x \<in> set (pruned_block_ids t) \<Longrightarrow> block_exists t x \<and> x \<notin> descendants t r"
    and "parents_first t D (pruned_block_ids t)"
    and "tree_parent t r \<in> Some ` (D \<union> set (pruned_block_ids t))"
  shows "tree_inv B D r t"
  unfolding tree_inv_def using assms by blast

lemma tree_inv_dead_parent: "tree_inv B D r t \<Longrightarrow> b \<in> B \<Longrightarrow> eb_id b \<in> D \<Longrightarrow> eb_parent_id b \<in> D"
  unfolding tree_inv_def by blast

lemma insert_block_descendants:
  assumes "links_inv B t" and "get_block t (eb_id b) = None" and "insert_block b t = (Ok b', t')"
  shows "descendants t' r \<subseteq> insert (eb_id b) (descendants t r)" and "descendants t r \<subseteq> descendants t' r"
proof -
  note new = insert_block_new [OF assms]
  show "descendants t r \<subseteq> descendants t' r"
    unfolding descendants_def new(4) by (intro Image_mono rtrancl_mono) auto
  show "descendants t' r \<subseteq> insert (eb_id b) (descendants t r)"
  proof
    fix x assume "x \<in> descendants t' r"
    then have "(r, x) \<in> (child_links t')\<^sup>*" by (simp add: descendants_def)
    then show "x \<in> insert (eb_id b) (descendants t r)"
    proof (induction rule: rtrancl_induct)
      case (step y z)
      have "(eb_id b, z) \<notin> child_links t" using assms(2) by (simp add: links_inv_child [OF assms(1)] block_exists_iff)
      then show ?case using step descendants_child by (auto simp: new(4))
    qed simp
  qed
qed

lemma insert_block_links:
  assumes inv: "tree_inv B D r t" and b: "b \<in> B" and "get_block t (eb_id b) = None"
    and "insert_block b t = (Ok b', t')"
  shows "links_inv B t'"
proof -
  note links = tree_inv_links [OF inv]
  note new = insert_block_new [OF links assms(3,4)]
  have D: "eb_id b \<notin> D" using tree_inv_dead_parent [OF inv b] tree_inv_dead [OF inv] new(1) by blast
  have par: "tree_parent t' x = (if x = eb_id b then Some (eb_parent_id b) else tree_parent t x)" for x
    by (simp add: tree_parent_def new(3))
  have ex: "block_exists t' x \<longleftrightarrow> x = eb_id b \<or> block_exists t x" for x
    by (simp add: block_exists_iff new(3))
  have noparent: "tree_parent t x \<noteq> Some (eb_id b)" for x
    using tree_inv_parent [OF inv, of x "eb_id b"] D assms(3) by (auto simp: block_exists_iff)
  have nochild: "(p, eb_id b) \<notin> child_links t" for p
    using assms(3) by (simp add: links_inv_child [OF links] tree_parent_def)
  have "lb_id lb = k \<and> lb_executed_block lb \<in> B" if "get_linkable_block t' k = Some lb" for k lb
  proof -
    have "get_block t' k = Some (lb_executed_block lb)" using that by (simp add: get_block_def)
    then show ?thesis
      using b links_inv_blockD(1,2) [OF links, of k] by (auto simp: new(3) lb_id_def split: if_splits)
  qed
  moreover have "(p, c) \<in> child_links t' \<longleftrightarrow> tree_parent t' c = Some p \<and> block_exists t' p" for p c
    using nochild noparent new(1) by (auto simp: new(4) par ex links_inv_child [OF links])
  ultimately show ?thesis using new(8,9) links unfolding links_inv_def by blast
qed

lemma insert_block_inv:
  assumes inv: "tree_inv B D r t" and b: "b \<in> B" and ok: "insert_block b t = (Ok b', t')"
  shows "tree_inv B D r t'"
proof (cases "get_block t (eb_id b)")
  case (Some e)
  then have "t' = t" using ok by (auto simp: insert_block_def Let_def split: if_splits)
  then show ?thesis using inv by simp
next
  case None
  note links = tree_inv_links [OF inv]
  note new = insert_block_new [OF links None ok]
  have par: "tree_parent t' x = (if x = eb_id b then Some (eb_parent_id b) else tree_parent t x)" for x
    by (simp add: tree_parent_def new(3))
  have ex: "block_exists t' x \<longleftrightarrow> x = eb_id b \<or> block_exists t x" for x
    by (simp add: block_exists_iff new(3))
  have D: "eb_id b \<notin> D" using tree_inv_dead_parent [OF inv b] tree_inv_dead [OF inv] new(1) by blast
  have nb: "eb_id b \<notin> set (pruned_block_ids t)" "r \<noteq> eb_id b"
    using tree_inv_pruned(4) [OF inv, of "eb_id b"] tree_inv_root [OF inv] None by (auto simp: block_exists_iff)
  have first: "parents_first t' D (pruned_block_ids t) = parents_first t D (pruned_block_ids t)"
    by (rule parents_first_cong) (use nb in \<open>auto simp: par\<close>)
  have below: "x \<notin> descendants t' r" if "x \<in> set (pruned_block_ids t)" for x
    using that tree_inv_pruned(5) [OF inv] nb(1) insert_block_descendants(1) [OF links None ok, of r] by blast
  show ?thesis
  proof (rule tree_invI)
    show "links_inv B t'" by (rule insert_block_links [OF inv b None ok])
    show "\<not> block_exists t' x" if "x \<in> D" for x using that D tree_inv_dead [OF inv] by (auto simp: ex)
    show "block_exists t' p \<or> p \<in> D" if "tree_parent t' x = Some p" for x p
      using that new(1) tree_inv_parent [OF inv, of x p] by (auto simp: par ex split: if_splits)
    show "block_exists t' x \<and> x \<notin> descendants t' r" if "x \<in> set (pruned_block_ids t')" for x
      using that tree_inv_pruned(4) [OF inv] below by (simp add: new(5) ex)
    show "tree_parent t' r \<in> Some ` (D \<union> set (pruned_block_ids t'))"
      using tree_inv_pruned(3) [OF inv] nb(2) by (simp add: new(5) par)
  qed (use tree_inv_pruned(1,2) [OF inv] tree_inv_root [OF inv] tree_inv_dead_parent [OF inv] first in \<open>simp_all add: new(5) ex\<close>)
qed

text \<open>Removal of the oldest pruned block: its parent is gone, so no child link leads to it.\<close>

lemma remove_front:
  assumes inv: "tree_inv B D r t" and front: "pruned_block_ids t = x # xs"
    and t': "t' = remove_block x (t\<lparr>pruned_block_ids := xs\<rparr>)"
  shows "get_block t' y = (if y = x then None else get_block t y)"
    and "child_links t' = {(p, c) \<in> child_links t. p \<noteq> x}"
    and "descendants t' r = descendants t r"
proof -
  have get: "get_linkable_block t' k = (if k = x then None else get_linkable_block t k)" for k
    by (simp add: t' remove_block_def get_linkable_block_def bt_get_remove)
  then show "get_block t' y = (if y = x then None else get_block t y)" by (simp add: get_block_def)
  show links': "child_links t' = {(p, c) \<in> child_links t. p \<noteq> x}" by (auto simp: child_links_def get split: if_splits)
  have x: "x \<notin> descendants t r" using inv front by (simp add: tree_inv_def)
  show "descendants t' r = descendants t r"
  proof
    show "descendants t' r \<subseteq> descendants t r"
      unfolding descendants_def links' by (intro Image_mono rtrancl_mono) auto
    show "descendants t r \<subseteq> descendants t' r"
    proof
      fix y assume "y \<in> descendants t r"
      then have "(r, y) \<in> (child_links t)\<^sup>*" by (simp add: descendants_def)
      then show "y \<in> descendants t' r"
      proof (induction rule: rtrancl_induct)
        case (step y z)
        then have "y \<noteq> x" using x by (auto simp: descendants_def)
        then have "(y, z) \<in> child_links t'" using step(2) by (simp add: links')
        then show ?case using step.IH by (blast intro: descendants_child)
      qed simp
    qed
  qed
qed

lemma remove_front_links:
  assumes inv: "tree_inv B D r t" and front: "pruned_block_ids t = x # xs"
    and t': "t' = remove_block x (t\<lparr>pruned_block_ids := xs\<rparr>)"
  shows "links_inv B t'"
proof -
  note links = tree_inv_links [OF inv] and rem = remove_front [OF assms]
  have get: "get_linkable_block t' k = (if k = x then None else get_linkable_block t k)" for k
    by (simp add: t' remove_block_def get_linkable_block_def bt_get_remove)
  have "tree_parent t x \<in> Some ` D" using inv front by (simp add: tree_inv_def)
  then have nochild: "(p, x) \<notin> child_links t" for p
    using tree_inv_dead [OF inv, of p] by (auto simp: links_inv_child [OF links])
  have "(p, c) \<in> child_links t' \<longleftrightarrow> tree_parent t' c = Some p \<and> block_exists t' p" for p c
    using nochild [of p] links_inv_child [OF links, of p c] by (simp add: rem(1,2) tree_parent_def block_exists_iff) blast
  moreover have "bt_invar (id_to_block t')"
    using links by (simp add: t' remove_block_def links_inv_def bt.invar_remove)
  ultimately show ?thesis using links by (auto simp: links_inv_def get split: if_splits)
qed

lemma remove_front_inv:
  assumes inv: "tree_inv B D r t" and front: "pruned_block_ids t = x # xs"
    and t': "t' = remove_block x (t\<lparr>pruned_block_ids := xs\<rparr>)"
  shows "tree_inv B (insert x D) r t'"
proof -
  note links = tree_inv_links [OF inv] and rem = remove_front [OF assms]
  have px: "tree_parent t x \<in> Some ` D" and dx: "x \<notin> set xs" and rx: "r \<noteq> x"
    using inv front by (auto simp: tree_inv_def)
  have par: "tree_parent t' y = (if y = x then None else tree_parent t y)" for y
    by (simp add: tree_parent_def rem(1))
  have ex: "block_exists t' y \<longleftrightarrow> y \<noteq> x \<and> block_exists t y" for y
    by (simp add: block_exists_iff rem(1))
  have pr: "pruned_block_ids t' = xs" by (simp add: t' remove_block_def)
  obtain b where b: "get_block t x = Some b" "eb_parent_id b \<in> D" using px by (auto simp: tree_parent_def)
  have "eb_parent_id c = eb_parent_id b" if "c \<in> B" "eb_id c = x" for c
    using that links links_inv_blockD(1,2) [OF links b(1)] unfolding links_inv_def block_family_def by metis
  then have closed: "\<forall>c \<in> B. eb_id c \<in> insert x D \<longrightarrow> eb_parent_id c \<in> insert x D"
    using tree_inv_dead_parent [OF inv] b(2) by auto
  have "parents_first t' (insert x D) xs = parents_first t (insert x D) xs"
    by (rule parents_first_cong) (use dx in \<open>auto simp: par\<close>)
  then have first: "parents_first t' (insert x D) xs" using tree_inv_pruned(2) [OF inv] front by simp
  show ?thesis
  proof (rule tree_invI)
    show "links_inv B t'" by (rule remove_front_links [OF assms])
    show "eb_parent_id c \<in> insert x D" if "c \<in> B" "eb_id c \<in> insert x D" for c using closed that by blast
    show "\<not> block_exists t' y" if "y \<in> insert x D" for y using that tree_inv_dead [OF inv] by (auto simp: ex)
    show "block_exists t' p \<or> p \<in> insert x D" if "tree_parent t' y = Some p" for y p
      using that tree_inv_parent [OF inv, of y p] by (auto simp: par ex split: if_splits)
    show "block_exists t' y \<and> y \<notin> descendants t' r" if "y \<in> set (pruned_block_ids t')" for y
      using that dx tree_inv_pruned(4,5) [OF inv, of y] front by (auto simp: pr ex rem(3))
    show "tree_parent t' r \<in> Some ` (insert x D \<union> set (pruned_block_ids t'))"
      using tree_inv_pruned(3) [OF inv] rx front by (simp add: pr par)
  qed (use tree_inv_pruned(1) [OF inv] tree_inv_root [OF inv] front rx first in \<open>simp_all add: pr ex\<close>)
qed

text \<open>The surplus is removed; the live part of the tree is not touched.\<close>

lemma pop_and_remove_spec:
  assumes "tree_inv B D r t" and "n \<le> length (pruned_block_ids t)"
  shows "(\<exists>D'. tree_inv B D' r (pop_and_remove n t)) \<and>
    descendants (pop_and_remove n t) r = descendants t r \<and>
    (\<forall>y. y \<notin> set (pruned_block_ids t) \<longrightarrow> get_block (pop_and_remove n t) y = get_block t y) \<and>
    pruned_block_ids (pop_and_remove n t) = drop n (pruned_block_ids t) \<and>
    tree_highest_commit_cert (pop_and_remove n t) = tree_highest_commit_cert t \<and>
    ordered_root_id (pop_and_remove n t) = ordered_root_id t \<and>
    max_pruned_blocks_in_mem (pop_and_remove n t) = max_pruned_blocks_in_mem t"
  using assms
proof (induction n arbitrary: D t)
  case (Suc n)
  obtain x xs where front: "pruned_block_ids t = x # xs" using Suc.prems(2) by (cases "pruned_block_ids t") auto
  define t' where t': "t' = remove_block x (t\<lparr>pruned_block_ids := xs\<rparr>)"
  note rem = remove_front [OF Suc.prems(1) front t']
  have pr: "pruned_block_ids t' = xs" by (simp add: t' remove_block_def)
  have "n \<le> length (pruned_block_ids t')" using Suc.prems(2) front pr by simp
  from Suc.IH [OF remove_front_inv [OF Suc.prems(1) front t'] this]
  have IH: "\<exists>D'. tree_inv B D' r (pop_and_remove n t')"
    "descendants (pop_and_remove n t') r = descendants t' r"
    "\<And>y. y \<notin> set xs \<Longrightarrow> get_block (pop_and_remove n t') y = get_block t' y"
    "pruned_block_ids (pop_and_remove n t') = drop n xs"
    "tree_highest_commit_cert (pop_and_remove n t') = tree_highest_commit_cert t'"
    "ordered_root_id (pop_and_remove n t') = ordered_root_id t'"
    "max_pruned_blocks_in_mem (pop_and_remove n t') = max_pruned_blocks_in_mem t'" by (auto simp: pr)
  have pop: "pop_and_remove (Suc n) t = pop_and_remove n t'" by (simp add: front t')
  have "get_block (pop_and_remove n t') y = get_block t y" if "y \<notin> set (pruned_block_ids t)" for y
    using that front IH(3) [of y] by (simp add: rem(1))
  then show ?case
    using IH(1,2,4-7) rem(3) front unfolding pop by (simp add: t' remove_block_def)
qed auto

lemma process_pruned_blocks_spec:
  assumes "tree_inv B D r (t\<lparr>pruned_block_ids := pruned_block_ids t @ ids\<rparr>)"
  shows "(\<exists>D'. tree_inv B D' r (process_pruned_blocks ids t)) \<and>
    descendants (process_pruned_blocks ids t) r = descendants t r \<and>
    (\<forall>y. y \<notin> set (pruned_block_ids t @ ids) \<longrightarrow> get_block (process_pruned_blocks ids t) y = get_block t y) \<and>
    length (pruned_block_ids (process_pruned_blocks ids t)) \<le> max_pruned_blocks_in_mem t \<and>
    tree_highest_commit_cert (process_pruned_blocks ids t) = tree_highest_commit_cert t \<and>
    ordered_root_id (process_pruned_blocks ids t) = ordered_root_id t \<and>
    set (pruned_block_ids (process_pruned_blocks ids t)) \<subseteq> set (pruned_block_ids t @ ids)"
proof -
  define t1 where "t1 = t\<lparr>pruned_block_ids := pruned_block_ids t @ ids\<rparr>"
  have same: "descendants t1 = descendants t" "get_block t1 = get_block t"
    using tree_cong(2,5) [of t1 t] by (simp_all add: t1_def)
  have eq: "process_pruned_blocks ids t =
      (if length (pruned_block_ids t1) > max_pruned_blocks_in_mem t1
       then pop_and_remove (length (pruned_block_ids t1) - max_pruned_blocks_in_mem t1) t1 else t1)"
    by (simp add: process_pruned_blocks_def t1_def Let_def)
  have f: "tree_highest_commit_cert t1 = tree_highest_commit_cert t" "ordered_root_id t1 = ordered_root_id t"
    "max_pruned_blocks_in_mem t1 = max_pruned_blocks_in_mem t" "pruned_block_ids t @ ids = pruned_block_ids t1"
    by (simp_all add: t1_def)
  note inv = assms [folded t1_def]
  show ?thesis
  proof (cases "length (pruned_block_ids t1) > max_pruned_blocks_in_mem t1")
    case True
    define n where "n = length (pruned_block_ids t1) - max_pruned_blocks_in_mem t1"
    have "n \<le> length (pruned_block_ids t1)" by (simp add: n_def)
    note pop = pop_and_remove_spec [OF inv this]
    have "length (drop n (pruned_block_ids t1)) \<le> max_pruned_blocks_in_mem t1" by (simp add: n_def)
    then show ?thesis
      using True pop set_drop_subset [of n "pruned_block_ids t1"] unfolding eq f(4) n_def [symmetric]
      by (simp add: same f(1-3))
  next
    case False
    then show ?thesis using inv unfolding eq f(4) by (auto simp: same f(1-3))
  qed
qed

text \<open>The blocks found for pruning may join the deque, with the next root as the root.\<close>

lemma prune_joins:
  assumes inv: "tree_inv B D r t" and n: "n \<in> descendants t r" and dist: "distinct ids"
    and ids: "set ids = descendants t r - descendants t n"
    and first: "parents_first t (D \<union> set (pruned_block_ids t)) ids"
  shows "tree_inv B D n (t\<lparr>pruned_block_ids := pruned_block_ids t @ ids\<rparr>)"
proof -
  define t1 where "t1 = t\<lparr>pruned_block_ids := pruned_block_ids t @ ids\<rparr>"
  have "id_to_block t1 = id_to_block t" by (simp add: t1_def)
  note same = tree_cong [OF this]
  note links = tree_inv_links [OF inv]
  have pr: "pruned_block_ids t1 = pruned_block_ids t @ ids" by (simp add: t1_def)
  have ex: "block_exists t x" if "x \<in> descendants t r" for x
    by (rule descendants_exist [OF links tree_inv_root [OF inv] that])
  have "tree_parent t n \<in> Some ` (D \<union> set (pruned_block_ids t @ ids))"
  proof (cases "n = r")
    case True
    then show ?thesis using tree_inv_pruned(3) [OF inv] by auto
  next
    case False
    obtain p where p: "(p, n) \<in> child_links t" "p \<in> descendants t r" "tree_parent t n = Some p"
      using descendants_stepE [OF links n False] by blast
    have "p \<notin> descendants t n"
      using descendants_antisym [OF links, of p n] descendants_child [OF descendants_self p(1)] child_round_less [OF links p(1)]
      by auto
    then show ?thesis using p(2,3) ids by simp
  qed
  moreover have "block_exists t x \<and> x \<notin> descendants t n" if "x \<in> set (pruned_block_ids t @ ids)" for x
    using that tree_inv_pruned(4,5) [OF inv, of x] ids ex [of x] descendants_trans [OF n, of x] by auto
  moreover have "distinct (pruned_block_ids t @ ids)"
    using tree_inv_pruned(1,5) [OF inv] dist ids by auto
  moreover have "parents_first t1 D (pruned_block_ids t @ ids)"
    using parents_first_cong [of "pruned_block_ids t @ ids" t1 t D] tree_inv_pruned(2) [OF inv] first
    by (simp add: same(3) parents_first_append)
  moreover have "links_inv B t1" using links unfolding links_inv_def same by (simp add: t1_def)
  ultimately have "tree_inv B D n t1"
    using ex [OF n] tree_inv_dead [OF inv] tree_inv_dead_parent [OF inv] tree_inv_parent [OF inv]
    by (intro tree_invI) (simp_all add: same pr)
  then show ?thesis by (simp add: t1_def)
qed

end
