(* ===== verification/Block_Tree_Run.thy ===== *)
theory Block_Tree_Run
  imports Block_Tree
begin

text \<open>
  Histories of the block tree: every tree that insertions, certificates, ordering and commits build from
  a new tree satisfies the invariant of \<^verbatim>\<open>Block_Tree\<close>; the properties of paths and pruning on such trees.
\<close>

section \<open>Histories of the tree\<close>

text \<open>
  How the block store uses the tree. A root only moves to a block that a path leads to (the store takes
  the blocks it orders and commits from such a path); a commit carries a decision for its last block, of
  a higher round than the last commit, and stays at or above the ordered root.
\<close>

definition descends :: "'r block_tree \<Rightarrow> hash_value \<Rightarrow> hash_value \<Rightarrow> bool" where
  "descends t root_id block_id \<longleftrightarrow>
     (case get_block t root_id of
        None \<Rightarrow> False
      | Some root \<Rightarrow>
          (case path_from_root_to_block t block_id root_id (eb_round root) of Some (Some _) \<Rightarrow> True | _ \<Rightarrow> False))"

definition commit_ready ::
  "'r block_tree \<Rightarrow> 'r executed_block list \<Rightarrow> quorum_cert \<Rightarrow> ledger_info_with_signatures \<Rightarrow> bool" where
  "commit_ready t blocks_to_commit finality_proof commit_decision \<longleftrightarrow>
     blocks_to_commit \<noteq> [] \<and>
     match_ordered_only (qc_commit_info finality_proof) (lis_commit_info commit_decision) \<and>
     bi_id (lis_commit_info commit_decision) = eb_id (last blocks_to_commit) \<and>
     bi_round (qc_commit_info (tree_highest_commit_cert t)) < bi_round (lis_commit_info commit_decision) \<and>
     descends t (commit_root_id t) (eb_id (last blocks_to_commit)) \<and>
     descends t (eb_id (last blocks_to_commit)) (ordered_root_id t)"

inductive tree_step ::
  "(hash_value list \<Rightarrow> hash_value list) \<Rightarrow> 'r executed_block set \<Rightarrow> 'r block_tree \<Rightarrow> 'r block_tree \<Rightarrow> bool"
  for order :: "hash_value list \<Rightarrow> hash_value list" and B :: "'r executed_block set" where
  step_block: "b \<in> B \<Longrightarrow> insert_block b t = (Ok b', t') \<Longrightarrow> tree_step order B t t'"
| step_cert: "insert_quorum_cert qc t = (Ok (), t') \<Longrightarrow> tree_step order B t t'"
| step_timeout: "tree_step order B t (replace_2chain_timeout_cert tc t)"
| step_ordered: "descends t (ordered_root_id t) x \<Longrightarrow> update_ordered_root x t = (Ok () :: (unit, anyhow) result, t') \<Longrightarrow>
    tree_step order B t t'"
| step_commit: "commit_ready t blocks fp cd \<Longrightarrow>
    commit_callback order blocks fp cd t = Some (Ok ids :: (_, anyhow) result, t') \<Longrightarrow> tree_step order B t t'"

inductive tree_state ::
  "(hash_value list \<Rightarrow> hash_value list) \<Rightarrow> 'r executed_block set \<Rightarrow> 'r block_tree \<Rightarrow> bool"
  for order :: "hash_value list \<Rightarrow> hash_value list" and B :: "'r executed_block set" where
  state_new: "root \<in> B \<Longrightarrow> block_tree_new root qc oc cc max_pruned tc = (Ok t :: (_, anyhow) result) \<Longrightarrow> tree_state order B t"
| state_step: "tree_state order B t \<Longrightarrow> tree_step order B t t' \<Longrightarrow> tree_state order B t'"

definition good_tree :: "'r executed_block set \<Rightarrow> 'r block_tree \<Rightarrow> bool" where
  "good_tree B t \<longleftrightarrow> (\<exists>D. tree_inv B D (commit_root_id t) t) \<and> ordered_root_id t \<in> descendants t (commit_root_id t)"

lemma descends_iff:
  assumes inv: "links_inv B t"
  shows "descends t r x \<longleftrightarrow> block_exists t r \<and> x \<in> descendants t r"
proof (cases "get_block t r")
  case None
  then show ?thesis by (simp add: descends_def block_exists_iff)
next
  case (Some root)
  then show ?thesis
    using path_from_root_to_block_spec [OF inv Some, of x]
    by (cases "x \<in> descendants t r") (auto simp: descends_def block_exists_iff)
qed

lemma good_treeE:
  assumes "good_tree B t"
  obtains D where "tree_inv B D (commit_root_id t) t" and "links_inv B t"
    and "block_exists t (commit_root_id t)" and "block_exists t (ordered_root_id t)"
    and "ordered_root_id t \<in> descendants t (commit_root_id t)"
proof -
  from assms obtain D where D: "tree_inv B D (commit_root_id t) t"
    and o: "ordered_root_id t \<in> descendants t (commit_root_id t)" by (auto simp: good_tree_def)
  show ?thesis
    using that [OF D tree_inv_links [OF D] tree_inv_root [OF D] _ o]
      descendants_exist [OF tree_inv_links [OF D] tree_inv_root [OF D] o] by blast
qed

lemma good_tree_cong:
  assumes "id_to_block t' = id_to_block t" and "pruned_block_ids t' = pruned_block_ids t"
    and "commit_root_id t' = commit_root_id t"
  shows "good_tree B t' \<longleftrightarrow> (\<exists>D. tree_inv B D (commit_root_id t) t) \<and> ordered_root_id t' \<in> descendants t (commit_root_id t)"
  by (simp add: good_tree_def tree_inv_cong [OF assms(1,2)] tree_cong(5) [OF assms(1)] assms(3))

text \<open>A new tree: the ancestors of its root are the dead ids.\<close>

definition parent_links :: "'r executed_block set \<Rightarrow> (hash_value \<times> hash_value) set" where
  "parent_links B = {(c, p). \<exists>b \<in> B. eb_id b = c \<and> eb_parent_id b = p}"

lemma parent_links_round:
  assumes fam: "block_family B" and "(x, y) \<in> (parent_links B)\<^sup>+"
  shows "\<forall>c \<in> B. \<forall>b \<in> B. eb_id c = x \<longrightarrow> eb_id b = y \<longrightarrow> eb_round b < eb_round c"
  using assms(2)
proof (induction rule: trancl_induct)
  case (base y)
  then obtain d where d: "d \<in> B" "eb_id d = x" "eb_parent_id d = y" by (auto simp: parent_links_def)
  have "eb_parent_id c = y" if "c \<in> B" "eb_id c = x" for c
    using fam that d unfolding block_family_def by metis
  then show ?case using fam unfolding block_family_def by metis
next
  case (step y z)
  obtain d where d: "d \<in> B" "eb_id d = y" "eb_parent_id d = z" using step(2) by (auto simp: parent_links_def)
  have "eb_round b < eb_round d" if "b \<in> B" "eb_id b = z" for b
    using fam that d unfolding block_family_def by blast
  moreover have "eb_round d < eb_round c" if "c \<in> B" "eb_id c = x" for c using step.IH that d(1,2) by blast
  ultimately show ?case by (blast intro: order_less_trans)
qed

lemma block_tree_new_good:
  assumes fam: "block_family B" and root: "root \<in> B"
    and ok: "block_tree_new root qc oc cc max_pruned tc = (Ok t :: (_, 'e) result)"
  shows "good_tree B t"
proof -
  let ?r = "eb_id root" and ?D = "(parent_links B)\<^sup>+ `` {eb_id root}"
  have t: "id_to_block t = bt_insert ?r (linkable_block_new root) bt_empty" "pruned_block_ids t = []"
    "commit_root_id t = ?r" "ordered_root_id t = ?r"
    using ok by (auto simp: block_tree_new_def result_simps Let_def)
  have get: "get_linkable_block t k = (if k = ?r then Some (linkable_block_new root) else None)" for k
    by (simp add: get_linkable_block_def t bt_get_insert bt.invar_empty bt.get_empty)
  have blk: "get_block t k = (if k = ?r then Some root else None)" for k
    by (simp add: get_block_def get linkable_block_new_def)
  have par: "tree_parent t k = (if k = ?r then Some (eb_parent_id root) else None)" for k
    by (simp add: tree_parent_def blk)
  have ex: "block_exists t k \<longleftrightarrow> k = ?r" for k by (simp add: block_exists_iff blk)
  have notr: "?r \<notin> ?D" using parent_links_round [OF fam, of ?r ?r] root by auto
  have pD: "eb_parent_id root \<in> ?D" using root by (auto simp: parent_links_def)
  then have "eb_parent_id root \<noteq> ?r" using notr by metis
  then have "links_inv B t"
    using fam root by (auto simp: links_inv_def t(1) bt_invar_insert bt.invar_empty get par ex child_links_def
        linkable_block_new_def lb_id_def split: if_splits)
  moreover have "eb_parent_id b \<in> ?D" if "b \<in> B" "eb_id b \<in> ?D" for b
    using that by (auto simp: parent_links_def intro: trancl_into_trancl)
  ultimately have "tree_inv B ?D ?r t"
    using notr pD by (intro tree_invI) (auto simp: ex par t(2) split: if_splits)
  then show ?thesis unfolding good_tree_def t(3,4) by auto
qed

text \<open>The commit succeeds, and prunes what is not below the committed block.\<close>

lemma commit_callback_spec:
  assumes good: "good_tree B t" and ord: "\<And>xs. mset (order xs) = mset xs"
    and ready: "commit_ready t blocks fp cd"
  obtains ids t' where "commit_callback order blocks fp cd t = Some (Ok ids :: (_, 'e) result, t')"
    and "distinct ids" and "set ids = descendants t (commit_root_id t) - descendants t (eb_id (last blocks))"
    and "commit_root_id t' = eb_id (last blocks)"
    and "descendants t' (eb_id (last blocks)) = descendants t (eb_id (last blocks))"
    and "\<And>x. x \<notin> set (pruned_block_ids t @ ids) \<Longrightarrow> get_block t' x = get_block t x"
    and "length (pruned_block_ids t') \<le> max_pruned_blocks_in_mem t"
    and "set (pruned_block_ids t') \<subseteq> set (pruned_block_ids t @ ids)"
    and "good_tree B t'"
proof -
  obtain D where D: "tree_inv B D (commit_root_id t) t" and links: "links_inv B t"
    and root: "block_exists t (commit_root_id t)" using good_treeE [OF good] by metis
  let ?n = "eb_id (last blocks)"
  have n: "?n \<in> descendants t (commit_root_id t)" and o: "ordered_root_id t \<in> descendants t ?n"
    using ready descends_iff [OF links] by (auto simp: commit_ready_def)
  obtain ids where ids: "find_blocks_to_prune order t ?n = Some (Ok ids :: (_, 'e) result)" "distinct ids"
    "set ids = descendants t (commit_root_id t) - descendants t ?n"
    and first: "\<And>D. tree_parent t (commit_root_id t) \<in> Some ` D \<Longrightarrow> parents_first t D ids"
    using find_blocks_to_prune_spec [OF links ord root n, where 'e = 'e] by metis
  have "tree_inv B D ?n (t\<lparr>pruned_block_ids := pruned_block_ids t @ ids\<rparr>)"
    by (rule prune_joins [OF D n ids(2,3) first [OF tree_inv_pruned(3) [OF D]]])
  from process_pruned_blocks_spec [OF this]
  obtain D' where D': "tree_inv B D' ?n (process_pruned_blocks ids t)"
    and p: "descendants (process_pruned_blocks ids t) ?n = descendants t ?n"
    "\<And>y. y \<notin> set (pruned_block_ids t @ ids) \<Longrightarrow> get_block (process_pruned_blocks ids t) y = get_block t y"
    "length (pruned_block_ids (process_pruned_blocks ids t)) \<le> max_pruned_blocks_in_mem t"
    "tree_highest_commit_cert (process_pruned_blocks ids t) = tree_highest_commit_cert t"
    "ordered_root_id (process_pruned_blocks ids t) = ordered_root_id t"
    "set (pruned_block_ids (process_pruned_blocks ids t)) \<subseteq> set (pruned_block_ids t @ ids)" by blast
  define proof_of where "proof_of = \<lparr>qc_vote_data = qc_vote_data fp, qc_signed_ledger_info = cd\<rparr>"
  define t' where "t' = (process_pruned_blocks ids t)\<lparr>tree_highest_commit_cert := proof_of, commit_root_id := ?n\<rparr>"
  have merged: "create_merged_with_executed_state fp cd = Ok proof_of"
    using ready by (simp add: create_merged_with_executed_state_def commit_ready_def ensure_def proof_of_def)
  have info: "qc_commit_info proof_of = lis_commit_info cd" by (simp add: proof_of_def qc_commit_info_def lis_commit_info_def)
  obtain r where r: "commit_root t = (Ok r :: (_, 'e) result)" using root by (auto simp: commit_root_def block_exists_iff expect_def)
  have upd: "update_highest_commit_cert proof_of (process_pruned_blocks ids t) = (Ok () :: (unit, 'e) result, t')"
    using ready tree_inv_root [OF D'] p(4)
    by (simp add: update_highest_commit_cert_def info commit_ready_def update_commit_root_def bind_h_def modify_h_def
        lift_h_def rust_assert_def block_exists_def t'_def)
  have "commit_callback order blocks fp cd t = Some (Ok ids :: (_, 'e) result, t')"
    using ready merged r ids(1) bind_step [where m = "update_highest_commit_cert proof_of", OF upd]
    by (cases blocks) (auto simp: commit_callback_def commit_ready_def return_h_def)
  moreover have "descendants t' = descendants (process_pruned_blocks ids t)"
    "get_block t' = get_block (process_pruned_blocks ids t)"
    using tree_cong(2,5) [of t' "process_pruned_blocks ids t"] by (simp_all add: t'_def)
  moreover have "tree_inv B D' ?n t'"
    using D' tree_inv_cong [of t' "process_pruned_blocks ids t"] by (simp add: t'_def)
  ultimately show ?thesis
    using that [of ids t'] ids(2,3) p o unfolding good_tree_def by (auto simp: t'_def)
qed

lemma insert_quorum_cert_keeps:
  assumes "insert_quorum_cert qc t = (Ok (), t')"
  shows "id_to_block t' = id_to_block t" and "pruned_block_ids t' = pruned_block_ids t"
    and "commit_root_id t' = commit_root_id t" and "ordered_root_id t' = ordered_root_id t"
  using assms
  by (auto simp: insert_quorum_cert_def bind_h_def lift_h_def modify_h_def split: result.splits if_splits)

lemma insert_block_good:
  assumes good: "good_tree B t" and b: "b \<in> B" and ok: "insert_block b t = (Ok b', t')"
  shows "good_tree B t'"
proof (cases "get_block t (eb_id b)")
  case (Some e)
  then have "t' = t" using ok by (auto simp: insert_block_def Let_def split: if_splits)
  then show ?thesis using good by simp
next
  case None
  obtain D where D: "tree_inv B D (commit_root_id t) t" and links: "links_inv B t"
    and o: "ordered_root_id t \<in> descendants t (commit_root_id t)" using good_treeE [OF good] by metis
  note new = insert_block_new [OF links None ok]
  show ?thesis
    using insert_block_inv [OF D b ok] insert_block_descendants(2) [OF links None ok, of "commit_root_id t"] o
    unfolding good_tree_def new(6,7) by blast
qed

lemma tree_step_good:
  assumes ord: "\<And>xs. mset (order xs) = mset xs" and step: "tree_step order B t t'" and good: "good_tree B t"
  shows "good_tree B t'"
  using step
proof cases
  case (step_block b b')
  then show ?thesis using insert_block_good [OF good] by blast
next
  case (step_cert qc)
  then show ?thesis
    using good good_tree_cong [of t' t B] insert_quorum_cert_keeps [OF step_cert] by (simp add: good_tree_def)
next
  case (step_timeout tc)
  then show ?thesis
    using good good_tree_cong [of t' t B] by (simp add: good_tree_def replace_2chain_timeout_cert_def)
next
  case (step_ordered x)
  obtain D where D: "tree_inv B D (commit_root_id t) t" and links: "links_inv B t"
    and o: "ordered_root_id t \<in> descendants t (commit_root_id t)" using good_treeE [OF good] by metis
  have t': "t' = t\<lparr>ordered_root_id := x\<rparr>"
    using step_ordered(2)
    by (auto simp: update_ordered_root_def bind_h_def lift_h_def modify_h_def split: result.splits)
  have "x \<in> descendants t (ordered_root_id t)" using step_ordered(1) by (simp add: descends_iff [OF links])
  then have "x \<in> descendants t (commit_root_id t)" by (rule descendants_trans [OF o])
  then show ?thesis using D good_tree_cong [of t' t B] by (auto simp: t')
next
  case (step_commit blocks fp cd ids)
  then show ?thesis
    using commit_callback_spec [OF good ord step_commit(1), where 'e = anyhow] by (metis option.inject prod.inject)
qed

lemma tree_state_good:
  assumes fam: "block_family B" and ord: "\<And>xs. mset (order xs) = mset xs" and "tree_state order B t"
  shows "good_tree B t"
  using assms(3)
proof induction
  case (state_new root qc oc cc max_pruned tc t)
  then show ?case by (rule block_tree_new_good [OF fam])
next
  case (state_step t t')
  then show ?case using tree_step_good [OF ord] by blast
qed

text \<open>A block off the live tree that is not waiting in the deque stays where it is.\<close>

definition dangling :: "'r block_tree \<Rightarrow> hash_value \<Rightarrow> bool" where
  "dangling t x \<longleftrightarrow> block_exists t x \<and> x \<notin> descendants t (commit_root_id t) \<and> x \<notin> set (pruned_block_ids t)"

lemma dangling_cong:
  assumes "id_to_block t' = id_to_block t" and "pruned_block_ids t' = pruned_block_ids t"
    and "commit_root_id t' = commit_root_id t"
  shows "dangling t' x \<longleftrightarrow> dangling t x" and "get_block t' x = get_block t x"
  by (simp_all add: dangling_def tree_cong [OF assms(1)] assms(2,3))

lemma insert_block_dangling:
  assumes good: "good_tree B t" and ok: "insert_block b t = (Ok b', t')" and dang: "dangling t x"
  shows "dangling t' x \<and> get_block t' x = get_block t x"
proof (cases "get_block t (eb_id b)")
  case (Some e)
  then have "t' = t" using ok by (auto simp: insert_block_def Let_def split: if_splits)
  then show ?thesis using dang by simp
next
  case None
  have links: "links_inv B t" using good_treeE [OF good] by metis
  note new = insert_block_new [OF links None ok]
  have "x \<noteq> eb_id b" using dang None by (auto simp: dangling_def block_exists_iff)
  then show ?thesis
    using dang insert_block_descendants(1) [OF links None ok, of "commit_root_id t"] new(3) [of x]
    unfolding dangling_def new(5,6) by (auto simp: block_exists_iff)
qed

lemma tree_step_dangling:
  assumes ord: "\<And>xs. mset (order xs) = mset xs" and step: "tree_step order B t t'"
    and good: "good_tree B t" and dang: "dangling t x"
  shows "dangling t' x \<and> get_block t' x = get_block t x"
  using step
proof cases
  case (step_block b b')
  then show ?thesis using insert_block_dangling [OF good _ dang] by blast
next
  case (step_cert qc)
  show ?thesis using dang dangling_cong [OF insert_quorum_cert_keeps(1-3) [OF step_cert]] by blast
next
  case (step_timeout tc)
  then show ?thesis using dang dangling_cong [of t' t x] by (simp add: replace_2chain_timeout_cert_def)
next
  case (step_ordered y)
  have t': "t' = t\<lparr>ordered_root_id := y\<rparr>"
    using step_ordered(2)
    by (auto simp: update_ordered_root_def bind_h_def lift_h_def modify_h_def split: result.splits)
  then show ?thesis using dang dangling_cong [of t' t x] by simp
next
  case (step_commit blocks fp cd ids)
  let ?n = "eb_id (last blocks)"
  have links: "links_inv B t" using good_treeE [OF good] by metis
  have n: "?n \<in> descendants t (commit_root_id t)"
    using step_commit(1) by (simp add: commit_ready_def descends_iff [OF links])
  obtain ids' t'' where c: "commit_callback order blocks fp cd t = Some (Ok ids' :: (_, anyhow) result, t'')"
    and ids: "set ids' = descendants t (commit_root_id t) - descendants t ?n"
    and r: "commit_root_id t'' = ?n" "descendants t'' ?n = descendants t ?n"
    and get: "\<And>x. x \<notin> set (pruned_block_ids t @ ids') \<Longrightarrow> get_block t'' x = get_block t x"
    and pr: "set (pruned_block_ids t'') \<subseteq> set (pruned_block_ids t @ ids')"
    using commit_callback_spec [OF good ord step_commit(1), where 'e = anyhow] by metis
  have t': "t'' = t'" using c step_commit(2) by simp
  have off: "x \<notin> set (pruned_block_ids t @ ids')" "x \<notin> descendants t ?n"
    using dang ids descendants_trans [OF n] by (auto simp: dangling_def)
  then show ?thesis using dang get [OF off(1)] pr r unfolding dangling_def t' by (auto simp: block_exists_iff)
qed

lemma dangling_stays:
  assumes "\<And>xs. mset (order xs) = mset xs" and "(tree_step order B)\<^sup>*\<^sup>* t t'" and "good_tree B t" and "dangling t x"
  shows "good_tree B t' \<and> dangling t' x \<and> get_block t' x = get_block t x"
  using assms(2)
proof (induction rule: rtranclp_induct)
  case (step y z)
  then show ?case using tree_step_good [OF assms(1)] tree_step_dangling [OF assms(1)] by metis
qed (simp add: assms)

lemma insert_block_ok:
  assumes inv: "links_inv B t" and new: "get_block t (eb_id b) = None" and p: "block_exists t (eb_parent_id b)"
  shows "\<exists>t'. insert_block b t = (Ok b, t')"
proof -
  obtain pl where pl: "get_linkable_block t (eb_parent_id b) = Some pl"
    using p by (auto simp: block_exists_def get_linkable_block_def)
  have "(eb_parent_id b, eb_id b) \<notin> child_links t" using new by (simp add: links_inv_child [OF inv] tree_parent_def)
  then have "eb_id b \<notin> set (lb_children pl)" using pl by (auto simp: child_links_def)
  moreover have "bt_get (bt_insert (eb_parent_id b) pl' (id_to_block t)) (eb_id b) = None" for pl'
    using inv new pl by (auto simp: links_inv_def bt_get_insert get_block_def get_linkable_block_def)
  ultimately show ?thesis using new pl by (simp add: insert_block_def Let_def add_child_def rust_assert_def)
qed

section \<open>Properties of the block tree\<close>

text \<open>
  C9. Walking from a block up to a root always ends. On every tree that the block store can build,
  \<^verbatim>\<open>path_from_commit_root\<close> and \<^verbatim>\<open>path_from_ordered_root\<close> return for every id, without a panic. They return
  a path exactly for the blocks below the root, and the path is the chain of parent links from the root
  (excluded) to the block (included).
\<close>

theorem tree_paths_return:
  fixes t :: "'r block_tree"
  assumes "block_family B" and "\<And>xs. mset (order xs) = mset xs" and "tree_state order B t"
  shows "\<exists>c d. path_from_commit_root t x = Some (Ok c :: (_, 'e) result) \<and>
    path_from_ordered_root t x = Some (Ok d :: (_, 'e) result) \<and>
    (case c of None \<Rightarrow> x \<notin> descendants t (commit_root_id t)
     | Some path \<Rightarrow> x \<in> descendants t (commit_root_id t) \<and> block_chain t (commit_root_id t) path x) \<and>
    (case d of None \<Rightarrow> x \<notin> descendants t (ordered_root_id t)
     | Some path \<Rightarrow> x \<in> descendants t (ordered_root_id t) \<and> block_chain t (ordered_root_id t) path x)"
proof -
  from tree_state_good [OF assms] obtain rc ro where links: "links_inv B t"
    and rc: "get_block t (commit_root_id t) = Some rc" and ro: "get_block t (ordered_root_id t) = Some ro"
    by (elim good_treeE) (auto simp: block_exists_iff)
  show ?thesis
    using path_from_root_to_block_spec [OF links rc, of x] path_from_root_to_block_spec [OF links ro, of x]
    by (cases "x \<in> descendants t (commit_root_id t)"; cases "x \<in> descendants t (ordered_root_id t)")
      (auto simp: path_from_commit_root_def path_from_ordered_root_def commit_root_def ordered_root_def expect_def rc ro)
qed

text \<open>
  C10. A commit prunes exactly what is not below the committed block. For a commit decision of a block
  between the two roots, \<^verbatim>\<open>commit_callback\<close> returns without a panic, whatever the order in which the
  hash sets of children are iterated. The ids it hands to the storage are, each once, the blocks below
  the old commit root that are not below the committed block. The committed block becomes the commit
  root, the blocks below it are as before, and the buffer of pruned blocks respects its limit.
\<close>

theorem commit_prunes_exactly:
  fixes t :: "'r block_tree"
  assumes "block_family B" and "\<And>xs. mset (order xs) = mset xs" and "tree_state order B t"
    and "commit_ready t blocks fp cd"
  shows "\<exists>ids t'. commit_callback order blocks fp cd t = Some (Ok ids :: (_, 'e) result, t') \<and> distinct ids \<and>
    set ids = descendants t (commit_root_id t) - descendants t (eb_id (last blocks)) \<and>
    commit_root_id t' = eb_id (last blocks) \<and>
    descendants t' (commit_root_id t') = descendants t (eb_id (last blocks)) \<and>
    (\<forall>x. x \<in> descendants t' (commit_root_id t') \<longrightarrow> get_block t' x = get_block t x) \<and>
    length (pruned_block_ids t') \<le> max_pruned_blocks_in_mem t"
proof -
  note good = tree_state_good [OF assms(1-3)]
  obtain D where D: "tree_inv B D (commit_root_id t) t" and links: "links_inv B t" using good_treeE [OF good] by metis
  have n: "eb_id (last blocks) \<in> descendants t (commit_root_id t)"
    using assms(4) by (simp add: commit_ready_def descends_iff [OF links])
  obtain ids t' where c: "commit_callback order blocks fp cd t = Some (Ok ids :: (_, 'e) result, t')" "distinct ids"
    "set ids = descendants t (commit_root_id t) - descendants t (eb_id (last blocks))"
    "commit_root_id t' = eb_id (last blocks)"
    "descendants t' (eb_id (last blocks)) = descendants t (eb_id (last blocks))"
    "length (pruned_block_ids t') \<le> max_pruned_blocks_in_mem t"
    and get: "\<And>x. x \<notin> set (pruned_block_ids t @ ids) \<Longrightarrow> get_block t' x = get_block t x"
    using commit_callback_spec [OF good assms(2,4), where 'e = 'e] by metis
  have "get_block t' x = get_block t x" if "x \<in> descendants t (eb_id (last blocks))" for x
    using that c(3) tree_inv_pruned(5) [OF D, of x] descendants_trans [OF n that] by (intro get) auto
  then show ?thesis using c by (intro exI [of _ ids] exI [of _ t']) simp
qed

text \<open>
  C40. A block inserted under a pruned block is never pruned. As long as a pruned block waits in the
  buffer, \<^verbatim>\<open>insert_block\<close> accepts a new block on top of it. The new block is then off the live tree and
  not in the buffer, so that no later insertion, certificate, ordering or commit removes it: it stays
  in memory for the life of the tree.
\<close>

theorem block_on_pruned_parent_stays:
  fixes t :: "'r block_tree"
  assumes "block_family B" and "\<And>xs. mset (order xs) = mset xs" and "tree_state order B t"
    and "b \<in> B" and "get_block t (eb_id b) = None" and "eb_parent_id b \<in> set (pruned_block_ids t)"
  shows "\<exists>t1. insert_block b t = (Ok b, t1) \<and>
    (\<forall>t'. (tree_step order B)\<^sup>*\<^sup>* t1 t' \<longrightarrow>
       get_block t' (eb_id b) = Some b \<and> eb_id b \<notin> descendants t' (commit_root_id t'))"
proof -
  note good = tree_state_good [OF assms(1-3)]
  obtain D where D: "tree_inv B D (commit_root_id t) t" and links: "links_inv B t" using good_treeE [OF good] by metis
  obtain t1 where ok: "insert_block b t = (Ok b, t1)"
    using insert_block_ok [OF links assms(5) tree_inv_pruned(4) [OF D assms(6)]] by blast
  note new = insert_block_new [OF links assms(5) ok]
  have good1: "good_tree B t1" by (rule insert_block_good [OF good assms(4) ok])
  then have links1: "links_inv B t1" using good_treeE by metis
  have "eb_id b \<noteq> commit_root_id t" "eb_id b \<notin> set (pruned_block_ids t)"
    using assms(5) tree_inv_root [OF D] tree_inv_pruned(4) [OF D, of "eb_id b"] by (auto simp: block_exists_iff)
  moreover have "eb_parent_id b \<noteq> eb_id b"
    using assms(5) tree_inv_pruned(4) [OF D assms(6)] by (auto simp: block_exists_iff)
  moreover have "eb_parent_id b \<notin> descendants t1 (commit_root_id t)"
    using insert_block_descendants(1) [OF links assms(5) ok, of "commit_root_id t"]
      tree_inv_pruned(5) [OF D assms(6)] \<open>eb_parent_id b \<noteq> eb_id b\<close> by blast
  moreover have "(eb_parent_id b, eb_id b) \<in> child_links t1" by (simp add: new(4))
  ultimately have "dangling t1 (eb_id b)"
    using descendants_parent [OF links1, of "eb_id b" "commit_root_id t"]
    unfolding dangling_def new(5,6) by (auto simp: block_exists_iff new(3))
  from dangling_stays [OF assms(2) _ good1 this] show ?thesis
    using ok new(3) [of "eb_id b"] by (auto simp: dangling_def)
qed

section \<open>A sample tree\<close>

text \<open>
  Block 1 is the root, with the children 2 and 3; block 4 is on top of 3, and block 5 on top of 2. A
  commit of block 3 prunes the blocks 1 and 2, block 5 arrives after it.
\<close>

definition tree_info :: "hash_value \<Rightarrow> round \<Rightarrow> block_info" where
  "tree_info i r = block_info_empty\<lparr>bi_id := i, bi_round := r\<rparr>"

definition tree_decision :: "block_info \<Rightarrow> ledger_info_with_signatures" where
  "tree_decision info =
     \<lparr>lis_ledger_info = \<lparr>commit_info = info, consensus_data_hash = 0\<rparr>, lis_signatures = aggregate_signature_empty\<rparr>"

definition tree_cert :: "block_info \<Rightarrow> quorum_cert" where
  "tree_cert info = \<lparr>qc_vote_data = \<lparr>vd_proposed = info, vd_parent = info\<rparr>, qc_signed_ledger_info = tree_decision info\<rparr>"

definition tree_block :: "hash_value \<Rightarrow> round \<Rightarrow> block_info \<Rightarrow> unit executed_block" where
  "tree_block i r parent =
     \<lparr>eb_block = \<lparr>b_id = i, b_block_data = bd_new_nil r (tree_cert parent) [], b_signature = None\<rparr>,
      eb_state_compute_result = ()\<rparr>"

definition tree_block1 :: "unit executed_block" where "tree_block1 = tree_block 1 1 (tree_info 0 0)"
definition tree_block2 :: "unit executed_block" where "tree_block2 = tree_block 2 2 (tree_info 1 1)"
definition tree_block3 :: "unit executed_block" where "tree_block3 = tree_block 3 3 (tree_info 1 1)"
definition tree_block4 :: "unit executed_block" where "tree_block4 = tree_block 4 4 (tree_info 3 3)"
definition tree_block5 :: "unit executed_block" where "tree_block5 = tree_block 5 5 (tree_info 2 2)"

definition tree_blocks :: "unit executed_block set" where
  "tree_blocks = {tree_block1, tree_block2, tree_block3, tree_block4, tree_block5}"

definition tree_linked :: "unit executed_block \<Rightarrow> hash_value list \<Rightarrow> unit linkable_block" where
  "tree_linked b cs = \<lparr>lb_executed_block = b, lb_children = cs\<rparr>"

definition tree_with :: "(hash_value, unit linkable_block) btree_map \<Rightarrow> unit block_tree" where
  "tree_with m =
     \<lparr>id_to_block = m, ordered_root_id = 1, commit_root_id = 1, highest_certified_block_id = 1,
      tree_highest_quorum_cert = tree_cert (tree_info 1 1), tree_highest_2chain_timeout_cert = None,
      tree_highest_ordered_cert = tree_cert (tree_info 1 1), tree_highest_commit_cert = tree_cert (tree_info 1 1),
      id_to_quorum_cert = [(1, tree_cert (tree_info 1 1))], pruned_block_ids = [], max_pruned_blocks_in_mem = 10\<rparr>"

definition sample_tree :: "unit block_tree" where
  "sample_tree = (tree_with
     [(1, tree_linked tree_block1 [2, 3]), (2, tree_linked tree_block2 []),
      (3, tree_linked tree_block3 [4]), (4, tree_linked tree_block4 [])])\<lparr>ordered_root_id := 3\<rparr>"

definition sample_committed :: "unit block_tree" where
  "sample_committed = sample_tree\<lparr>commit_root_id := 3, tree_highest_commit_cert := tree_cert (tree_info 3 3),
     pruned_block_ids := [1, 2]\<rparr>"

lemmas tree_sample_defs =
  tree_info_def tree_decision_def tree_cert_def tree_block_def tree_block1_def tree_block2_def tree_block3_def
  tree_block4_def tree_block5_def tree_linked_def tree_with_def sample_tree_def sample_committed_def

lemma tree_block_ids [simp]:
  "eb_id tree_block1 = 1" "eb_id tree_block2 = 2" "eb_id tree_block3 = 3" "eb_id tree_block4 = 4" "eb_id tree_block5 = 5"
  by (simp_all add: eb_id_def tree_sample_defs)

lemma tree_block_parents [simp]:
  "eb_parent_id tree_block1 = 0" "eb_parent_id tree_block2 = 1" "eb_parent_id tree_block3 = 1"
  "eb_parent_id tree_block4 = 3" "eb_parent_id tree_block5 = 2"
  by (simp_all add: eb_parent_id_def b_quorum_cert_def certified_block_def bd_new_nil_def tree_sample_defs)

lemma tree_block_rounds [simp]:
  "eb_round tree_block1 = 1" "eb_round tree_block2 = 2" "eb_round tree_block3 = 3"
  "eb_round tree_block4 = 4" "eb_round tree_block5 = 5"
  by (simp_all add: eb_round_def b_round_def bd_new_nil_def tree_sample_defs)

lemma tree_blocks_family: "block_family tree_blocks"
  by (simp add: block_family_def tree_blocks_def)

lemma sample_get_block:
  "get_block sample_tree x =
     (if x = 1 then Some tree_block1 else if x = 2 then Some tree_block2 else if x = 3 then Some tree_block3
      else if x = 4 then Some tree_block4 else None)"
  by (simp add: get_block_def get_linkable_block_def bt_get_def sample_tree_def tree_with_def tree_linked_def)

lemma tree_path_step:
  "get_block t x = Some b \<Longrightarrow> eb_round b \<le> rr \<Longrightarrow> path_loop t rr x res = Some (Some (x, res))"
  "get_block t x = Some b \<Longrightarrow> \<not> eb_round b \<le> rr \<Longrightarrow> path_loop t rr x res = path_loop t rr (eb_parent_id b) (res @ [b])"
  by (subst path_loop.simps, simp)+

lemma tree_round_gt: "\<not> (3 :: round) \<le> 1"
  by (simp add: word_le_nat_alt)

lemma tree_new_sample:
  "block_tree_new tree_block1 (tree_cert (tree_info 1 1)) (tree_cert (tree_info 1 1)) (tree_cert (tree_info 1 1)) 10 None =
     (Ok (tree_with [(1, tree_linked tree_block1 [])]) :: (_, anyhow) result)"
  by (simp add: block_tree_new_def rust_assert_def qc_commit_info_def tree_cert_def tree_decision_def tree_info_def
      bt_empty_def linkable_block_new_def tree_linked_def tree_with_def Let_def certified_block_def)

lemmas tree_insert_defs =
  insert_block_def get_block_def get_linkable_block_def bt_get_def add_child_def rust_assert_def Let_def
  tree_with_def tree_linked_def linkable_block_new_def

lemma sample_tree_state: "tree_state id tree_blocks sample_tree"
proof -
  define s1 where "s1 = tree_with [(1, tree_linked tree_block1 [])]"
  define s2 where "s2 = tree_with [(1, tree_linked tree_block1 [2]), (2, tree_linked tree_block2 [])]"
  define s3 where "s3 = tree_with [(1, tree_linked tree_block1 [2, 3]), (2, tree_linked tree_block2 []), (3, tree_linked tree_block3 [])]"
  define s4 where "s4 = tree_with [(1, tree_linked tree_block1 [2, 3]), (2, tree_linked tree_block2 []),
      (3, tree_linked tree_block3 [4]), (4, tree_linked tree_block4 [])]"
  note mem = tree_blocks_def
  have "tree_state id tree_blocks s1"
    unfolding s1_def by (rule state_new [OF _ tree_new_sample]) (simp add: mem)
  moreover have "insert_block tree_block2 s1 = (Ok tree_block2, s2)" by (simp add: s1_def s2_def tree_insert_defs)
  then have "tree_step id tree_blocks s1 s2" by (rule step_block [rotated]) (simp add: mem)
  moreover have "insert_block tree_block3 s2 = (Ok tree_block3, s3)" by (simp add: s2_def s3_def tree_insert_defs)
  then have "tree_step id tree_blocks s2 s3" by (rule step_block [rotated]) (simp add: mem)
  moreover have "insert_block tree_block4 s3 = (Ok tree_block4, s4)" by (simp add: s3_def s4_def tree_insert_defs)
  then have "tree_step id tree_blocks s3 s4" by (rule step_block [rotated]) (simp add: mem)
  moreover have "tree_step id tree_blocks s4 sample_tree"
  proof (rule step_ordered)
    have get: "get_block s4 3 = Some tree_block3" "get_block s4 1 = Some tree_block1" "ordered_root_id s4 = 1"
      by (simp_all add: s4_def tree_with_def tree_linked_def get_block_def get_linkable_block_def bt_get_def)
    show "descends s4 (ordered_root_id s4) 3"
      using tree_path_step(2) [OF get(1), of 1 "[]"] tree_path_step(1) [OF get(2), of 1 "[tree_block3]"] tree_round_gt
      by (simp add: descends_def get path_from_root_to_block_def)
    show "update_ordered_root 3 s4 = (Ok () :: (unit, anyhow) result, sample_tree)"
      by (simp add: update_ordered_root_def bind_h_def lift_h_def modify_h_def rust_assert_def block_exists_iff get
          sample_tree_def flip: s4_def)
  qed
  ultimately show ?thesis by (blast intro: state_step)
qed

lemma sample_commit_ready:
  "commit_ready sample_tree [tree_block3] (tree_cert (tree_info 3 3)) (tree_decision (tree_info 3 3))"
proof -
  have get: "get_block sample_tree 3 = Some tree_block3" "get_block sample_tree 1 = Some tree_block1"
    by (simp_all add: sample_get_block)
  have "descends sample_tree 1 3"
    using tree_path_step(2) [OF get(1), of 1 "[]"] tree_path_step(1) [OF get(2), of 1 "[tree_block3]"] tree_round_gt
    by (simp add: descends_def get path_from_root_to_block_def)
  moreover have "descends sample_tree 3 3"
    using tree_path_step(1) [OF get(1), of 3 "[]"] by (simp add: descends_def get path_from_root_to_block_def)
  ultimately show ?thesis
    by (simp add: commit_ready_def match_ordered_only_def qc_commit_info_def lis_commit_info_def tree_cert_def
        tree_decision_def tree_info_def sample_tree_def tree_with_def)
qed

lemma sample_commit:
  "commit_callback id [tree_block3] (tree_cert (tree_info 3 3)) (tree_decision (tree_info 3 3)) sample_tree =
     Some (Ok [1, 2] :: (_, anyhow) result, sample_committed)"
proof -
  have get: "get_linkable_block sample_tree x =
     (if x = 1 then Some (tree_linked tree_block1 [2, 3]) else if x = 2 then Some (tree_linked tree_block2 [])
      else if x = 3 then Some (tree_linked tree_block3 [4]) else if x = 4 then Some (tree_linked tree_block4 []) else None)" for x
    by (simp add: get_linkable_block_def bt_get_def sample_tree_def tree_with_def)
  have root: "commit_root_id sample_tree = 1" by (simp add: sample_tree_def tree_with_def)
  have p1: "push_children id sample_tree 3 (tree_linked tree_block1 [2, 3]) [] = (Ok [tree_linked tree_block2 []] :: (_, anyhow) result)"
    by (simp add: push_children_def get expect_def tree_linked_def)
  have p2: "push_children id sample_tree 3 (tree_linked tree_block2 []) [] = (Ok [] :: (_, anyhow) result)"
    by (simp add: push_children_def tree_linked_def)
  have "prune_loop id sample_tree 3 [] [1, 2] = Some (Ok [1, 2] :: (_, anyhow) result)"
    by (subst prune_loop.simps) simp
  then have "prune_loop id sample_tree 3 [tree_linked tree_block2 []] [1] = Some (Ok [1, 2] :: (_, anyhow) result)"
    by (subst prune_loop.simps) (simp add: p2 lb_id_def, simp add: tree_linked_def)
  then have "prune_loop id sample_tree 3 [tree_linked tree_block1 [2, 3]] [] = Some (Ok [1, 2] :: (_, anyhow) result)"
    by (subst prune_loop.simps) (simp add: p1 lb_id_def, simp add: tree_linked_def)
  then have find: "find_blocks_to_prune id sample_tree 3 = Some (Ok [1, 2] :: (_, anyhow) result)"
    by (simp add: find_blocks_to_prune_def linkable_root_def root get expect_def)
  have merged: "create_merged_with_executed_state (tree_cert (tree_info 3 3)) (tree_decision (tree_info 3 3)) =
      Ok (tree_cert (tree_info 3 3))"
    by (simp add: create_merged_with_executed_state_def ensure_def match_ordered_only_def qc_commit_info_def
        lis_commit_info_def tree_cert_def)
  have croot: "commit_root sample_tree = (Ok tree_block1 :: (_, anyhow) result)"
    by (simp add: commit_root_def root sample_get_block expect_def)
  have "bind_h (update_highest_commit_cert (tree_cert (tree_info 3 3))) (\<lambda>_. return_h [1, 2])
      (process_pruned_blocks [1, 2] sample_tree) = (Ok [1, 2] :: (_, anyhow) result, sample_committed)"
    by (simp add: process_pruned_blocks_def sample_tree_def tree_with_def update_highest_commit_cert_def bind_h_def
        modify_h_def return_h_def update_commit_root_def lift_h_def rust_assert_def block_exists_def bt_get_def
        qc_commit_info_def tree_cert_def tree_decision_def tree_info_def sample_committed_def)
  then show ?thesis by (simp add: commit_callback_def merged croot find)
qed


lemma sample_committed_state: "tree_state id tree_blocks sample_committed"
  by (rule state_step [OF sample_tree_state step_commit [OF sample_commit_ready sample_commit]])

theorem tree_paths_return_witness:
  "\<exists>c d. path_from_commit_root sample_tree 4 = Some (Ok c :: (_, anyhow) result) \<and>
    path_from_ordered_root sample_tree 4 = Some (Ok d :: (_, anyhow) result) \<and>
    (case c of None \<Rightarrow> 4 \<notin> descendants sample_tree (commit_root_id sample_tree)
     | Some path \<Rightarrow> 4 \<in> descendants sample_tree (commit_root_id sample_tree) \<and>
         block_chain sample_tree (commit_root_id sample_tree) path 4) \<and>
    (case d of None \<Rightarrow> 4 \<notin> descendants sample_tree (ordered_root_id sample_tree)
     | Some path \<Rightarrow> 4 \<in> descendants sample_tree (ordered_root_id sample_tree) \<and>
         block_chain sample_tree (ordered_root_id sample_tree) path 4)"
  by (rule tree_paths_return [OF tree_blocks_family _ sample_tree_state]) simp

theorem commit_prunes_exactly_witness:
  "set [1, 2] = descendants sample_tree (commit_root_id sample_tree) - descendants sample_tree (eb_id tree_block3) \<and>
   length (pruned_block_ids sample_committed) \<le> max_pruned_blocks_in_mem sample_tree"
  using commit_prunes_exactly [OF tree_blocks_family _ sample_tree_state sample_commit_ready, where 'e = anyhow]
  by (auto simp: sample_commit)

theorem block_on_pruned_parent_stays_witness:
  "\<exists>t1. insert_block tree_block5 sample_committed = (Ok tree_block5, t1) \<and>
    (\<forall>t'. (tree_step id tree_blocks)\<^sup>*\<^sup>* t1 t' \<longrightarrow>
       get_block t' (eb_id tree_block5) = Some tree_block5 \<and> eb_id tree_block5 \<notin> descendants t' (commit_root_id t'))"
proof (rule block_on_pruned_parent_stays [OF tree_blocks_family _ sample_committed_state])
  show "get_block sample_committed (eb_id tree_block5) = None"
    by (simp add: sample_committed_def get_block_def get_linkable_block_def bt_get_def sample_tree_def tree_with_def)
  show "eb_parent_id tree_block5 \<in> set (pruned_block_ids sample_committed)" by (simp add: sample_committed_def)
qed (simp_all add: tree_blocks_def)

end
