(* ===== verification/Leader_Election.thy ===== *)
theory Leader_Election
  imports Block Epoch_Change
begin

text \<open>
  The election of proposers, \<^verbatim>\<open>consensus/src/liveness/\<close>: the trait of elections and the weighted choice
  (\<^verbatim>\<open>proposer_election.rs\<close>), the rotating, the fixed, the caching and the unequivocal election, and the
  election by reputation (\<^verbatim>\<open>leader_reputation.rs\<close>) with its view of the committed history.

  An election is a function of the round that may panic. The database behind the history and the
  decoding of its events are parameters; so is the participation ratio, which the code computes in
  floating point and only hands on.
\<close>

section \<open>The weighted choice\<close>

type_synonym 'e election = "round \<Rightarrow> (author, 'e) result"

definition is_valid_proposer :: "'e election \<Rightarrow> author \<Rightarrow> round \<Rightarrow> (bool, 'e) result" where
  "is_valid_proposer get_valid_proposer author rnd = map_ok (\<lambda>a. a = author) (get_valid_proposer rnd)"

definition u128_from_le_bytes :: "u8 list \<Rightarrow> u128" where
  "u128_from_le_bytes bytes = of_nat (horner_sum unat 256 bytes)"

definition u64_to_le_bytes :: "u64 \<Rightarrow> u8 list" where
  "u64_to_le_bytes w = map (\<lambda>i. ucast (drop_bit (8 * i) w)) [0..<8]"

definition next_in_range :: "(u8 list \<Rightarrow> hash_value) \<Rightarrow> u8 list \<Rightarrow> u128 \<Rightarrow> (u128, 'e) result" where
  "next_in_range sha3 state max_value =
     and_then (rust_assert (max_value \<noteq> 0)) (\<lambda>_.
     Ok (u128_from_le_bytes (take 16 (hv_bytes (sha3 state))) mod max_value))"

text \<open>\<^verbatim>\<open>slice::binary_search_by\<close> of the standard library: \<^verbatim>\<open>Ok\<close> with a matching index, \<^verbatim>\<open>Err\<close> with an insertion point.\<close>

datatype comparison = Less_than | Equal_to | Greater_than

function binary_search_loop :: "('a \<Rightarrow> comparison) \<Rightarrow> 'a list \<Rightarrow> nat \<Rightarrow> nat \<Rightarrow> (nat, nat) result" where
  "binary_search_loop f xs left right =
     (if left < right then
        let mid = left + (right - left) div 2 in
        case f (xs ! mid) of
          Less_than \<Rightarrow> binary_search_loop f xs (mid + 1) right
        | Greater_than \<Rightarrow> binary_search_loop f xs left mid
        | Equal_to \<Rightarrow> Ok mid
      else Err left)"
  by pat_completeness auto
termination
  by (relation "measure (\<lambda>(f, xs, left, right). right - left)") auto

definition binary_search_by :: "('a \<Rightarrow> comparison) \<Rightarrow> 'a list \<Rightarrow> (nat, nat) result" where
  "binary_search_by f xs = binary_search_loop f xs 0 (length xs)"

definition unwrap_err :: "('a, 'f) result \<Rightarrow> ('f, 'e) result" where
  "unwrap_err r = (case r of Err e \<Rightarrow> Ok e | _ \<Rightarrow> Panic)"

definition choose_index :: "(u8 list \<Rightarrow> hash_value) \<Rightarrow> u128 list \<Rightarrow> u8 list \<Rightarrow> (nat, 'e) result" where
  "choose_index sha3 weights state =
     and_then (for_each (\<lambda>(total_weight, cumulative) w.
         and_then (expect (checked_add total_weight w)) (\<lambda>total. Ok (total, cumulative @ [total])))
       (0, []) weights) (\<lambda>(total_weight, cumulative).
     and_then (next_in_range sha3 state total_weight) (\<lambda>chosen_weight.
     unwrap_err (binary_search_by (\<lambda>w. if w \<le> chosen_weight then Less_than else Greater_than) cumulative)))"

section \<open>Rotating, fixed and cached elections\<close>

record rotating_proposer =
  rp_proposers :: "author list"
  rp_contiguous_rounds :: u32

definition rotating_get_valid_proposer :: "rotating_proposer \<Rightarrow> 'e election" where
  "rotating_get_valid_proposer rp rnd =
     and_then (rust_assert (rp_contiguous_rounds rp \<noteq> 0)) (\<lambda>_.
     and_then (rust_assert (of_nat (length (rp_proposers rp)) \<noteq> (0 :: u64))) (\<lambda>_.
     let i = unat ((rnd div ucast (rp_contiguous_rounds rp)) mod of_nat (length (rp_proposers rp))) in
     if i < length (rp_proposers rp) then Ok (rp_proposers rp ! i) else Panic))"

definition choose_leader :: "author list \<Rightarrow> (author, 'e) result" where
  "choose_leader peers = (if peers = [] then Panic else Ok (Min (set peers)))"

record round_proposer =
  rnp_proposers :: "(round, author) btree_map"
  rnp_default_proposer :: author

definition round_get_valid_proposer :: "round_proposer \<Rightarrow> 'e election" where
  "round_get_valid_proposer rp rnd =
     Ok (case bt_get (rnp_proposers rp) rnd of None \<Rightarrow> rnp_default_proposer rp | Some a \<Rightarrow> a)"

text \<open>\<^verbatim>\<open>CachedProposerElection\<close>; \<open>elect\<close> is the inner election with its participation ratio.\<close>

record 'f cached_election =
  recent_elections :: "(round, author \<times> 'f) btree_map"
  ce_window :: u64

definition bt_split_off :: "'k::linorder \<Rightarrow> ('k, 'v) btree_map \<Rightarrow> ('k, 'v) btree_map" where
  "bt_split_off k m = filter (\<lambda>(k', _). k \<le> k') m"

definition get_or_compute_entry ::
  "(round \<Rightarrow> (author \<times> 'f, 'e) result) \<Rightarrow> round \<Rightarrow> ('f cached_election, author \<times> 'f, 'e) handler" where
  "get_or_compute_entry elect rnd =
     bind_h (modify_h (\<lambda>ce. if rnd > ce_window ce
       then ce\<lparr>recent_elections := bt_split_off (rnd - ce_window ce) (recent_elections ce)\<rparr> else ce)) (\<lambda>_ ce.
     case bt_get (recent_elections ce) rnd of
       Some entry \<Rightarrow> (Ok entry, ce)
     | None \<Rightarrow>
         bind_h (lift_h (\<lambda>_. elect rnd)) (\<lambda>entry.
         bind_h (modify_h (\<lambda>ce. ce\<lparr>recent_elections := bt_insert rnd entry (recent_elections ce)\<rparr>)) (\<lambda>_.
         return_h entry)) ce)"

section \<open>Unequivocal proposals\<close>

text \<open>\<^verbatim>\<open>UnequivocalProposerElection\<close>: its state is the round and the id of the last accepted proposal.\<close>

type_synonym already_proposed = "round \<times> hash_value"

definition unequivocal_new :: already_proposed where
  "unequivocal_new = (0, 0)"

definition is_valid_proposal :: "'e election \<Rightarrow> block \<Rightarrow> (already_proposed, bool, 'e) handler" where
  "is_valid_proposal get_valid_proposer b already_proposed =
     (case b_author b of
        None \<Rightarrow> (Ok False, already_proposed)
      | Some author \<Rightarrow>
          bind_h (lift_h (\<lambda>_. is_valid_proposer get_valid_proposer author (b_round b))) (\<lambda>valid_author.
          if \<not> valid_author then
            bind_h (lift_h (\<lambda>_. get_valid_proposer (b_round b))) (\<lambda>_. return_h False)
          else (\<lambda>already_proposed.
            if b_round b > fst already_proposed then (Ok True, (b_round b, b_id b))
            else if b_round b = fst already_proposed then (Ok (snd already_proposed = b_id b), already_proposed)
            else (Ok False, already_proposed))) already_proposed)"

section \<open>The committed history\<close>

record new_block_event =
  nbe_hash :: account_address
  nbe_epoch :: u64
  nbe_round :: u64
  nbe_height :: u64
  nbe_previous_block_votes_bitvec :: "u8 list"
  nbe_proposer :: account_address
  nbe_failed_proposer_indices :: "u64 list"
  nbe_timestamp :: u64

record versioned_new_block_event =
  vnbe_event :: new_block_event
  vnbe_version :: u64

text \<open>
  What the backend asks of the database: the latest version, the newest events up to a limit, with the
  bytes of the event and its version, and the accumulator root of a version.
\<close>

record db_reader =
  db_latest_version :: "u64 option"
  db_get_events :: "u64 \<Rightarrow> u64 \<Rightarrow> ((u8 list \<times> u64) list, anyhow) result"
  db_accumulator_root_hash :: "u64 \<Rightarrow> hash_value option"

record aptos_db_backend =
  ab_window_size :: u64
  ab_seek_len :: u64
  ab_db_result :: "versioned_new_block_event list \<times> u64 \<times> bool"

definition aptos_db_backend_new :: "u64 \<Rightarrow> u64 \<Rightarrow> aptos_db_backend" where
  "aptos_db_backend_new window_size seek_len =
     \<lparr>ab_window_size = window_size, ab_seek_len = seek_len, ab_db_result = ([], 0, True)\<rparr>"

definition epoch_round_le :: "u64 \<times> round \<Rightarrow> u64 \<times> round \<Rightarrow> bool" where
  "epoch_round_le a b \<longleftrightarrow> fst a < fst b \<or> (fst a = fst b \<and> snd a \<le> snd b)"

definition event_key :: "versioned_new_block_event \<Rightarrow> u64 \<times> round" where
  "event_key e = (nbe_epoch (vnbe_event e), nbe_round (vnbe_event e))"

definition refresh_db_result ::
  "(u8 list \<Rightarrow> (new_block_event, anyhow) result) \<Rightarrow> db_reader \<Rightarrow> u64 \<Rightarrow>
   (aptos_db_backend, versioned_new_block_event list \<times> u64 \<times> bool, anyhow) handler" where
  "refresh_db_result decode db latest_db_version ab =
     bind_h (lift_h (\<lambda>ab. plus_or_panic (ab_window_size ab) (ab_seek_len ab))) (\<lambda>limit.
     bind_h (lift_h (\<lambda>_. db_get_events db limit latest_db_version)) (\<lambda>events.
     bind_h (lift_h (\<lambda>_. for_each (\<lambda>acc (bytes, ver). map_ok (\<lambda>e. acc @ [\<lparr>vnbe_event = e, vnbe_version = ver\<rparr>]) (decode bytes))
       [] events)) (\<lambda>new_block_events.
     let max_returned_version = (case events of [] \<Rightarrow> 0 | (_, ver) # _ \<Rightarrow> ver);
         hit_end = length new_block_events < unat limit;
         r = (new_block_events, max latest_db_version max_returned_version, hit_end) in
     bind_h (modify_h (\<lambda>ab. ab\<lparr>ab_db_result := r\<rparr>)) (\<lambda>_.
     return_h r)))) ab"

definition get_from_db_result ::
  "aptos_db_backend \<Rightarrow> db_reader \<Rightarrow> u64 \<Rightarrow> round \<Rightarrow> versioned_new_block_event list \<Rightarrow> new_block_event list \<times> hash_value" where
  "get_from_db_result ab db target_epoch target_round events =
     (let (max_version, r) = foldl (\<lambda>(max_version, r) event.
            if epoch_round_le (event_key event) (target_epoch, target_round) \<and> length r < unat (ab_window_size ab)
            then (max max_version (vnbe_version event), r @ [vnbe_event event]) else (max_version, r)) (0, []) events
      in (r, case db_accumulator_root_hash db max_version of Some h \<Rightarrow> h | None \<Rightarrow> 0))"

definition get_block_metadata ::
  "(u8 list \<Rightarrow> (new_block_event, anyhow) result) \<Rightarrow> db_reader \<Rightarrow> u64 \<Rightarrow> round \<Rightarrow>
   (aptos_db_backend, new_block_event list \<times> hash_value, anyhow) handler" where
  "get_block_metadata decode db target_epoch target_round ab =
     (let (events, ver, hit_end) = ab_db_result ab;
          has_larger = (case events of [] \<Rightarrow> False | e # _ \<Rightarrow> epoch_round_le (target_epoch, target_round) (event_key e));
          latest_db_version = (case db_latest_version db of Some v \<Rightarrow> v | None \<Rightarrow> 0) in
      if \<not> has_larger \<and> ver < latest_db_version then
        (case refresh_db_result decode db latest_db_version ab of
           (Ok (events, _, _), ab') \<Rightarrow> (Ok (get_from_db_result ab' db target_epoch target_round events), ab')
         | (Err _, ab') \<Rightarrow> (Ok ([], 0), ab')
         | (Panic, ab') \<Rightarrow> (Panic, ab'))
      else (Ok (get_from_db_result ab db target_epoch target_round events), ab))"

section \<open>Reputation\<close>

record new_block_event_aggregation =
  voter_window_size :: nat
  proposer_window_size :: nat
  reputation_window_from_stale_end :: bool

definition bitvec_to_voters :: "author list \<Rightarrow> bit_vec \<Rightarrow> (author list, string) result" where
  "bitvec_to_voters validators bitvec =
     (if required_buckets (of_nat (length validators)) \<noteq> num_buckets bitvec
      then Err ''bitvec bucket does not match validators len''
      else Ok (map snd (filter (\<lambda>(index, _). is_set bitvec (of_nat index)) (enumerate 0 validators))))"

definition indices_to_validators :: "author list \<Rightarrow> u64 list \<Rightarrow> (author list, string) result" where
  "indices_to_validators validators indices =
     for_each (\<lambda>acc index.
       if unat index < length validators then Ok (acc @ [validators ! unat index])
       else Err ''index is larger than number of validators'') [] indices"

definition history_iter ::
  "new_block_event list \<Rightarrow> (u64, author list) btree_map \<Rightarrow> nat \<Rightarrow> bool \<Rightarrow> (new_block_event list, 'e) result" where
  "history_iter history epoch_to_candidates window_size from_stale_end =
     map_ok (filter (\<lambda>meta. bt_get epoch_to_candidates (nbe_epoch meta) \<noteq> None))
       (if from_stale_end then Ok (drop (length history - window_size) history)
        else and_then (rust_assert (history = [] \<or>
                 epoch_round_le (nbe_epoch (last history), nbe_round (last history))
                   (nbe_epoch (hd history), nbe_round (hd history)))) (\<lambda>_.
             Ok (take window_size history)))"

definition count_one :: "(author, u32) btree_map \<Rightarrow> author \<Rightarrow> ((author, u32) btree_map, 'e) result" where
  "count_one m a =
     map_ok (\<lambda>c. bt_insert a c m) (plus_or_panic (case bt_get m a of Some c \<Rightarrow> c | None \<Rightarrow> 0) 1)"

definition count_votes_custom ::
  "(u64, author list) btree_map \<Rightarrow> new_block_event list \<Rightarrow> nat \<Rightarrow> bool \<Rightarrow> ((author, u32) btree_map, 'e) result" where
  "count_votes_custom epoch_to_candidates history window_size from_stale_end =
     and_then (history_iter history epoch_to_candidates window_size from_stale_end) (\<lambda>metas.
     for_each (\<lambda>m meta.
         and_then (expect (bt_get epoch_to_candidates (nbe_epoch meta))) (\<lambda>candidates.
         case bv_from_bytes (nbe_previous_block_votes_bitvec meta) of
           Ok bitvec \<Rightarrow>
             (case bitvec_to_voters candidates bitvec of
                Ok voters \<Rightarrow> for_each count_one m voters
              | Err _ \<Rightarrow> Ok m
              | Panic \<Rightarrow> Panic)
         | _ \<Rightarrow> Panic))
       bt_empty metas)"

definition count_proposals_custom ::
  "(u64, author list) btree_map \<Rightarrow> new_block_event list \<Rightarrow> nat \<Rightarrow> bool \<Rightarrow> ((author, u32) btree_map, 'e) result" where
  "count_proposals_custom epoch_to_candidates history window_size from_stale_end =
     and_then (history_iter history epoch_to_candidates window_size from_stale_end) (\<lambda>metas.
     for_each (\<lambda>m meta. count_one m (nbe_proposer meta)) bt_empty metas)"

definition count_votes ::
  "new_block_event_aggregation \<Rightarrow> (u64, author list) btree_map \<Rightarrow> new_block_event list \<Rightarrow> ((author, u32) btree_map, 'e) result" where
  "count_votes agg epoch_to_candidates history =
     count_votes_custom epoch_to_candidates history (voter_window_size agg) (reputation_window_from_stale_end agg)"

definition count_proposals ::
  "new_block_event_aggregation \<Rightarrow> (u64, author list) btree_map \<Rightarrow> new_block_event list \<Rightarrow> ((author, u32) btree_map, 'e) result" where
  "count_proposals agg epoch_to_candidates history =
     count_proposals_custom epoch_to_candidates history (proposer_window_size agg) (reputation_window_from_stale_end agg)"

definition count_failed_proposals ::
  "new_block_event_aggregation \<Rightarrow> (u64, author list) btree_map \<Rightarrow> new_block_event list \<Rightarrow> ((author, u32) btree_map, 'e) result" where
  "count_failed_proposals agg epoch_to_candidates history =
     and_then (history_iter history epoch_to_candidates (proposer_window_size agg) (reputation_window_from_stale_end agg)) (\<lambda>metas.
     for_each (\<lambda>m meta.
         and_then (expect (bt_get epoch_to_candidates (nbe_epoch meta))) (\<lambda>candidates.
         case indices_to_validators candidates (nbe_failed_proposer_indices meta) of
           Ok failed_proposers \<Rightarrow> for_each count_one m failed_proposers
         | Err _ \<Rightarrow> Ok m
         | Panic \<Rightarrow> Panic))
       bt_empty metas)"

definition sum_counts :: "(author, u32) btree_map \<Rightarrow> (u32, 'e) result" where
  "sum_counts m = for_each (\<lambda>s c. plus_or_panic s c) 0 (bt_values m)"

text \<open>The three counts; the sums are only reported as metrics, but they are computed in 32 bits.\<close>

definition get_aggregated_metrics ::
  "new_block_event_aggregation \<Rightarrow> (u64, author list) btree_map \<Rightarrow> new_block_event list \<Rightarrow>
   ((author, u32) btree_map \<times> (author, u32) btree_map \<times> (author, u32) btree_map, 'e) result" where
  "get_aggregated_metrics agg epoch_to_candidates history =
     and_then (count_votes agg epoch_to_candidates history) (\<lambda>votes.
     and_then (count_proposals agg epoch_to_candidates history) (\<lambda>proposals.
     and_then (count_failed_proposals agg epoch_to_candidates history) (\<lambda>failed_proposals.
     and_then (sum_counts proposals) (\<lambda>_.
     and_then (sum_counts failed_proposals) (\<lambda>_.
     Ok (votes, proposals, failed_proposals))))))"

record proposer_and_voter_heuristic =
  active_weight :: u64
  inactive_weight :: u64
  failed_weight :: u64
  failure_threshold_percent :: u32
  ph_aggregation :: new_block_event_aggregation

definition count_of :: "(author, u32) btree_map \<Rightarrow> author \<Rightarrow> u32" where
  "count_of m a = (case bt_get m a of Some c \<Rightarrow> c | None \<Rightarrow> 0)"

definition author_weight :: "proposer_and_voter_heuristic \<Rightarrow> u32 \<Rightarrow> u32 \<Rightarrow> u32 \<Rightarrow> (u64, 'e) result" where
  "author_weight h cur_votes cur_proposals cur_failed_proposals =
     and_then (times_or_panic cur_failed_proposals 100) (\<lambda>failed_percent.
     and_then (plus_or_panic cur_proposals cur_failed_proposals) (\<lambda>total.
     and_then (times_or_panic total (failure_threshold_percent h)) (\<lambda>threshold.
     Ok (if failed_percent > threshold then failed_weight h
         else if cur_proposals > 0 \<or> cur_votes > 0 then active_weight h
         else inactive_weight h))))"

definition get_weights ::
  "proposer_and_voter_heuristic \<Rightarrow> u64 \<Rightarrow> (u64, author list) btree_map \<Rightarrow> new_block_event list \<Rightarrow> (u64 list, 'e) result" where
  "get_weights h epoch epoch_to_candidates history =
     and_then (rust_assert (bt_get epoch_to_candidates epoch \<noteq> None)) (\<lambda>_.
     and_then (get_aggregated_metrics (ph_aggregation h) epoch_to_candidates history) (\<lambda>(votes, proposals, failed_proposals).
     and_then (expect (bt_get epoch_to_candidates epoch)) (\<lambda>candidates.
     for_each (\<lambda>ws author. map_ok (\<lambda>w. ws @ [w])
         (author_weight h (count_of votes author) (count_of proposals author) (count_of failed_proposals author)))
       [] candidates)))"

section \<open>Election by reputation\<close>

text \<open>
  \<^verbatim>\<open>LeaderReputation\<close>. Its backend, its heuristic and the chain health it reports are arguments of the
  election.
\<close>

record leader_reputation =
  lr_epoch :: u64
  lr_epoch_to_proposers :: "(u64, author list) btree_map"
  lr_voting_powers :: "u64 list"
  lr_exclude_round :: u64
  lr_use_root_hash :: bool

definition leader_reputation_new ::
  "u64 \<Rightarrow> (u64, author list) btree_map \<Rightarrow> u64 list \<Rightarrow> u64 \<Rightarrow> bool \<Rightarrow> (leader_reputation, 'e) result" where
  "leader_reputation_new epoch epoch_to_proposers voting_powers exclude_round use_root_hash =
     and_then (expect (bt_get epoch_to_proposers epoch)) (\<lambda>proposers.
     and_then (rust_assert (length proposers = length voting_powers)) (\<lambda>_.
     Ok \<lparr>lr_epoch = epoch, lr_epoch_to_proposers = epoch_to_proposers, lr_voting_powers = voting_powers,
         lr_exclude_round = exclude_round, lr_use_root_hash = use_root_hash\<rparr>))"

definition saturating_sub :: "'w::len word \<Rightarrow> 'w word \<Rightarrow> 'w word" where
  "saturating_sub a b = (if b \<le> a then a - b else 0)"

definition stake_weights :: "u64 list \<Rightarrow> u64 list \<Rightarrow> (u128 list, 'e) result" where
  "stake_weights weights voting_powers =
     for_each (\<lambda>acc (i, w). if i < length voting_powers
         then map_ok (\<lambda>x. acc @ [x]) (times_or_panic (ucast w) (ucast (voting_powers ! i))) else Panic)
       [] (enumerate 0 weights)"

definition election_state :: "leader_reputation \<Rightarrow> hash_value \<Rightarrow> round \<Rightarrow> u8 list" where
  "election_state lr root_hv rnd =
     (if lr_use_root_hash lr
      then hv_bytes root_hv @ u64_to_le_bytes (lr_epoch lr) @ u64_to_le_bytes rnd
      else u64_to_le_bytes (lr_epoch lr) @ u64_to_le_bytes rnd)"

definition get_valid_proposer_and_ratio ::
  "(u8 list \<Rightarrow> hash_value) \<Rightarrow> (new_block_event list \<Rightarrow> round \<Rightarrow> ('f, 'e) result) \<Rightarrow>
   (u64 \<Rightarrow> (u64, author list) btree_map \<Rightarrow> new_block_event list \<Rightarrow> (u64 list, 'e) result) \<Rightarrow>
   (u64 \<Rightarrow> round \<Rightarrow> (new_block_event list \<times> hash_value, 'e) result) \<Rightarrow> leader_reputation \<Rightarrow> round \<Rightarrow>
   (author \<times> 'f, 'e) result" where
  "get_valid_proposer_and_ratio sha3 chain_health heuristic backend lr rnd =
     (let target_round = saturating_sub rnd (lr_exclude_round lr) in
      and_then (backend (lr_epoch lr) target_round) (\<lambda>(sliding_window, root_hv).
      and_then (chain_health sliding_window rnd) (\<lambda>ratio.
      and_then (heuristic (lr_epoch lr) (lr_epoch_to_proposers lr) sliding_window) (\<lambda>weights.
      and_then (expect (bt_get (lr_epoch_to_proposers lr) (lr_epoch lr))) (\<lambda>proposers.
      and_then (rust_assert (length weights = length proposers)) (\<lambda>_.
      and_then (stake_weights weights (lr_voting_powers lr)) (\<lambda>ws.
      and_then (choose_index sha3 ws (election_state lr root_hv rnd)) (\<lambda>chosen_index.
      if chosen_index < length proposers then Ok (proposers ! chosen_index, ratio) else Panic))))))))"

section \<open>Proposers of the recent epochs\<close>

text \<open>
  \<^verbatim>\<open>extract_epoch_to_proposers_impl\<close> goes through the epochs from the last one backwards; \<open>latest\<close> marks
  the first step.
\<close>

fun extract_loop ::
  "u64 \<Rightarrow> author list \<Rightarrow> u64 \<Rightarrow> bool \<Rightarrow> (epoch_state \<times> u64) list \<Rightarrow> u64 \<Rightarrow> (u64, author list) btree_map \<Rightarrow>
   ((u64, author list) btree_map, anyhow) result" where
  "extract_loop epoch proposers needed_rounds latest [] num_rounds acc = Ok acc"
| "extract_loop epoch proposers needed_rounds latest ((next_epoch_state, cur_epoch_rounds) # rest) num_rounds acc =
     (let next_epoch_proposers = get_ordered_account_addresses (es_verifier next_epoch_state) in
      and_then (if latest then
          and_then (ensure (epoch = es_epoch next_epoch_state)
            (Anyhow ''fetched epoch_ending ledger_infos are for a wrong epoch'')) (\<lambda>_.
          ensure (proposers = next_epoch_proposers)
            (Anyhow ''proposers from state and fetched epoch_ending ledger_infos are missaligned''))
        else Ok ()) (\<lambda>_.
      let acc' = bt_insert (es_epoch next_epoch_state) next_epoch_proposers acc in
      if num_rounds > needed_rounds then Ok acc'
      else and_then (plus_or_panic num_rounds cur_epoch_rounds) (\<lambda>num_rounds'.
        extract_loop epoch proposers needed_rounds False rest num_rounds' acc')))"

definition extract_epoch_to_proposers_impl ::
  "(epoch_state \<times> u64) list \<Rightarrow> u64 \<Rightarrow> author list \<Rightarrow> u64 \<Rightarrow> ((u64, author list) btree_map, anyhow) result" where
  "extract_epoch_to_proposers_impl next_epoch_states_and_cur_epoch_rounds epoch proposers needed_rounds =
     and_then (rust_assert (next_epoch_states_and_cur_epoch_rounds \<noteq> [])) (\<lambda>_.
     and_then (extract_loop epoch proposers needed_rounds True (rev next_epoch_states_and_cur_epoch_rounds) 0 bt_empty) (\<lambda>acc.
     and_then (ensure (bt_get acc epoch \<noteq> None) (Anyhow ''Current epoch not in fetched map'')) (\<lambda>_.
     Ok acc)))"

definition extract_epoch_to_proposers ::
  "epoch_change_proof \<Rightarrow> u64 \<Rightarrow> author list \<Rightarrow> u64 \<Rightarrow> ((u64, author list) btree_map, anyhow) result" where
  "extract_epoch_to_proposers prf epoch proposers needed_rounds =
     and_then (for_each (\<lambda>acc l.
         map_ok (\<lambda>st. acc @ [(st, li_round (lis_ledger_info l))])
           (ok_or (li_next_epoch_state (lis_ledger_info l)) (Anyhow ''no cur_epoch_state'')))
       [] (ecp_ledger_info_with_sigs prf)) (\<lambda>states.
     extract_epoch_to_proposers_impl states epoch proposers needed_rounds)"

section \<open>The weighted choice is proportional\<close>

declare binary_search_loop.simps [simp del]

lemma binary_search_loop_partition:
  assumes f: "\<And>x. f x = (if P x then Less_than else Greater_than)"
    and anti: "\<And>i j. i < j \<Longrightarrow> j < length xs \<Longrightarrow> P (xs ! j) \<Longrightarrow> P (xs ! i)"
  shows "left \<le> right \<Longrightarrow> right \<le> length xs \<Longrightarrow> \<forall>i < left. P (xs ! i) \<Longrightarrow>
    \<forall>i. right \<le> i \<and> i < length xs \<longrightarrow> \<not> P (xs ! i) \<Longrightarrow>
    \<exists>k \<le> right. binary_search_loop f xs left right = Err k \<and> (\<forall>i < k. P (xs ! i)) \<and>
      (\<forall>i. k \<le> i \<and> i < length xs \<longrightarrow> \<not> P (xs ! i))"
proof (induction "right - left" arbitrary: left right rule: less_induct)
  case less
  show ?case
  proof (cases "left < right")
    case False
    then show ?thesis using less.prems by (subst binary_search_loop.simps) auto
  next
    case True
    define mid where "mid = left + (right - left) div 2"
    have mid: "left \<le> mid" "mid < right" using True by (auto simp: mid_def)
    show ?thesis
    proof (cases "P (xs ! mid)")
      case P: True
      have "\<forall>i < mid + 1. P (xs ! i)"
      proof (intro allI impI)
        fix i assume "i < mid + 1"
        then show "P (xs ! i)" using P anti [of i mid] mid less.prems(2) by (cases "i = mid") auto
      qed
      then have "\<exists>k \<le> right. binary_search_loop f xs (mid + 1) right = Err k \<and> (\<forall>i < k. P (xs ! i)) \<and>
          (\<forall>i. k \<le> i \<and> i < length xs \<longrightarrow> \<not> P (xs ! i))"
        using mid less.prems by (intro less.hyps) auto
      then show ?thesis using True P by (subst binary_search_loop.simps) (simp add: f Let_def flip: mid_def)
    next
      case P: False
      have "\<forall>i. mid \<le> i \<and> i < length xs \<longrightarrow> \<not> P (xs ! i)"
        using P anti [of mid] by (metis le_neq_implies_less)
      then have "\<exists>k \<le> mid. binary_search_loop f xs left mid = Err k \<and> (\<forall>i < k. P (xs ! i)) \<and>
          (\<forall>i. k \<le> i \<and> i < length xs \<longrightarrow> \<not> P (xs ! i))"
        using mid less.prems by (intro less.hyps) auto
      then obtain k where "k \<le> mid" "binary_search_loop f xs left mid = Err k"
        "\<forall>i < k. P (xs ! i)" "\<forall>i. k \<le> i \<and> i < length xs \<longrightarrow> \<not> P (xs ! i)" by blast
      then show ?thesis using True P mid by (subst binary_search_loop.simps) (auto simp: f Let_def simp flip: mid_def)
    qed
  qed
qed

abbreviation sum_to :: "'w::len word list \<Rightarrow> nat \<Rightarrow> nat" where
  "sum_to ws n \<equiv> sum_list (map unat (take n ws))"

lemma cumulative_weights:
  fixes ws :: "u128 list"
  assumes "unat t + sum_list (map unat ws) < 2 ^ 128"
  shows "\<exists>total cs. for_each (\<lambda>(total, cs) w. and_then (expect (checked_add total w)) (\<lambda>total. Ok (total, cs @ [total])))
      (t, acc) ws = (Ok (total, acc @ cs) :: (_, 'e) result) \<and>
    unat total = unat t + sum_list (map unat ws) \<and> length cs = length ws \<and>
    (\<forall>i < length ws. unat (cs ! i) = unat t + sum_to ws (Suc i))"
  using assms
proof (induction ws arbitrary: t acc)
  case (Cons w ws)
  have lt: "unat t + unat w < 2 ^ 128" using Cons.prems by simp
  then have add: "unat (t + w) = unat t + unat w" by (simp add: unat_add_lem [symmetric])
  have "unat (t + w) + sum_list (map unat ws) < 2 ^ 128" using Cons.prems add by simp
  from Cons.IH [OF this, of "acc @ [t + w]"] obtain total cs where
    IH: "for_each (\<lambda>(total, cs) w. and_then (expect (checked_add total w)) (\<lambda>total. Ok (total, cs @ [total])))
        (t + w, acc @ [t + w]) ws = (Ok (total, (acc @ [t + w]) @ cs) :: (_, 'e) result)"
      "unat total = unat (t + w) + sum_list (map unat ws)" "length cs = length ws"
      "\<forall>i < length ws. unat (cs ! i) = unat (t + w) + sum_to ws (Suc i)" by blast
  have "unat (((t + w) # cs) ! i) = unat t + sum_to (w # ws) (Suc i)" if "i < length (w # ws)" for i
    using that IH(4) add by (cases i) auto
  then show ?case
    using IH lt add by (intro exI [of _ total] exI [of _ "(t + w) # cs"]) (simp add: checked_add_def expect_def)
qed simp

lemma cumulative_overflow:
  fixes ws :: "u128 list"
  shows "unat t + sum_list (map unat ws) \<ge> 2 ^ 128 \<Longrightarrow>
    for_each (\<lambda>(total, cs) w. and_then (expect (checked_add total w)) (\<lambda>total. Ok (total, cs @ [total])))
      (t, acc) ws = (Panic :: (_, 'e) result)"
proof (induction ws arbitrary: t acc)
  case Nil
  then show ?case using unat_lt_2p [of t] by simp
next
  case (Cons w ws)
  show ?case
  proof (cases "unat t + unat w < 2 ^ 128")
    case True
    then have "unat (t + w) = unat t + unat w" by (simp add: unat_add_lem [symmetric])
    then show ?thesis using Cons True by (simp add: checked_add_def expect_def)
  qed (simp add: checked_add_def expect_def)
qed

lemma sum_to_mono: "i \<le> j \<Longrightarrow> sum_to ws i \<le> sum_to ws j"
  by (metis add_leD1 le_add_diff_inverse map_append order_refl sum_list_append take_add)

lemma choose_index_panics:
  assumes "sum_list (map unat ws) = 0 \<or> 2 ^ 128 \<le> sum_list (map unat ws)"
  shows "choose_index sha3 ws state = (Panic :: (_, 'e) result)"
proof (cases "2 ^ 128 \<le> sum_list (map unat ws)")
  case True
  then show ?thesis using cumulative_overflow [of 0 ws "[]", where 'e = 'e] by (simp add: choose_index_def)
next
  case False
  then have "unat (0 :: u128) + sum_list (map unat ws) < 2 ^ 128" by simp
  from cumulative_weights [OF this, of "[]", where 'e = 'e] obtain total cs where
    "for_each (\<lambda>(total, cs) w. and_then (expect (checked_add total w)) (\<lambda>total. Ok (total, cs @ [total]))) (0, []) ws =
      (Ok (total, cs) :: (_, 'e) result)" "unat total = sum_list (map unat ws)" by auto
  moreover from this have "total = 0" using assms False by (metis unat_eq_zero)
  ultimately show ?thesis by (simp add: choose_index_def next_in_range_def rust_assert_def)
qed

text \<open>The number that the hash of the state gives.\<close>

definition hash_draw :: "(u8 list \<Rightarrow> hash_value) \<Rightarrow> u8 list \<Rightarrow> nat" where
  "hash_draw sha3 state = unat (u128_from_le_bytes (take 16 (hv_bytes (sha3 state))))"

lemma choose_index_draws:
  fixes sha3 :: "u8 list \<Rightarrow> hash_value" and state :: "u8 list"
  assumes pos: "0 < sum_list (map unat ws)" and lt: "sum_list (map unat ws) < 2 ^ 128"
  defines "draw \<equiv> hash_draw sha3 state mod sum_list (map unat ws)"
  shows "\<exists>i < length ws. choose_index sha3 ws state = (Ok i :: (_, 'e) result) \<and> sum_to ws i \<le> draw \<and> draw < sum_to ws (Suc i)"
proof -
  have "unat (0 :: u128) + sum_list (map unat ws) < 2 ^ 128" using lt by simp
  from cumulative_weights [OF this, of "[]", where 'e = 'e] obtain total cs where
    cum: "for_each (\<lambda>(total, cs) w. and_then (expect (checked_add total w)) (\<lambda>total. Ok (total, cs @ [total]))) (0, []) ws =
      (Ok (total, cs) :: (_, 'e) result)" and total: "unat total = sum_list (map unat ws)" and len: "length cs = length ws"
    and cs: "\<And>i. i < length ws \<Longrightarrow> unat (cs ! i) = sum_to ws (Suc i)" by auto
  define c where "c = u128_from_le_bytes (take 16 (hv_bytes (sha3 state))) mod total"
  have c: "unat c = draw" by (simp add: c_def draw_def hash_draw_def total unat_mod)
  have nz: "total \<noteq> 0" using pos total by (metis less_irrefl unat_0)
  have le: "cs ! i \<le> c \<longleftrightarrow> sum_to ws (Suc i) \<le> draw" if "i < length ws" for i
    using that cs c by (simp add: word_le_nat_alt)
  have anti: "cs ! i \<le> c" if "i < j" "j < length cs" "cs ! j \<le> c" for i j
    using that le [of i] le [of j] sum_to_mono [of "Suc i" "Suc j" ws] len by auto
  have "\<exists>k \<le> length cs. binary_search_loop (\<lambda>w. if w \<le> c then Less_than else Greater_than) cs 0 (length cs) = Err k \<and>
      (\<forall>i < k. cs ! i \<le> c) \<and> (\<forall>i. k \<le> i \<and> i < length cs \<longrightarrow> \<not> cs ! i \<le> c)"
    by (rule binary_search_loop_partition [where P = "\<lambda>w. w \<le> c"]) (use anti in auto)
  then obtain k where k: "k \<le> length ws"
    "binary_search_loop (\<lambda>w. if w \<le> c then Less_than else Greater_than) cs 0 (length cs) = Err k"
    "\<And>i. i < k \<Longrightarrow> cs ! i \<le> c" "\<And>i. k \<le> i \<Longrightarrow> i < length ws \<Longrightarrow> \<not> cs ! i \<le> c" using len by auto
  have below: "draw < sum_list (map unat ws)" unfolding draw_def using pos by simp
  have "k \<noteq> length ws"
  proof
    assume "k = length ws"
    then have "sum_to ws (length ws) \<le> draw" if "ws \<noteq> []"
      using that k(3) [of "length ws - 1"] le [of "length ws - 1"] by auto
    then show False using below pos by (cases "ws = []") auto
  qed
  then have kl: "k < length ws" using k(1) by simp
  moreover have "choose_index sha3 ws state = (Ok k :: (_, 'e) result)"
    using cum k(2) nz by (simp add: choose_index_def next_in_range_def rust_assert_def binary_search_by_def unwrap_err_def
        flip: c_def)
  moreover have "draw < sum_to ws (Suc k)" using k(4) [of k] kl le [OF kl] by auto
  moreover have "sum_to ws k \<le> draw"
    using k(3) [of "k - 1"] le [of "k - 1"] kl by (cases k) auto
  ultimately show ?thesis by blast
qed

section \<open>Weights from the history\<close>

lemma count_of_insert: "bt_invar m \<Longrightarrow> count_of (bt_insert a c m) b = (if b = a then c else count_of m b)"
  by (simp add: count_of_def bt_get_insert)

lemma count_one_Ok:
  assumes "count_one m a = (Ok m' :: (_, 'e) result)" and "bt_invar m"
  shows "bt_invar m'" and "unat (count_of m' b) = unat (count_of m b) + (if b = a then 1 else 0)"
proof -
  obtain c where c: "plus_or_panic (count_of m a) 1 = (Ok c :: (_, 'e) result)" "m' = bt_insert a c m"
    using assms(1) by (auto simp: count_one_def count_of_def result_simps)
  show "bt_invar m'" using assms(2) by (simp add: c(2) bt_invar_insert)
  show "unat (count_of m' b) = unat (count_of m b) + (if b = a then 1 else 0)"
    using plus_or_panic_OkD [OF c(1)] assms(2) by (simp add: c(2) count_of_insert)
qed

lemma count_all_Ok:
  "for_each count_one m as = (Ok m' :: (_, 'e) result) \<Longrightarrow> bt_invar m \<Longrightarrow>
   bt_invar m' \<and> unat (count_of m' b) = unat (count_of m b) + count_list as b"
proof (induction as arbitrary: m)
  case (Cons a as)
  then obtain m1 where m1: "count_one m a = (Ok m1 :: (_, 'e) result)" "for_each count_one m1 as = (Ok m' :: (_, 'e) result)"
    by (auto simp: result_simps)
  note c = count_one_Ok [OF m1(1) Cons.prems(2)]
  show ?case using Cons.IH [OF m1(2) c(1)] c(2) [of b] by auto
qed auto

text \<open>A fold that counts the authors \<open>who\<close> gives for each event.\<close>

lemma count_fold_Ok:
  assumes step: "\<And>m meta m'. meta \<in> set metas \<Longrightarrow> body m meta = Ok m' \<Longrightarrow> for_each count_one m (who meta) = (Ok m' :: (_, 'e) result)"
  shows "for_each body m metas = Ok m' \<Longrightarrow> bt_invar m \<Longrightarrow>
    bt_invar m' \<and> unat (count_of m' b) = unat (count_of m b) + (\<Sum>meta\<leftarrow>metas. count_list (who meta) b)"
  using step
proof (induction metas arbitrary: m)
  case (Cons meta metas)
  then obtain m1 where m1: "body m meta = Ok m1" "for_each body m1 metas = Ok m'" by (auto simp: result_simps)
  have "for_each count_one m (who meta) = (Ok m1 :: (_, 'e) result)" using Cons.prems(3) m1(1) by simp
  note c = count_all_Ok [OF this Cons.prems(2), of b]
  then show ?case using Cons.IH [OF m1(2)] Cons.prems(3) by simp
qed simp

text \<open>The authors that an event credits with a vote, and the ones it blames for a failed round.\<close>

definition voters_of :: "(u64, author list) btree_map \<Rightarrow> new_block_event \<Rightarrow> author list" where
  "voters_of epoch_to_candidates meta =
     (case bt_get epoch_to_candidates (nbe_epoch meta) of
        None \<Rightarrow> []
      | Some candidates \<Rightarrow>
          (case bitvec_to_voters candidates \<lparr>inner = nbe_previous_block_votes_bitvec meta\<rparr> of Ok voters \<Rightarrow> voters | _ \<Rightarrow> []))"

definition blamed_by :: "(u64, author list) btree_map \<Rightarrow> new_block_event \<Rightarrow> author list" where
  "blamed_by epoch_to_candidates meta =
     (case bt_get epoch_to_candidates (nbe_epoch meta) of
        None \<Rightarrow> []
      | Some candidates \<Rightarrow>
          (case indices_to_validators candidates (nbe_failed_proposer_indices meta) of Ok as \<Rightarrow> as | _ \<Rightarrow> []))"

definition history_window :: "(u64, author list) btree_map \<Rightarrow> new_block_event list \<Rightarrow> nat \<Rightarrow> bool \<Rightarrow> new_block_event list" where
  "history_window epoch_to_candidates history window_size from_stale_end =
     filter (\<lambda>meta. bt_get epoch_to_candidates (nbe_epoch meta) \<noteq> None)
       (if from_stale_end then drop (length history - window_size) history else take window_size history)"

lemma history_iter_Ok:
  "history_iter history m n stale = Ok metas \<Longrightarrow> metas = history_window m history n stale"
  by (auto simp: history_iter_def history_window_def rust_assert_def split: if_splits)

lemma count_of_empty [simp]: "count_of bt_empty a = 0"
  by (simp add: count_of_def bt.get_empty)

lemma count_votes_custom_Ok:
  assumes "count_votes_custom m history n stale = (Ok c :: (_, 'e) result)"
  shows "unat (count_of c a) = (\<Sum>meta\<leftarrow>history_window m history n stale. count_list (voters_of m meta) a)"
proof -
  define body :: "_ \<Rightarrow> _ \<Rightarrow> (_, 'e) result" where "body = (\<lambda>c (meta :: new_block_event).
      and_then (expect (bt_get m (nbe_epoch meta))) (\<lambda>candidates.
      case bv_from_bytes (nbe_previous_block_votes_bitvec meta) of
        Ok bitvec \<Rightarrow> (case bitvec_to_voters candidates bitvec of
            Ok voters \<Rightarrow> for_each count_one c voters | Err _ \<Rightarrow> Ok c | Panic \<Rightarrow> Panic)
      | _ \<Rightarrow> Panic))"
  obtain metas where metas: "history_iter history m n stale = (Ok metas :: (_, 'e) result)" "for_each body bt_empty metas = Ok c"
    using assms by (auto simp: count_votes_custom_def body_def result_simps)
  have "for_each count_one c (voters_of m meta) = (Ok c' :: (_, 'e) result)" if "body c meta = Ok c'" for c c' meta
    using that by (auto simp: body_def voters_of_def bv_from_bytes_def rust_assert_def expect_def
        split: option.splits result.splits if_splits)
  then have "bt_invar c \<and> unat (count_of c a) = unat (count_of bt_empty a) + (\<Sum>meta\<leftarrow>metas. count_list (voters_of m meta) a)"
    by (intro count_fold_Ok [OF _ metas(2) bt.invar_empty]) blast
  then show ?thesis using history_iter_Ok [OF metas(1)] by simp
qed

lemma count_proposals_custom_Ok:
  assumes "count_proposals_custom m history n stale = (Ok c :: (_, 'e) result)"
  shows "unat (count_of c a) = count_list (map nbe_proposer (history_window m history n stale)) a"
proof -
  obtain metas where metas: "history_iter history m n stale = (Ok metas :: (_, 'e) result)"
    "for_each (\<lambda>c meta. count_one c (nbe_proposer meta)) bt_empty metas = (Ok c :: (_, 'e) result)"
    using assms by (auto simp: count_proposals_custom_def result_simps)
  have "bt_invar c \<and> unat (count_of c a) = unat (count_of bt_empty a) + (\<Sum>meta\<leftarrow>metas. count_list [nbe_proposer meta] a)"
    by (rule count_fold_Ok [where who = "\<lambda>meta. [nbe_proposer meta]" and 'e = 'e, OF _ metas(2) bt.invar_empty]) simp
  then have "unat (count_of c a) = (\<Sum>meta\<leftarrow>metas. count_list [nbe_proposer meta] a)" by simp
  also have "\<dots> = count_list (map nbe_proposer metas) a" by (induction metas) auto
  finally show ?thesis using history_iter_Ok [OF metas(1)] by simp
qed

lemma count_failed_proposals_Ok:
  assumes "count_failed_proposals agg m history = (Ok c :: (_, 'e) result)"
  shows "unat (count_of c a) =
    (\<Sum>meta\<leftarrow>history_window m history (proposer_window_size agg) (reputation_window_from_stale_end agg). count_list (blamed_by m meta) a)"
proof -
  define body :: "_ \<Rightarrow> _ \<Rightarrow> (_, 'e) result" where "body = (\<lambda>c (meta :: new_block_event).
      and_then (expect (bt_get m (nbe_epoch meta))) (\<lambda>candidates.
      case indices_to_validators candidates (nbe_failed_proposer_indices meta) of
        Ok failed_proposers \<Rightarrow> for_each count_one c failed_proposers | Err _ \<Rightarrow> Ok c | Panic \<Rightarrow> Panic))"
  obtain metas where metas: "history_iter history m (proposer_window_size agg) (reputation_window_from_stale_end agg) = (Ok metas :: (_, 'e) result)"
    "for_each body bt_empty metas = Ok c"
    using assms by (auto simp: count_failed_proposals_def body_def result_simps)
  have "for_each count_one c (blamed_by m meta) = (Ok c' :: (_, 'e) result)" if "body c meta = Ok c'" for c c' meta
    using that by (auto simp: body_def blamed_by_def expect_def split: option.splits result.splits)
  then have "bt_invar c \<and> unat (count_of c a) = unat (count_of bt_empty a) + (\<Sum>meta\<leftarrow>metas. count_list (blamed_by m meta) a)"
    by (intro count_fold_Ok [OF _ metas(2) bt.invar_empty]) blast
  then show ?thesis using history_iter_Ok [OF metas(1)] by simp
qed

text \<open>The weight an author has earned, as the documentation of the heuristic describes it.\<close>

definition earned_weight :: "proposer_and_voter_heuristic \<Rightarrow> (u64, author list) btree_map \<Rightarrow> new_block_event list \<Rightarrow> author \<Rightarrow> u64" where
  "earned_weight h m history a =
     (let agg = ph_aggregation h;
          votes = (\<Sum>meta\<leftarrow>history_window m history (voter_window_size agg) (reputation_window_from_stale_end agg). count_list (voters_of m meta) a);
          rounds = history_window m history (proposer_window_size agg) (reputation_window_from_stale_end agg);
          successes = count_list (map nbe_proposer rounds) a;
          failures = (\<Sum>meta\<leftarrow>rounds. count_list (blamed_by m meta) a) in
      if failures * 100 > (successes + failures) * unat (failure_threshold_percent h) then failed_weight h
      else if successes > 0 \<or> votes > 0 then active_weight h else inactive_weight h)"

lemma times_or_panic_OkD: "times_or_panic a b = Ok c \<Longrightarrow> unat c = unat a * unat b"
  by (auto simp: times_or_panic_def checked_mul_def expect_def unat_mult_lem [symmetric] split: if_splits)

lemma author_weight_Ok:
  assumes "author_weight h v p f = (Ok w :: (_, 'e) result)"
  shows "w = (if unat f * 100 > (unat p + unat f) * unat (failure_threshold_percent h) then failed_weight h
              else if unat p > 0 \<or> unat v > 0 then active_weight h else inactive_weight h)"
proof -
  obtain x t y where "times_or_panic f 100 = (Ok x :: (_, 'e) result)" "plus_or_panic p f = (Ok t :: (_, 'e) result)"
    "times_or_panic t (failure_threshold_percent h) = (Ok y :: (_, 'e) result)"
    and w: "w = (if x > y then failed_weight h else if p > 0 \<or> v > 0 then active_weight h else inactive_weight h)"
    using assms by (auto simp: author_weight_def result_simps)
  then have "unat x = unat f * 100" "unat y = (unat p + unat f) * unat (failure_threshold_percent h)"
    by (auto dest!: times_or_panic_OkD plus_or_panic_OkD)
  then show ?thesis by (simp add: w word_less_nat_alt unat_gt_0)
qed

lemma get_weights_Ok:
  assumes "get_weights h epoch m history = (Ok ws :: (_, 'e) result)"
  shows "\<exists>candidates. bt_get m epoch = Some candidates \<and> ws = map (earned_weight h m history) candidates"
proof -
  obtain votes proposals failed candidates where
    v: "count_votes (ph_aggregation h) m history = (Ok votes :: (_, 'e) result)"
    and p: "count_proposals (ph_aggregation h) m history = (Ok proposals :: (_, 'e) result)"
    and f: "count_failed_proposals (ph_aggregation h) m history = (Ok failed :: (_, 'e) result)"
    and c: "bt_get m epoch = Some candidates"
    and loop: "for_each (\<lambda>ws a. map_ok (\<lambda>w. ws @ [w])
        (author_weight h (count_of votes a) (count_of proposals a) (count_of failed a))) [] candidates = (Ok ws :: (_, 'e) result)"
    using assms by (auto simp: get_weights_def get_aggregated_metrics_def result_simps)
  have step: "w = earned_weight h m history a"
    if "author_weight h (count_of votes a) (count_of proposals a) (count_of failed a) = (Ok w :: (_, 'e) result)" for a w
    using author_weight_Ok [OF that] count_votes_custom_Ok [OF v [unfolded count_votes_def], of a]
      count_proposals_custom_Ok [OF p [unfolded count_proposals_def], of a] count_failed_proposals_Ok [OF f, of a]
    by (simp add: earned_weight_def Let_def)
  have "ws = acc @ map (earned_weight h m history) cs"
    if "for_each (\<lambda>ws a. map_ok (\<lambda>w. ws @ [w])
        (author_weight h (count_of votes a) (count_of proposals a) (count_of failed a))) acc cs = (Ok ws :: (_, 'e) result)" for acc cs
    using that
  proof (induction cs arbitrary: acc)
    case (Cons a cs)
    then obtain w where "author_weight h (count_of votes a) (count_of proposals a) (count_of failed a) = (Ok w :: (_, 'e) result)"
      "for_each (\<lambda>ws a. map_ok (\<lambda>w. ws @ [w])
        (author_weight h (count_of votes a) (count_of proposals a) (count_of failed a))) (acc @ [w]) cs = (Ok ws :: (_, 'e) result)"
      by (auto simp: result_simps)
    then show ?case using Cons.IH [of "acc @ [w]"] step by simp
  qed simp
  from this [OF loop] show ?thesis using c by simp
qed

section \<open>Elections\<close>

text \<open>The products of weights and voting powers never wrap.\<close>

lemma unat_stake_product: "unat (ucast (w :: u64) * ucast (p :: u64) :: u128) = unat w * unat p"
  and stake_product_fits: "unat w * unat p < 2 ^ 128"
proof -
  have "unat w \<le> 2 ^ 64 - 1" "unat p \<le> 2 ^ 64 - 1" using unat_lt_2p [of w] unat_lt_2p [of p] by simp_all
  then have "unat w * unat p \<le> (2 ^ 64 - 1) * (2 ^ 64 - 1)" by (rule mult_le_mono)
  also have "\<dots> < (2 :: nat) ^ 128" by simp
  finally show lt: "unat w * unat p < 2 ^ 128" .
  have up: "unat (ucast w :: u128) = unat w" "unat (ucast p :: u128) = unat p" by (simp_all add: unat_ucast_up)
  have "unat (ucast w :: u128) * unat (ucast p :: u128) < 2 ^ LENGTH(128)" using lt up by simp
  then show "unat (ucast w * ucast p :: u128) = unat w * unat p"
    unfolding unat_mult_lem by (simp only: up)
qed

lemma stake_weights_Ok:
  assumes "length weights \<le> length voting_powers"
  shows "\<exists>ws. stake_weights weights voting_powers = (Ok ws :: (_, 'e) result) \<and>
    map unat ws = map2 (\<lambda>w p. unat w * unat p) weights voting_powers"
proof -
  let ?body = "\<lambda>acc (i, w). if i < length voting_powers
    then map_ok (\<lambda>x. acc @ [x]) (times_or_panic (ucast w) (ucast (voting_powers ! i))) else Panic"
  have "\<exists>ws. for_each ?body acc (enumerate n weights) = (Ok (acc @ ws) :: (u128 list, 'e) result) \<and>
      map unat ws = map2 (\<lambda>w p. unat w * unat p) weights (drop n voting_powers)"
    if "n + length weights \<le> length voting_powers" for n acc
    using that
  proof (induction weights arbitrary: n acc)
    case (Cons w weights)
    let ?x = "ucast w * ucast (voting_powers ! n) :: u128"
    have x: "times_or_panic (ucast w) (ucast (voting_powers ! n)) = (Ok ?x :: (u128, 'e) result)"
      using stake_product_fits [of w "voting_powers ! n"]
      by (simp add: times_or_panic_def checked_mul_def expect_def unat_ucast_up)
    obtain ws where "for_each ?body (acc @ [?x]) (enumerate (Suc n) weights) = (Ok ((acc @ [?x]) @ ws) :: (u128 list, 'e) result)"
      "map unat ws = map2 (\<lambda>w p. unat w * unat p) weights (drop (Suc n) voting_powers)"
      using Cons.IH [of "Suc n" "acc @ [?x]"] Cons.prems by auto
    moreover have "drop n voting_powers = voting_powers ! n # drop (Suc n) voting_powers"
      using Cons.prems by (simp add: Cons_nth_drop_Suc)
    ultimately show ?case
      using Cons.prems x by (intro exI [of _ "?x # ws"]) (simp add: unat_stake_product)
  qed simp
  from this [of 0 "[]"] assms show ?thesis by (simp add: stake_weights_def)
qed

lemma leader_reputation_new_Ok:
  assumes "leader_reputation_new epoch m powers ex use = (Ok lr :: (_, 'e) result)"
  shows "\<exists>proposers. bt_get m epoch = Some proposers \<and> length proposers = length powers \<and>
    lr = \<lparr>lr_epoch = epoch, lr_epoch_to_proposers = m, lr_voting_powers = powers, lr_exclude_round = ex, lr_use_root_hash = use\<rparr>"
  using assms by (auto simp: leader_reputation_new_def result_simps)

text \<open>A cached election answers as the election it caches.\<close>

definition cache_agrees :: "(round \<Rightarrow> (author \<times> 'f, 'e) result) \<Rightarrow> 'f cached_election \<Rightarrow> bool" where
  "cache_agrees elect ce \<longleftrightarrow> bt_invar (recent_elections ce) \<and>
     (\<forall>r entry. bt_get (recent_elections ce) r = Some entry \<longrightarrow> elect r = Ok entry)"

lemma split_off_facts:
  assumes "bt_invar m"
  shows "bt_invar (bt_split_off k m)" and "bt_get (bt_split_off k m) k' = (if k \<le> k' then bt_get m k' else None)"
proof -
  show "bt_invar (bt_split_off k m)"
    using assms sorted_filter_fst [of m] by (simp add: bt_split_off_def bt_invar_def)
  show "bt_get (bt_split_off k m) k' = (if k \<le> k' then bt_get m k' else None)"
    unfolding bt_split_off_def bt_get_def by (induction m) auto
qed

lemma get_or_compute_entry_transparent:
  assumes "cache_agrees elect ce"
  shows "fst (get_or_compute_entry elect rnd ce) = elect rnd \<and> cache_agrees elect (snd (get_or_compute_entry elect rnd ce))"
proof -
  define ce1 where "ce1 = (if rnd > ce_window ce
    then ce\<lparr>recent_elections := bt_split_off (rnd - ce_window ce) (recent_elections ce)\<rparr> else ce)"
  have c1: "cache_agrees elect ce1"
    using assms by (auto simp: ce1_def cache_agrees_def split_off_facts split: if_splits)
  show ?thesis
  proof (cases "bt_get (recent_elections ce1) rnd")
    case (Some entry)
    then have "get_or_compute_entry elect rnd ce = (Ok entry, ce1)"
      by (simp add: get_or_compute_entry_def bind_h_def modify_h_def flip: ce1_def)
    then show ?thesis using c1 Some unfolding cache_agrees_def by (metis fst_conv snd_conv)
  next
    case None
    show ?thesis
    proof (cases "elect rnd")
      case (Ok entry)
      then have "get_or_compute_entry elect rnd ce = (Ok entry, ce1\<lparr>recent_elections := bt_insert rnd entry (recent_elections ce1)\<rparr>)"
        using None by (simp add: get_or_compute_entry_def bind_h_def modify_h_def lift_h_def return_h_def flip: ce1_def)
      then show ?thesis using c1 Ok by (auto simp: cache_agrees_def bt_invar_insert bt_get_insert split: if_splits)
    qed (use None c1 in \<open>simp_all add: get_or_compute_entry_def bind_h_def modify_h_def lift_h_def flip: ce1_def\<close>)
  qed
qed

text \<open>A rotation gives every proposer its rounds in turn.\<close>

lemma rotating_proposer_turns:
  assumes "rp_proposers rp \<noteq> []" and "length (rp_proposers rp) < 2 ^ 64" and "rp_contiguous_rounds rp \<noteq> 0"
  shows "rotating_get_valid_proposer rp rnd =
    Ok (rp_proposers rp ! ((unat rnd div unat (rp_contiguous_rounds rp)) mod length (rp_proposers rp)))"
proof -
  let ?n = "length (rp_proposers rp)"
  have n: "unat (of_nat ?n :: u64) = ?n" using assms(2) by (simp add: unat_of_nat)
  then have "of_nat ?n \<noteq> (0 :: u64)" using assms(1) by (metis length_0_conv unat_0)
  moreover have "unat ((rnd div ucast (rp_contiguous_rounds rp)) mod of_nat ?n) =
      (unat rnd div unat (rp_contiguous_rounds rp)) mod ?n"
    using n by (simp add: unat_mod unat_div unat_ucast_up)
  ultimately show ?thesis
    using assms by (simp add: rotating_get_valid_proposer_def rust_assert_def Let_def)
qed

text \<open>Asked for the recent epochs, the map holds the present epoch with the given proposers.\<close>

lemma extract_loop_keeps:
  "extract_loop epoch proposers needed False rest n acc = Ok m \<Longrightarrow> bt_invar acc \<Longrightarrow>
   (\<forall>(st, _) \<in> set rest. es_epoch st \<noteq> epoch) \<Longrightarrow> bt_get m epoch = bt_get acc epoch"
proof (induction rest arbitrary: n acc)
  case (Cons p rest)
  obtain st rounds where p: "p = (st, rounds)" by (cases p)
  let ?acc = "bt_insert (es_epoch st) (get_ordered_account_addresses (es_verifier st)) acc"
  have same: "bt_get ?acc epoch = bt_get acc epoch" and inv: "bt_invar ?acc"
    using Cons.prems(2,3) by (auto simp: p bt_get_insert bt_invar_insert)
  show ?case
  proof (cases "n > needed")
    case True
    then show ?thesis using Cons.prems(1) same by (simp add: p Let_def)
  next
    case False
    then obtain n' where "extract_loop epoch proposers needed False rest n' ?acc = Ok m"
      using Cons.prems(1) by (auto simp: p Let_def result_simps)
    then show ?thesis using Cons.IH [OF _ inv] Cons.prems(3) same by auto
  qed
qed simp

lemma extract_epoch_to_proposers_current:
  assumes ok: "extract_epoch_to_proposers_impl states epoch proposers needed = Ok m"
    and dist: "distinct (map (es_epoch \<circ> fst) states)"
  shows "bt_get m epoch = Some proposers"
proof -
  have ne: "states \<noteq> []" and loop: "extract_loop epoch proposers needed True (rev states) 0 bt_empty = Ok m"
    using ok by (auto simp: extract_epoch_to_proposers_impl_def result_simps)
  obtain st rounds rest where rev: "rev states = (st, rounds) # rest" using ne by (cases "rev states") auto
  let ?acc = "bt_insert (es_epoch st) (get_ordered_account_addresses (es_verifier st)) bt_empty"
  have st: "epoch = es_epoch st" "proposers = get_ordered_account_addresses (es_verifier st)"
    using loop by (auto simp: rev Let_def ensure_def split: if_splits)
  have acc: "bt_invar ?acc" "bt_get ?acc epoch = Some proposers"
    using st by (simp_all add: bt_invar_insert bt.invar_empty bt_get_insert)
  have "distinct (map (es_epoch \<circ> fst) (rev states))" using dist by (simp add: rev_map [symmetric])
  then have "es_epoch st \<notin> (es_epoch \<circ> fst) ` set rest" by (simp add: rev)
  then have others: "\<forall>(s, _) \<in> set rest. es_epoch s \<noteq> epoch" by (force simp: st(1))
  show ?thesis
  proof (cases "(0 :: u64) > needed")
    case False
    then obtain n' where "extract_loop epoch proposers needed False rest n' ?acc = Ok m"
      using loop by (auto simp: rev Let_def ensure_def result_simps split: if_splits)
    then show ?thesis using extract_loop_keeps [OF _ acc(1) others] acc(2) by simp
  qed simp
qed

section \<open>Properties of the elections\<close>

text \<open>The proposals that a sequence of checks accepts; the inner election may answer differently at every check.\<close>

fun accepted_proposals :: "('e election \<times> block) list \<Rightarrow> already_proposed \<Rightarrow> ('e election \<times> block) list" where
  "accepted_proposals [] s = []"
| "accepted_proposals ((elect, b) # rest) s =
     (case is_valid_proposal elect b s of
        (Ok True, s') \<Rightarrow> (elect, b) # accepted_proposals rest s'
      | (_, s') \<Rightarrow> accepted_proposals rest s')"

lemma is_valid_proposal_cases:
  "is_valid_proposal elect b s =
     (case b_author b of
        None \<Rightarrow> (Ok False, s)
      | Some a \<Rightarrow>
          (case elect (b_round b) of
             Ok p \<Rightarrow>
               if p \<noteq> a then (Ok False, s)
               else if b_round b > fst s then (Ok True, (b_round b, b_id b))
               else (Ok (b_round b = fst s \<and> snd s = b_id b), s)
           | Err e \<Rightarrow> (Err e, s)
           | Panic \<Rightarrow> (Panic, s)))"
  by (simp add: is_valid_proposal_def is_valid_proposer_def bind_h_def lift_h_def return_h_def split: option.split result.split)

lemma is_valid_proposal_accepted:
  assumes "is_valid_proposal elect b s = (Ok True, s')"
  shows "\<exists>a. b_author b = Some a \<and> elect (b_round b) = Ok a" and "s' = (b_round b, b_id b)"
    and "fst s \<le> b_round b" and "b_round b = fst s \<longrightarrow> b_id b = snd s"
proof -
  obtain a where a: "b_author b = Some a" "elect (b_round b) = Ok a"
    using assms unfolding is_valid_proposal_cases by (simp split: option.splits result.splits if_splits)
  then show "\<exists>a. b_author b = Some a \<and> elect (b_round b) = Ok a" by blast
  have "b_round b > fst s \<and> s' = (b_round b, b_id b) \<or> b_round b = fst s \<and> b_id b = snd s \<and> s' = s"
    using assms a unfolding is_valid_proposal_cases by (auto split: if_splits)
  then show "s' = (b_round b, b_id b)" "fst s \<le> b_round b" "b_round b = fst s \<longrightarrow> b_id b = snd s"
    by (auto simp: prod_eq_iff)
qed

lemma is_valid_proposal_rejected:
  assumes "is_valid_proposal elect b s = (r, s')" and "r \<noteq> Ok True"
  shows "s' = s"
  using assms unfolding is_valid_proposal_cases by (simp split: option.splits result.splits if_splits)

lemma accepted_proposals_facts:
  "(\<forall>c \<in> set (accepted_proposals calls s). (\<exists>a. b_author (snd c) = Some a \<and> fst c (b_round (snd c)) = Ok a) \<and>
      fst s \<le> b_round (snd c) \<and> (b_round (snd c) = fst s \<longrightarrow> b_id (snd c) = snd s)) \<and>
    sorted (map (b_round \<circ> snd) (accepted_proposals calls s)) \<and>
    (\<forall>c \<in> set (accepted_proposals calls s). \<forall>d \<in> set (accepted_proposals calls s).
       b_round (snd c) = b_round (snd d) \<longrightarrow> b_id (snd c) = b_id (snd d))"
proof (induction calls arbitrary: s)
  case (Cons call calls)
  obtain elect b where call: "call = (elect, b)" by (cases call)
  obtain r s' where v: "is_valid_proposal elect b s = (r, s')" by (cases "is_valid_proposal elect b s")
  define rest where "rest = accepted_proposals calls s'"
  note IH = Cons.IH [of s', folded rest_def]
  note IH1 = bspec [OF conjunct1 [OF IH]] and sorted_rest = conjunct1 [OF conjunct2 [OF IH]]
    and same_round = bspec [OF bspec [OF conjunct2 [OF conjunct2 [OF IH]]]]
  show ?case
  proof (cases "r = Ok True")
    case True
    note now = is_valid_proposal_accepted [OF v [unfolded True]]
    have acc: "accepted_proposals (call # calls) s = (elect, b) # rest" using v True by (simp add: call rest_def)
    have later: "b_round b \<le> b_round (snd d)" "b_round (snd d) = b_round b \<Longrightarrow> b_id (snd d) = b_id b"
      if "d \<in> set rest" for d using IH1 [OF that] now(2) by simp_all
    have first: "fst s \<le> b_round (snd d) \<and> (b_round (snd d) = fst s \<longrightarrow> b_id (snd d) = snd s)" if "d \<in> set rest" for d
    proof -
      have "fst s \<le> b_round (snd d)" using now(3) later(1) [OF that] by (rule order_trans)
      moreover have "b_id (snd d) = snd s" if "b_round (snd d) = fst s"
        using that now(3,4) later [OF \<open>d \<in> set rest\<close>] by simp
      ultimately show ?thesis by simp
    qed
    have "sorted (map (b_round \<circ> snd) ((elect, b) # rest))" using sorted_rest later(1) by (simp add: comp_def)
    moreover have "\<forall>c \<in> set ((elect, b) # rest). \<forall>d \<in> set ((elect, b) # rest).
        b_round (snd c) = b_round (snd d) \<longrightarrow> b_id (snd c) = b_id (snd d)"
    proof (intro ballI impI)
      fix c d
      assume cd: "c \<in> set ((elect, b) # rest)" "d \<in> set ((elect, b) # rest)" "b_round (snd c) = b_round (snd d)"
      consider "c = (elect, b)" "d = (elect, b)" | "c = (elect, b)" "d \<in> set rest" | "c \<in> set rest" "d = (elect, b)"
        | "c \<in> set rest" "d \<in> set rest" using cd(1,2) by auto
      then show "b_id (snd c) = b_id (snd d)"
      proof cases
        case 2
        then show ?thesis using later(2) [of d] cd(3) by simp
      next
        case 3
        then show ?thesis using later(2) [of c] cd(3) by simp
      next
        case 4
        then show ?thesis using same_round cd(3) by blast
      qed simp
    qed
    moreover have "\<forall>c \<in> set ((elect, b) # rest). (\<exists>a. b_author (snd c) = Some a \<and> fst c (b_round (snd c)) = Ok a) \<and>
        fst s \<le> b_round (snd c) \<and> (b_round (snd c) = fst s \<longrightarrow> b_id (snd c) = snd s)"
    proof
      fix c assume "c \<in> set ((elect, b) # rest)"
      then consider "c = (elect, b)" | "c \<in> set rest" by auto
      then show "(\<exists>a. b_author (snd c) = Some a \<and> fst c (b_round (snd c)) = Ok a) \<and>
          fst s \<le> b_round (snd c) \<and> (b_round (snd c) = fst s \<longrightarrow> b_id (snd c) = snd s)"
      proof cases
        case 1
        then show ?thesis using now(1,3,4) by simp
      next
        case 2
        then show ?thesis using conjunct1 [OF IH1 [OF 2]] first [OF 2] by blast
      qed
    qed
    ultimately show ?thesis unfolding acc by blast
  next
    case False
    have acc: "accepted_proposals (call # calls) s = rest"
      using v False by (cases r) (simp_all add: call rest_def)
    show ?thesis unfolding acc by (rule IH [unfolded is_valid_proposal_rejected [OF v False]])
  qed
qed simp

text \<open>
  C11. At most one proposal per round is accepted. Over any sequence of proposals that are checked with
  \<^verbatim>\<open>UnequivocalProposerElection::is_valid_proposal\<close>, and whatever the inner election answers, each accepted
  block is from the proposer that the election names for its round, the rounds of the accepted blocks
  never go back, and two accepted blocks of one round are the same block.
\<close>

theorem one_proposal_per_round:
  fixes calls :: "('e election \<times> block) list"
  defines "acc \<equiv> accepted_proposals calls unequivocal_new"
  shows "(\<forall>(elect, b) \<in> set acc. \<exists>a. b_author b = Some a \<and> elect (b_round b) = Ok a) \<and>
    sorted (map (b_round \<circ> snd) acc) \<and>
    (\<forall>(e, b) \<in> set acc. \<forall>(e', b') \<in> set acc. b_round b = b_round b' \<longrightarrow> b_id b = b_id b')"
proof -
  note facts = accepted_proposals_facts [of calls unequivocal_new, folded acc_def]
  note accepted = bspec [OF conjunct1 [OF facts]] and same = bspec [OF bspec [OF conjunct2 [OF conjunct2 [OF facts]]]]
  show ?thesis
    unfolding case_prod_unfold
  proof (intro conjI ballI)
    fix c assume c: "c \<in> set acc"
    show "\<exists>a. b_author (snd c) = Some a \<and> fst c (b_round (snd c)) = Ok a" by (rule conjunct1 [OF accepted [OF c]])
    fix d assume d: "d \<in> set acc"
    show "b_round (snd c) = b_round (snd d) \<longrightarrow> b_id (snd c) = b_id (snd d)" by (rule same [OF c d])
  qed (rule conjunct1 [OF conjunct2 [OF facts]])
qed

text \<open>
  C12. The leader is drawn in proportion to stake and reputation. Every candidate of the epoch has the
  weight that the recent history earns it: failed, if its share of failed rounds is above the threshold,
  else active, if it proposed or voted, else inactive. The weights are multiplied by the voting powers,
  without a wrap-around. If the products add up to zero or exceed 128 bits, the election panics;
  otherwise it returns the candidate in whose stretch of the accumulated products the number drawn from
  the hash of epoch and round falls, so a candidate of product zero is never elected.
\<close>

theorem leader_drawn_by_weight:
  fixes chain_health :: "new_block_event list \<Rightarrow> round \<Rightarrow> ('f, 'e) result"
  assumes "leader_reputation_new epoch m powers ex use_root = (Ok lr :: (_, 'e) result)"
    and "backend epoch (saturating_sub rnd ex) = Ok (window, root)"
    and "chain_health window rnd = Ok ratio"
    and "get_weights h epoch m window = (Ok weights :: (_, 'e) result)"
  shows "\<exists>proposers. bt_get m epoch = Some proposers \<and>
    (let ws = map2 (\<lambda>a p. unat (earned_weight h m window a) * unat p) proposers powers;
         draw = hash_draw sha3 (election_state lr root rnd) mod sum_list ws;
         elected = get_valid_proposer_and_ratio sha3 chain_health (get_weights h) backend lr rnd in
     if sum_list ws = 0 \<or> 2 ^ 128 \<le> sum_list ws then elected = Panic
     else \<exists>i < length proposers. elected = Ok (proposers ! i, ratio) \<and>
            sum_list (take i ws) \<le> draw \<and> draw < sum_list (take (Suc i) ws))"
proof -
  obtain proposers where p: "bt_get m epoch = Some proposers" "length proposers = length powers"
    and lr: "lr = \<lparr>lr_epoch = epoch, lr_epoch_to_proposers = m, lr_voting_powers = powers, lr_exclude_round = ex, lr_use_root_hash = use_root\<rparr>"
    using leader_reputation_new_Ok [OF assms(1)] by blast
  have w: "weights = map (earned_weight h m window) proposers" using get_weights_Ok [OF assms(4)] p(1) by auto
  obtain sw where sw: "stake_weights weights powers = (Ok sw :: (_, 'e) result)"
    "map unat sw = map2 (\<lambda>w p. unat w * unat p) weights powers"
    using stake_weights_Ok [of weights powers, where 'e = 'e] p(2) w by auto
  define ws where "ws = map2 (\<lambda>a p. unat (earned_weight h m window a) * unat p) proposers powers"
  have ws: "map unat sw = ws" using sw(2) by (simp add: ws_def w map2_map_map zip_map1 case_prod_unfold comp_def)
  then have sum: "sum_list (map unat sw) = sum_list ws" "sum_to sw n = sum_list (take n ws)" for n
    by (simp_all add: take_map [symmetric])
  have len: "length sw = length proposers" using arg_cong [OF ws, of length] p(2) by (simp add: ws_def)
  let ?state = "election_state lr root rnd"
  have eq: "get_valid_proposer_and_ratio sha3 chain_health (get_weights h) backend lr rnd =
      and_then (choose_index sha3 sw ?state) (\<lambda>i. if i < length proposers then Ok (proposers ! i, ratio) else Panic)"
    using assms(2-4) p(1) sw(1) w by (simp add: get_valid_proposer_and_ratio_def Let_def lr expect_def rust_assert_def)
  have "if sum_list ws = 0 \<or> 2 ^ 128 \<le> sum_list ws
    then get_valid_proposer_and_ratio sha3 chain_health (get_weights h) backend lr rnd = Panic
    else \<exists>i < length proposers. get_valid_proposer_and_ratio sha3 chain_health (get_weights h) backend lr rnd = Ok (proposers ! i, ratio) \<and>
      sum_list (take i ws) \<le> hash_draw sha3 ?state mod sum_list ws \<and> hash_draw sha3 ?state mod sum_list ws < sum_list (take (Suc i) ws)"
  proof (cases "sum_list ws = 0 \<or> 2 ^ 128 \<le> sum_list ws")
    case True
    then have "choose_index sha3 sw ?state = (Panic :: (_, 'e) result)" by (intro choose_index_panics) (simp only: sum)
    then show ?thesis unfolding if_P [OF True] eq by simp
  next
    case False
    then have pos: "0 < sum_list ws" "sum_list ws < 2 ^ 128" by linarith+
    obtain i where "i < length sw" "choose_index sha3 sw ?state = (Ok i :: (_, 'e) result)"
      "sum_to sw i \<le> hash_draw sha3 ?state mod sum_list ws" "hash_draw sha3 ?state mod sum_list ws < sum_to sw (Suc i)"
      using choose_index_draws [of sw sha3 ?state, where 'e = 'e, unfolded sum(1), OF pos] by blast
    then show ?thesis unfolding if_not_P [OF False] eq by (intro exI [of _ i]) (simp add: len sum(2))
  qed
  then show ?thesis unfolding ws_def Let_def using p(1) by blast
qed

section \<open>Sample elections\<close>

definition proposal_block :: "hash_value \<Rightarrow> round \<Rightarrow> author \<Rightarrow> block" where
  "proposal_block i r a =
     \<lparr>b_id = i,
      b_block_data = bd_new_proposal (DirectMempool []) a [] r 0
        \<lparr>qc_vote_data = \<lparr>vd_proposed = block_info_empty, vd_parent = block_info_empty\<rparr>,
         qc_signed_ledger_info = \<lparr>lis_ledger_info = \<lparr>commit_info = block_info_empty, consensus_data_hash = 0\<rparr>,
           lis_signatures = aggregate_signature_empty\<rparr>\<rparr>,
      b_signature = None\<rparr>"

definition fixed_election :: "unit election" where
  "fixed_election _ = Ok 5"

definition proposal_calls :: "(unit election \<times> block) list" where
  "proposal_calls = [(fixed_election, proposal_block 7 1 5), (fixed_election, proposal_block 8 1 5),
     (fixed_election, proposal_block 9 2 6), (fixed_election, proposal_block 9 2 5)]"

lemma proposal_block_fields:
  "b_author (proposal_block i r a) = Some a" "b_round (proposal_block i r a) = r" "b_id (proposal_block i r a) = i"
  by (simp_all add: proposal_block_def b_author_def bd_author_def b_round_def bd_new_proposal_def)

theorem one_proposal_per_round_witness:
  "accepted_proposals proposal_calls unequivocal_new =
     [(fixed_election, proposal_block 7 1 5), (fixed_election, proposal_block 9 2 5)] \<and>
   sorted (map (b_round \<circ> snd) (accepted_proposals proposal_calls unequivocal_new))"
proof
  show "accepted_proposals proposal_calls unequivocal_new =
     [(fixed_election, proposal_block 7 1 5), (fixed_election, proposal_block 9 2 5)]"
    by (simp add: proposal_calls_def unequivocal_new_def is_valid_proposal_cases proposal_block_fields fixed_election_def word_less_nat_alt)
  show "sorted (map (b_round \<circ> snd) (accepted_proposals proposal_calls unequivocal_new))"
    using one_proposal_per_round [of proposal_calls] by (elim conjE)
qed

definition two_candidates :: "(u64, author list) btree_map" where
  "two_candidates = [(1, [10, 20])]"

definition sample_heuristic :: proposer_and_voter_heuristic where
  "sample_heuristic = \<lparr>active_weight = 100, inactive_weight = 10, failed_weight = 1, failure_threshold_percent = 10,
     ph_aggregation = \<lparr>voter_window_size = 1, proposer_window_size = 1, reputation_window_from_stale_end = False\<rparr>\<rparr>"

definition sample_history :: "new_block_event list" where
  "sample_history = [\<lparr>nbe_hash = 0, nbe_epoch = 1, nbe_round = 3, nbe_height = 3, nbe_previous_block_votes_bitvec = [64],
     nbe_proposer = 10, nbe_failed_proposer_indices = [1], nbe_timestamp = 0\<rparr>]"

definition sample_reputation :: leader_reputation where
  "sample_reputation = \<lparr>lr_epoch = 1, lr_epoch_to_proposers = two_candidates, lr_voting_powers = [3, 4],
     lr_exclude_round = 2, lr_use_root_hash = False\<rparr>"

lemma sample_reputation_new:
  "leader_reputation_new 1 two_candidates [3, 4] 2 False = (Ok sample_reputation :: (_, unit) result)"
  by (simp add: leader_reputation_new_def two_candidates_def sample_reputation_def bt_get_def expect_def rust_assert_def)

text \<open>Validator 10 proposed, validator 20 voted but failed its round.\<close>

lemma sample_weights: "get_weights sample_heuristic 1 two_candidates sample_history = (Ok [100, 1] :: (_, unit) result)"
  by code_simp

theorem leader_drawn_by_weight_witness:
  "\<exists>i < length [10, 20 :: author].
     get_valid_proposer_and_ratio (\<lambda>_. 5) (\<lambda>_ _. Ok ()) (get_weights sample_heuristic)
       (\<lambda>_ _. Ok (sample_history, 0)) sample_reputation 5 = (Ok ([10, 20] ! i, ()) :: (_, unit) result)"
proof -
  have "get_weights sample_heuristic 1 two_candidates sample_history = (Ok (map (earned_weight sample_heuristic two_candidates sample_history) [10, 20]) :: (_, unit) result)"
    using get_weights_Ok [OF sample_weights] sample_weights by (auto simp: two_candidates_def bt_get_def)
  then have w: "earned_weight sample_heuristic two_candidates sample_history 10 = 100"
    "earned_weight sample_heuristic two_candidates sample_history 20 = 1" using sample_weights by simp_all
  from leader_drawn_by_weight [OF sample_reputation_new, of "\<lambda>_ _. Ok (sample_history, 0)" 5 sample_history 0
      "\<lambda>_ _. Ok ()" "()" sample_heuristic "[100, 1]" "\<lambda>_. 5", OF refl refl sample_weights]
  show ?thesis by (auto simp: two_candidates_def bt_get_def w [unfolded two_candidates_def] Let_def)
qed

end
