(* ===== verification/Index_Storage.thy ===== *)
theory Index_Storage
  imports Hash_Value
begin

text \<open>
  The state of the Index VM (\<^verbatim>\<open>src/storage/storage.go\<close>): balances, permissions and content under byte-string
  keys, and the records of accepted transactions.

  The VM is a plugin of hypersdk and avalanchego, which are not part of the repository. What the modelled
  functions use of them is the record \<open>sdk\<close>, an argument of every function: the database of the chain
  (\<^verbatim>\<open>chain.Database\<close>), the checked arithmetic (\<^verbatim>\<open>smath\<close>), the hash behind \<^verbatim>\<open>utils.ToID\<close>, the packer, the
  signature scheme, the address parser and the numbering of registered types. The laws relied on are
  the locale \<open>index_sdk\<close>. An error of Go is a value of \<open>go_error\<close>; a slice or an index out of range is
  a panic.

  The second half is the contract of the package: a ledger of accounts, permissions and content with
  one operation per storage function, and the lemmas that the byte store implements it. The ledger also
  holds the keys that the transaction has declared, since the chain rejects an access to any other key.
\<close>

section \<open>Errors and the surrounding libraries\<close>

type_synonym public_key = "256 word"
type_synonym content_id = "256 word"
type_synonym bytes = "u8 list"

datatype balance_step = AddUnlocked | SubtractUnlocked | AddLocked | SubtractLocked

datatype go_error =
    ErrNotFound
  | ErrDatabase string
  | ErrContentAlreadyExists public_key u64
  | ErrContentMissing
  | ErrWrongOwner public_key
  | ErrInsufficientTip
  | ErrInvalidBalance "(balance_step \<times> u64 \<times> public_key \<times> u64) option"
  | ErrInvalidTarget
  | ErrStateLockupMissing
  | ErrInvalidSignature
  | ErrNotAllowed
  | ErrActionMissing
  | ErrActorEqualsSigner
  | ErrAddress string
  | ErrUnmarshal string

text \<open>The kinds of actions that the registry tells apart.\<close>

datatype action_kind = KAuthorize | KTransfer | KClear | KIndex | KUnindex | KModify

record 's sdk =
  db_get_value :: "bytes \<Rightarrow> ('s, bytes, go_error) handler"
  db_insert :: "bytes \<Rightarrow> bytes \<Rightarrow> ('s, unit, go_error) handler"
  db_remove :: "bytes \<Rightarrow> ('s, unit, go_error) handler"
  add64 :: "u64 \<Rightarrow> u64 \<Rightarrow> u64 option"
  sub64 :: "u64 \<Rightarrow> u64 \<Rightarrow> u64 option"
  to_id :: "bytes \<Rightarrow> content_id"
  pack_id :: "content_id \<Rightarrow> bytes"
  pack_bytes :: "bytes \<Rightarrow> bytes"
  sig_verify :: "bytes \<Rightarrow> public_key \<Rightarrow> bytes \<Rightarrow> bool"
  sig_sign :: "bytes \<Rightarrow> bytes \<Rightarrow> bytes"
  sig_public :: "bytes \<Rightarrow> public_key"
  parse_address :: "string \<Rightarrow> (public_key, go_error) result"
  lookup_type :: "action_kind list \<Rightarrow> action_kind \<Rightarrow> u8 option"

text \<open>The metadata database (\<^verbatim>\<open>database.KeyValueReader\<close> and \<^verbatim>\<open>KeyValueWriter\<close>).\<close>

record 'm metadata =
  kv_get :: "'m \<Rightarrow> bytes \<Rightarrow> (bytes, go_error) result"
  kv_put :: "bytes \<Rightarrow> bytes \<Rightarrow> ('m, unit, go_error) handler"

section \<open>Big-endian integers\<close>

definition PutUint64 :: "u64 \<Rightarrow> bytes" where
  "PutUint64 x = map (\<lambda>i. ucast (drop_bit (8 * (7 - i)) x)) [0..<8]"

definition Uint64 :: "bytes \<Rightarrow> (u64, 'e) result" where
  "Uint64 b = (if length b < 8 then Panic else Ok (foldl (\<lambda>x y. push_bit 8 x OR ucast y) 0 (take 8 b)))"

definition slice_to :: "bytes \<Rightarrow> nat \<Rightarrow> (bytes, 'e) result" where
  "slice_to v n = (if n \<le> length v then Ok (take n v) else Panic)"

definition slice_from :: "bytes \<Rightarrow> nat \<Rightarrow> (bytes, 'e) result" where
  "slice_from v n = (if n \<le> length v then Ok (drop n v) else Panic)"

definition index_at :: "bytes \<Rightarrow> nat \<Rightarrow> (u8, 'e) result" where
  "index_at v n = (if n < length v then Ok (v ! n) else Panic)"

section \<open>Keys\<close>

definition txPrefix :: u8 where "txPrefix = 0"
definition balancePrefix :: u8 where "balancePrefix = 0"
definition permissionsPrefix :: u8 where "permissionsPrefix = 1"
definition contentPrefix :: u8 where "contentPrefix = 2"

definition failureByte :: u8 where "failureByte = 0"
definition successByte :: u8 where "successByte = 1"

definition PrefixTxKey :: "content_id \<Rightarrow> bytes" where
  "PrefixTxKey txid = txPrefix # hv_bytes txid"

definition PrefixBalanceKey :: "public_key \<Rightarrow> bytes" where
  "PrefixBalanceKey pk = balancePrefix # hv_bytes pk"

definition PrefixContentKey :: "content_id \<Rightarrow> bytes" where
  "PrefixContentKey contentID = contentPrefix # hv_bytes contentID"

definition PrefixPermissionsKey :: "public_key \<Rightarrow> public_key \<Rightarrow> bytes" where
  "PrefixPermissionsKey actor signer = permissionsPrefix # hv_bytes actor @ hv_bytes signer"

section \<open>Transactions\<close>

definition StoreTransaction ::
  "'m metadata \<Rightarrow> content_id \<Rightarrow> u64 \<Rightarrow> bool \<Rightarrow> u64 \<Rightarrow> ('m, unit, go_error) handler" where
  "StoreTransaction M txid t success units =
     (let k = PrefixTxKey txid;
          v = PutUint64 t @ (if success then successByte else failureByte) # PutUint64 units in
      kv_put M k v)"

definition GetTransaction ::
  "'m metadata \<Rightarrow> 'm \<Rightarrow> content_id \<Rightarrow> (bool \<times> u64 \<times> bool \<times> u64, go_error) result" where
  "GetTransaction M m txid =
     (case kv_get M m (PrefixTxKey txid) of
        Err e \<Rightarrow> if e = ErrNotFound then Ok (False, 0, False, 0) else Err e
      | Panic \<Rightarrow> Panic
      | Ok v \<Rightarrow>
          and_then (Uint64 v) (\<lambda>t.
          and_then (index_at v 8) (\<lambda>b.
          and_then (slice_from v 9) (\<lambda>w.
          and_then (Uint64 w) (\<lambda>units. Ok (True, t, b \<noteq> failureByte, units))))))"

section \<open>Balances\<close>

definition innerGetBalance :: "(bytes, go_error) result \<Rightarrow> (u64 \<times> u64, go_error) result" where
  "innerGetBalance r =
     (case r of
        Err e \<Rightarrow> if e = ErrNotFound then Ok (0, 0) else Err e
      | Panic \<Rightarrow> Panic
      | Ok v \<Rightarrow>
          and_then (slice_to v 8) (\<lambda>a.
          and_then (Uint64 a) (\<lambda>u.
          and_then (slice_from v 8) (\<lambda>b.
          and_then (Uint64 b) (\<lambda>l. Ok (u, l))))))"

definition GetBalance :: "'s sdk \<Rightarrow> public_key \<Rightarrow> ('s, u64 \<times> u64, go_error) handler" where
  "GetBalance E pk = (\<lambda>s. apfst innerGetBalance (db_get_value E (PrefixBalanceKey pk) s))"

text \<open>Queries are served by a function that reads many keys at once.\<close>

definition GetBalanceFromState ::
  "(bytes list \<Rightarrow> (bytes, go_error) result list) \<Rightarrow> public_key \<Rightarrow> (u64 \<times> u64, go_error) result" where
  "GetBalanceFromState f pk = (case f [PrefixBalanceKey pk] of [] \<Rightarrow> Panic | r # _ \<Rightarrow> innerGetBalance r)"

definition SetBalance :: "'s sdk \<Rightarrow> public_key \<Rightarrow> u64 \<Rightarrow> u64 \<Rightarrow> ('s, unit, go_error) handler" where
  "SetBalance E pk unlockedBal lockedBal =
     db_insert E (PrefixBalanceKey pk) (PutUint64 unlockedBal @ PutUint64 lockedBal)"

definition DeleteBalance :: "'s sdk \<Rightarrow> public_key \<Rightarrow> ('s, unit, go_error) handler" where
  "DeleteBalance E pk = db_remove E (PrefixBalanceKey pk)"

definition AddUnlockedBalance ::
  "'s sdk \<Rightarrow> public_key \<Rightarrow> u64 \<Rightarrow> bool \<Rightarrow> ('s, bool, go_error) handler" where
  "AddUnlockedBalance E pk amount dropIfGone =
     bind_h (GetBalance E pk) (\<lambda>(ubal, lbal).
       if dropIfGone \<and> lbal = 0 then return_h False
       else case add64 E ubal amount of
         None \<Rightarrow> throw_h (ErrInvalidBalance (Some (AddUnlocked, ubal, pk, amount)))
       | Some nbal \<Rightarrow> bind_h (SetBalance E pk nbal lbal) (\<lambda>_. return_h (0 < lbal)))"

definition SubUnlockedBalance :: "'s sdk \<Rightarrow> public_key \<Rightarrow> u64 \<Rightarrow> ('s, unit, go_error) handler" where
  "SubUnlockedBalance E pk amount =
     bind_h (GetBalance E pk) (\<lambda>(ubal, lbal).
       case sub64 E ubal amount of
         None \<Rightarrow> throw_h (ErrInvalidBalance (Some (SubtractUnlocked, ubal, pk, amount)))
       | Some nbal \<Rightarrow> SetBalance E pk nbal lbal)"

definition LockBalance :: "'s sdk \<Rightarrow> public_key \<Rightarrow> u64 \<Rightarrow> ('s, unit, go_error) handler" where
  "LockBalance E pk amount =
     bind_h (GetBalance E pk) (\<lambda>(ubal, lbal).
       case sub64 E ubal amount of
         None \<Rightarrow> throw_h (ErrInvalidBalance (Some (SubtractUnlocked, ubal, pk, amount)))
       | Some nubal \<Rightarrow>
           (case add64 E lbal amount of
              None \<Rightarrow> throw_h (ErrInvalidBalance (Some (AddLocked, lbal, pk, amount)))
            | Some nlbal \<Rightarrow> SetBalance E pk nubal nlbal))"

definition UnlockBalance :: "'s sdk \<Rightarrow> public_key \<Rightarrow> u64 \<Rightarrow> ('s, unit, go_error) handler" where
  "UnlockBalance E pk amount =
     bind_h (GetBalance E pk) (\<lambda>(ubal, lbal).
       case add64 E ubal amount of
         None \<Rightarrow> throw_h (ErrInvalidBalance (Some (AddUnlocked, ubal, pk, amount)))
       | Some nubal \<Rightarrow>
           (case sub64 E lbal amount of
              None \<Rightarrow> throw_h (ErrInvalidBalance (Some (SubtractLocked, lbal, pk, amount)))
            | Some nlbal \<Rightarrow> SetBalance E pk nubal nlbal))"

section \<open>Content\<close>

definition innerGetContent :: "(bytes, go_error) result \<Rightarrow> (public_key \<times> u64 \<times> bool, go_error) result" where
  "innerGetContent r =
     (case r of
        Err e \<Rightarrow> if e = ErrNotFound then Ok (0, 0, False) else Err e
      | Panic \<Rightarrow> Panic
      | Ok v \<Rightarrow>
          and_then (slice_to v 32) (\<lambda>pk.
          and_then (slice_from v 32) (\<lambda>b.
          and_then (Uint64 b) (\<lambda>royalty. Ok (hv_new pk, royalty, True)))))"

definition GetContent :: "'s sdk \<Rightarrow> content_id \<Rightarrow> ('s, public_key \<times> u64 \<times> bool, go_error) handler" where
  "GetContent E contentID = (\<lambda>s. apfst innerGetContent (db_get_value E (PrefixContentKey contentID) s))"

definition GetContentFromState ::
  "(bytes list \<Rightarrow> (bytes, go_error) result list) \<Rightarrow> content_id \<Rightarrow> (public_key \<times> u64 \<times> bool, go_error) result" where
  "GetContentFromState f contentID =
     (case f [PrefixContentKey contentID] of [] \<Rightarrow> Panic | r # _ \<Rightarrow> innerGetContent r)"

definition SetContent :: "'s sdk \<Rightarrow> content_id \<Rightarrow> public_key \<Rightarrow> u64 \<Rightarrow> ('s, unit, go_error) handler" where
  "SetContent E contentID owner royalty =
     db_insert E (PrefixContentKey contentID) (hv_bytes owner @ PutUint64 royalty)"

definition IndexContent :: "'s sdk \<Rightarrow> content_id \<Rightarrow> public_key \<Rightarrow> u64 \<Rightarrow> ('s, unit, go_error) handler" where
  "IndexContent E contentID pk royalty =
     (if royalty = 0 then throw_h ErrInsufficientTip
      else bind_h (GetContent E contentID) (\<lambda>(owner, _, exists).
        if exists then throw_h (ErrContentAlreadyExists owner royalty)
        else SetContent E contentID pk royalty))"

definition UnindexContent :: "'s sdk \<Rightarrow> content_id \<Rightarrow> public_key \<Rightarrow> ('s, unit, go_error) handler" where
  "UnindexContent E contentID pk =
     bind_h (GetContent E contentID) (\<lambda>(owner, _, exists).
       if \<not> exists then throw_h ErrContentMissing
       else if owner \<noteq> pk then throw_h (ErrWrongOwner owner)
       else db_remove E (PrefixContentKey contentID))"

definition RewardSearcher :: "'s sdk \<Rightarrow> content_id \<Rightarrow> public_key \<Rightarrow> ('s, public_key, go_error) handler" where
  "RewardSearcher E contentID sender =
     bind_h (GetContent E contentID) (\<lambda>(owner, royalty, exists).
       if \<not> exists then return_h 0
       else bind_h (SubUnlockedBalance E sender royalty) (\<lambda>_.
         bind_h (AddUnlockedBalance E owner royalty False) (\<lambda>_. return_h owner)))"

section \<open>Permissions\<close>

definition GetPermissions :: "'s sdk \<Rightarrow> public_key \<Rightarrow> public_key \<Rightarrow> ('s, u8 \<times> u8, go_error) handler" where
  "GetPermissions E actor signer = (\<lambda>s.
     apfst (\<lambda>r. case r of
         Err e \<Rightarrow> if e = ErrNotFound then Ok (0, 0) else Err e
       | Panic \<Rightarrow> Panic
       | Ok v \<Rightarrow> and_then (index_at v 0) (\<lambda>a. and_then (index_at v 1) (\<lambda>m. Ok (a, m))))
     (db_get_value E (PrefixPermissionsKey actor signer) s))"

definition SetPermissions ::
  "'s sdk \<Rightarrow> public_key \<Rightarrow> public_key \<Rightarrow> u8 \<Rightarrow> u8 \<Rightarrow> ('s, unit, go_error) handler" where
  "SetPermissions E actor signer actionPerms miscPerms =
     db_insert E (PrefixPermissionsKey actor signer) [actionPerms, miscPerms]"

definition DeletePermissions :: "'s sdk \<Rightarrow> public_key \<Rightarrow> public_key \<Rightarrow> ('s, unit, go_error) handler" where
  "DeletePermissions E actor signer = db_remove E (PrefixPermissionsKey actor signer)"

section \<open>Encodings\<close>

lemma length_PutUint64 [simp]: "length (PutUint64 x) = 8"
  by (simp add: PutUint64_def)

lemma Uint64_PutUint64 [simp]: "Uint64 (PutUint64 x @ rest) = Ok x"
proof -
  have "foldl (\<lambda>x y. push_bit 8 x OR ucast y) 0 (PutUint64 x) = x"
  proof (rule bit_eqI)
    fix n
    assume "possible_bit TYPE(64 word) n"
    then have n: "n < 64" by (simp add: possible_bit_word)
    then have d: "n div 8 < 8" by simp
    have "[0..<8] ! (7 - n div 8) = 7 - n div 8" using nth_upt [of 0 "7 - n div 8" 8] by simp
    then have "rev (PutUint64 x) ! (n div 8) = ucast (drop_bit (8 * (n div 8)) x)"
      using d by (simp add: PutUint64_def rev_nth del: upt.simps)
    then show "bit (foldl (\<lambda>x y. push_bit 8 x OR ucast y) (0 :: u64) (PutUint64 x)) n = bit x n"
      using n d by (simp add: bit_big_endian bit_simps)
  qed
  then show ?thesis by (simp add: Uint64_def)
qed

lemma Uint64_PutUint64' [simp]: "Uint64 (PutUint64 x) = Ok x"
  using Uint64_PutUint64 [of x "[]"] by simp

lemma Uint64_Ok: "8 \<le> length b \<Longrightarrow> \<exists>x. Uint64 b = Ok x"
  by (simp add: Uint64_def)

lemma hv_bytes_inject [simp]: "hv_bytes a = hv_bytes b \<longleftrightarrow> a = b"
  by (metis hv_new_bytes)

datatype state_key = BalanceKey public_key | PermissionsKey public_key public_key | ContentKey content_id

fun key_bytes :: "state_key \<Rightarrow> bytes" where
  "key_bytes (BalanceKey pk) = PrefixBalanceKey pk"
| "key_bytes (PermissionsKey actor signer) = PrefixPermissionsKey actor signer"
| "key_bytes (ContentKey contentID) = PrefixContentKey contentID"

lemmas prefix_key_defs = PrefixBalanceKey_def PrefixPermissionsKey_def PrefixContentKey_def
  balancePrefix_def permissionsPrefix_def contentPrefix_def

lemma key_bytes_inject [simp]: "key_bytes a = key_bytes b \<longleftrightarrow> a = b"
  by (cases a; cases b) (auto simp: prefix_key_defs)

text \<open>The stored values have the length of their kind; then no read panics.\<close>

fun value_length :: "state_key \<Rightarrow> nat" where
  "value_length (BalanceKey pk) = 16"
| "value_length (PermissionsKey actor signer) = 2"
| "value_length (ContentKey contentID) = 40"

definition well_typed :: "(bytes \<Rightarrow> bytes option) \<Rightarrow> bool" where
  "well_typed m \<longleftrightarrow> (\<forall>k v. m (key_bytes k) = Some v \<longrightarrow> length v = value_length k)"

lemma well_typed_update:
  "well_typed m \<Longrightarrow> length v = value_length k \<Longrightarrow> well_typed (m(key_bytes k \<mapsto> v))"
  by (auto simp: well_typed_def)

lemma well_typed_remove: "well_typed m \<Longrightarrow> well_typed (m(key_bytes k := None))"
  by (auto simp: well_typed_def)

section \<open>The ledger\<close>

record ledger =
  balances :: "public_key \<Rightarrow> u64 \<times> u64"
  permissions :: "public_key \<times> public_key \<Rightarrow> u8 \<times> u8"
  contents :: "content_id \<Rightarrow> (public_key \<times> u64) option"
  declared :: "state_key set"
  key_error :: go_error

text \<open>An access to a key that the transaction has not declared is an error of the database.\<close>

definition l_access :: "state_key \<Rightarrow> (ledger, 'a, go_error) handler \<Rightarrow> (ledger, 'a, go_error) handler" where
  "l_access k m = (\<lambda>L. if k \<in> declared L then m L else (Err (key_error L), L))"

definition l_balance :: "public_key \<Rightarrow> (ledger, u64 \<times> u64, go_error) handler" where
  "l_balance pk = l_access (BalanceKey pk) (lift_h (\<lambda>L. Ok (balances L pk)))"

definition l_set_balance :: "public_key \<Rightarrow> u64 \<times> u64 \<Rightarrow> (ledger, unit, go_error) handler" where
  "l_set_balance pk b = l_access (BalanceKey pk) (modify_h (\<lambda>L. L\<lparr>balances := (balances L)(pk := b)\<rparr>))"

definition l_permissions :: "public_key \<Rightarrow> public_key \<Rightarrow> (ledger, u8 \<times> u8, go_error) handler" where
  "l_permissions actor signer =
     l_access (PermissionsKey actor signer) (lift_h (\<lambda>L. Ok (permissions L (actor, signer))))"

definition l_set_permissions :: "public_key \<Rightarrow> public_key \<Rightarrow> u8 \<times> u8 \<Rightarrow> (ledger, unit, go_error) handler" where
  "l_set_permissions actor signer p =
     l_access (PermissionsKey actor signer)
       (modify_h (\<lambda>L. L\<lparr>permissions := (permissions L)((actor, signer) := p)\<rparr>))"

definition l_content :: "content_id \<Rightarrow> (ledger, (public_key \<times> u64) option, go_error) handler" where
  "l_content contentID = l_access (ContentKey contentID) (lift_h (\<lambda>L. Ok (contents L contentID)))"

definition l_set_content :: "content_id \<Rightarrow> (public_key \<times> u64) option \<Rightarrow> (ledger, unit, go_error) handler" where
  "l_set_content contentID c =
     l_access (ContentKey contentID) (modify_h (\<lambda>L. L\<lparr>contents := (contents L)(contentID := c)\<rparr>))"

text \<open>Moving funds: a change of an account that is made when it can be.\<close>

definition l_change ::
  "public_key \<Rightarrow> (u64 \<times> u64 \<Rightarrow> (u64 \<times> u64, go_error) result) \<Rightarrow> (ledger, u64 \<times> u64, go_error) handler" where
  "l_change pk f =
     bind_h (l_balance pk) (\<lambda>b. bind_h (lift_h (\<lambda>_. f b)) (\<lambda>b'. bind_h (l_set_balance pk b') (\<lambda>_. return_h b)))"

definition plus_or :: "u64 \<Rightarrow> u64 \<Rightarrow> 'e \<Rightarrow> (u64, 'e) result" where
  "plus_or a b e = ok_or (checked_add a b) e"

definition minus_or :: "u64 \<Rightarrow> u64 \<Rightarrow> 'e \<Rightarrow> (u64, 'e) result" where
  "minus_or a b e = ok_or (checked_sub a b) e"

definition l_deposit :: "public_key \<Rightarrow> u64 \<Rightarrow> (ledger, bool, go_error) handler" where
  "l_deposit pk amount =
     bind_h (l_change pk (\<lambda>(u, l).
        map_ok (\<lambda>u'. (u', l)) (plus_or u amount (ErrInvalidBalance (Some (AddUnlocked, u, pk, amount))))))
      (\<lambda>(u, l). return_h (0 < l))"

definition l_deposit_existing :: "public_key \<Rightarrow> u64 \<Rightarrow> (ledger, bool, go_error) handler" where
  "l_deposit_existing pk amount =
     bind_h (l_balance pk) (\<lambda>(u, l). if l = 0 then return_h False else l_deposit pk amount)"

definition l_withdraw :: "public_key \<Rightarrow> u64 \<Rightarrow> (ledger, unit, go_error) handler" where
  "l_withdraw pk amount =
     bind_h (l_change pk (\<lambda>(u, l).
        map_ok (\<lambda>u'. (u', l)) (minus_or u amount (ErrInvalidBalance (Some (SubtractUnlocked, u, pk, amount))))))
      (\<lambda>_. return_h ())"

definition l_lock :: "public_key \<Rightarrow> u64 \<Rightarrow> (ledger, unit, go_error) handler" where
  "l_lock pk amount =
     bind_h (l_change pk (\<lambda>(u, l).
        and_then (minus_or u amount (ErrInvalidBalance (Some (SubtractUnlocked, u, pk, amount)))) (\<lambda>u'.
        and_then (plus_or l amount (ErrInvalidBalance (Some (AddLocked, l, pk, amount)))) (\<lambda>l'. Ok (u', l')))))
      (\<lambda>_. return_h ())"

definition l_unlock :: "public_key \<Rightarrow> u64 \<Rightarrow> (ledger, unit, go_error) handler" where
  "l_unlock pk amount =
     bind_h (l_change pk (\<lambda>(u, l).
        and_then (plus_or u amount (ErrInvalidBalance (Some (AddUnlocked, u, pk, amount)))) (\<lambda>u'.
        and_then (minus_or l amount (ErrInvalidBalance (Some (SubtractLocked, l, pk, amount)))) (\<lambda>l'. Ok (u', l')))))
      (\<lambda>_. return_h ())"

definition l_index :: "content_id \<Rightarrow> public_key \<Rightarrow> u64 \<Rightarrow> (ledger, unit, go_error) handler" where
  "l_index contentID pk royalty =
     (if royalty = 0 then throw_h ErrInsufficientTip
      else bind_h (l_content contentID) (\<lambda>c.
        case c of Some (owner, _) \<Rightarrow> throw_h (ErrContentAlreadyExists owner royalty)
        | None \<Rightarrow> l_set_content contentID (Some (pk, royalty))))"

definition l_unindex :: "content_id \<Rightarrow> public_key \<Rightarrow> (ledger, unit, go_error) handler" where
  "l_unindex contentID pk =
     bind_h (l_content contentID) (\<lambda>c.
       case c of None \<Rightarrow> throw_h ErrContentMissing
       | Some (owner, _) \<Rightarrow> if owner = pk then l_set_content contentID None else throw_h (ErrWrongOwner owner))"

text \<open>The tip of a parent: its owner, or the empty key when it is not indexed.\<close>

definition l_reward :: "content_id \<Rightarrow> public_key \<Rightarrow> (ledger, public_key, go_error) handler" where
  "l_reward contentID sender =
     bind_h (l_content contentID) (\<lambda>c.
       case c of None \<Rightarrow> return_h 0
       | Some (owner, royalty) \<Rightarrow>
           bind_h (l_withdraw sender royalty) (\<lambda>_.
           bind_h (l_deposit owner royalty) (\<lambda>_. return_h owner)))"

section \<open>Refinement\<close>

text \<open>
  A handler on the store refines a handler on the ledger when it returns the same result and leads to a
  store of the resulting ledger. The rules follow the structure of handlers.
\<close>

definition refines :: "('s \<Rightarrow> 't option) \<Rightarrow> ('s, 'a, 'e) handler \<Rightarrow> ('t, 'a, 'e) handler \<Rightarrow> bool" where
  "refines A f g \<longleftrightarrow> (\<forall>s t. A s = Some t \<longrightarrow> (\<exists>s'. f s = (fst (g t), s') \<and> A s' = Some (snd (g t))))"

named_theorems refine_rules \<open>rules that follow the structure of handlers\<close>

lemma refinesD: "refines A f g \<Longrightarrow> A s = Some t \<Longrightarrow> \<exists>s'. f s = (fst (g t), s') \<and> A s' = Some (snd (g t))"
  by (simp add: refines_def)

lemma refines_bind [refine_rules]:
  assumes "refines A f g" and "\<And>a. refines A (f' a) (g' a)"
  shows "refines A (bind_h f f') (bind_h g g')"
  unfolding refines_def
proof (intro allI impI)
  fix s t
  assume "A s = Some t"
  then obtain s1 where s1: "f s = (fst (g t), s1)" "A s1 = Some (snd (g t))" using refinesD [OF assms(1)] by blast
  show "\<exists>s'. bind_h f f' s = (fst (bind_h g g' t), s') \<and> A s' = Some (snd (bind_h g g' t))"
  proof (cases "fst (g t)")
    case (Ok a)
    then show ?thesis using s1 refinesD [OF assms(2) s1(2), of a] by (cases "g t") (simp add: bind_h_def)
  qed (use s1 in \<open>cases "g t"; simp add: bind_h_def\<close>)+
qed

lemma refines_return [refine_rules]: "refines A (return_h a) (return_h a)"
  by (simp add: refines_def return_h_def)

lemma refines_throw [refine_rules]: "refines A (throw_h e) (throw_h e)"
  by (simp add: refines_def throw_h_def)

lemma refines_value [refine_rules]: "refines A (lift_h (\<lambda>_. r)) (lift_h (\<lambda>_. r))"
  by (simp add: refines_def lift_h_def)

lemma refines_if [refine_rules]:
  "(c \<Longrightarrow> refines A f g) \<Longrightarrow> (\<not> c \<Longrightarrow> refines A f' g') \<Longrightarrow> refines A (if c then f else f') (if c then g else g')"
  by simp

lemma refines_prod [refine_rules]:
  "(\<And>a b. x = (a, b) \<Longrightarrow> refines A (f a b) (g a b)) \<Longrightarrow>
   refines A (case x of (a, b) \<Rightarrow> f a b) (case x of (a, b) \<Rightarrow> g a b)"
  by (cases x) simp

lemma refines_convert [refine_rules]: "refines A f g \<Longrightarrow> refines A (convert_h h f) (convert_h h g)"
  unfolding refines_def
proof (intro allI impI)
  fix s t
  assume "\<forall>s t. A s = Some t \<longrightarrow> (\<exists>s'. f s = (fst (g t), s') \<and> A s' = Some (snd (g t)))" and "A s = Some t"
  then obtain s' where "f s = (fst (g t), s')" "A s' = Some (snd (g t))" by blast
  then show "\<exists>s'. convert_h h f s = (fst (convert_h h g t), s') \<and> A s' = Some (snd (convert_h h g t))"
    by (cases "g t"; cases "fst (g t)") (simp_all add: convert_h_def)
qed

lemma bind_h_assoc: "bind_h (bind_h m f) g = bind_h m (\<lambda>a. bind_h (f a) g)"
  by (auto simp: bind_h_def fun_eq_iff split: prod.split result.split)

lemma bind_h_return [simp]: "bind_h (return_h a) f = f a" "bind_h m return_h = m"
  by (auto simp: bind_h_def return_h_def fun_eq_iff split: prod.split result.split)

lemma bind_h_throw [simp]: "bind_h (throw_h e) f = throw_h e"
  by (auto simp: bind_h_def throw_h_def fun_eq_iff)

lemma bind_h_value [simp]:
  "bind_h (lift_h (\<lambda>_. Ok a)) f = f a" "bind_h (lift_h (\<lambda>_. Err e)) f = throw_h e"
  by (auto simp: bind_h_def lift_h_def throw_h_def fun_eq_iff)

lemma refines_bind_map:
  assumes "refines A m (bind_h g (\<lambda>c. return_h (h c)))" and "\<And>c. refines A (f (h c)) (g' c)"
  shows "refines A (bind_h m f) (bind_h g g')"
  unfolding refines_def
proof (intro allI impI)
  fix s t
  assume "A s = Some t"
  then obtain s1 where s1: "m s = (fst (bind_h g (\<lambda>c. return_h (h c)) t), s1)"
    "A s1 = Some (snd (bind_h g (\<lambda>c. return_h (h c)) t))"
    using refinesD [OF assms(1)] by blast
  obtain x t1 where g: "g t = (x, t1)" by (cases "g t")
  show "\<exists>s'. bind_h m f s = (fst (bind_h g g' t), s') \<and> A s' = Some (snd (bind_h g g' t))"
  proof (cases x)
    case (Ok c)
    then show ?thesis using s1 g refinesD [OF assms(2), of s1 t1 c] by (simp add: bind_h_def return_h_def)
  qed (use s1 g in \<open>simp_all add: bind_h_def\<close>)
qed

text \<open>Moving funds, written out.\<close>

lemma l_deposit_unfold:
  "l_deposit pk amount = bind_h (l_balance pk) (\<lambda>(u, l).
     case checked_add u amount of
       None \<Rightarrow> throw_h (ErrInvalidBalance (Some (AddUnlocked, u, pk, amount)))
     | Some u' \<Rightarrow> bind_h (l_set_balance pk (u', l)) (\<lambda>_. return_h (0 < l)))"
  unfolding l_deposit_def l_change_def bind_h_assoc
  by (intro arg_cong [where f = "bind_h (l_balance pk)"] ext)
    (auto simp: plus_or_def ok_or_def bind_h_assoc split: option.split)

lemma l_deposit_existing_unfold:
  "l_deposit_existing pk amount = bind_h (l_balance pk) (\<lambda>(u, l).
     if l = 0 then return_h False
     else case checked_add u amount of
       None \<Rightarrow> throw_h (ErrInvalidBalance (Some (AddUnlocked, u, pk, amount)))
     | Some u' \<Rightarrow> bind_h (l_set_balance pk (u', l)) (\<lambda>_. return_h (0 < l)))"
proof
  fix L
  show "l_deposit_existing pk amount L = bind_h (l_balance pk) (\<lambda>(u, l).
     if l = 0 then return_h False
     else case checked_add u amount of
       None \<Rightarrow> throw_h (ErrInvalidBalance (Some (AddUnlocked, u, pk, amount)))
     | Some u' \<Rightarrow> bind_h (l_set_balance pk (u', l)) (\<lambda>_. return_h (0 < l))) L"
    unfolding l_deposit_existing_def l_deposit_unfold
    by (cases "balances L pk"; cases "BalanceKey pk \<in> declared L")
      (simp_all add: l_balance_def l_access_def bind_h_def lift_h_def)
qed

lemma l_withdraw_unfold:
  "l_withdraw pk amount = bind_h (l_balance pk) (\<lambda>(u, l).
     case checked_sub u amount of
       None \<Rightarrow> throw_h (ErrInvalidBalance (Some (SubtractUnlocked, u, pk, amount)))
     | Some u' \<Rightarrow> l_set_balance pk (u', l))"
  unfolding l_withdraw_def l_change_def bind_h_assoc
  by (intro arg_cong [where f = "bind_h (l_balance pk)"] ext)
    (auto simp: minus_or_def ok_or_def bind_h_assoc split: option.split)

lemma l_lock_unfold:
  "l_lock pk amount = bind_h (l_balance pk) (\<lambda>(u, l).
     case checked_sub u amount of
       None \<Rightarrow> throw_h (ErrInvalidBalance (Some (SubtractUnlocked, u, pk, amount)))
     | Some u' \<Rightarrow>
         (case checked_add l amount of
            None \<Rightarrow> throw_h (ErrInvalidBalance (Some (AddLocked, l, pk, amount)))
          | Some l' \<Rightarrow> l_set_balance pk (u', l')))"
  unfolding l_lock_def l_change_def bind_h_assoc
  by (intro arg_cong [where f = "bind_h (l_balance pk)"] ext)
    (auto simp: minus_or_def plus_or_def ok_or_def bind_h_assoc split: option.split)

lemma l_unlock_unfold:
  "l_unlock pk amount = bind_h (l_balance pk) (\<lambda>(u, l).
     case checked_add u amount of
       None \<Rightarrow> throw_h (ErrInvalidBalance (Some (AddUnlocked, u, pk, amount)))
     | Some u' \<Rightarrow>
         (case checked_sub l amount of
            None \<Rightarrow> throw_h (ErrInvalidBalance (Some (SubtractLocked, l, pk, amount)))
          | Some l' \<Rightarrow> l_set_balance pk (u', l')))"
  unfolding l_unlock_def l_change_def bind_h_assoc
  by (intro arg_cong [where f = "bind_h (l_balance pk)"] ext)
    (auto simp: minus_or_def plus_or_def ok_or_def bind_h_assoc split: option.split)

lemma refines_option [refine_rules]:
  "(x = None \<Longrightarrow> refines A f g) \<Longrightarrow> (\<And>a. x = Some a \<Longrightarrow> refines A (f' a) (g' a)) \<Longrightarrow>
   refines A (case x of None \<Rightarrow> f | Some a \<Rightarrow> f' a) (case x of None \<Rightarrow> g | Some a \<Rightarrow> g' a)"
  by (cases x) simp_all

section \<open>The byte store implements the ledger\<close>

definition stored_balance :: "bytes option \<Rightarrow> u64 \<times> u64" where
  "stored_balance x =
     (case x of None \<Rightarrow> (0, 0) | Some v \<Rightarrow> (case innerGetBalance (Ok v) of Ok b \<Rightarrow> b | _ \<Rightarrow> (0, 0)))"

definition stored_permissions :: "bytes option \<Rightarrow> u8 \<times> u8" where
  "stored_permissions x = (case x of None \<Rightarrow> (0, 0) | Some v \<Rightarrow> (v ! 0, v ! 1))"

definition stored_content :: "bytes option \<Rightarrow> (public_key \<times> u64) option" where
  "stored_content x =
     (case x of None \<Rightarrow> None
      | Some v \<Rightarrow> (case innerGetContent (Ok v) of Ok (owner, royalty, _) \<Rightarrow> Some (owner, royalty) | _ \<Rightarrow> None))"

definition ledger_of :: "(bytes \<Rightarrow> bytes option) \<Rightarrow> bytes set \<Rightarrow> go_error \<Rightarrow> ledger" where
  "ledger_of m K kerr =
     \<lparr>balances = (\<lambda>pk. stored_balance (m (key_bytes (BalanceKey pk)))),
      permissions = (\<lambda>(actor, signer). stored_permissions (m (key_bytes (PermissionsKey actor signer)))),
      contents = (\<lambda>i. stored_content (m (key_bytes (ContentKey i)))),
      declared = {k. key_bytes k \<in> K}, key_error = kerr\<rparr>"

definition store_ledger ::
  "('s \<Rightarrow> bytes \<Rightarrow> bytes option) \<Rightarrow> ('s \<Rightarrow> bytes set) \<Rightarrow> go_error \<Rightarrow> 's \<Rightarrow> ledger option" where
  "store_ledger view scope kerr s =
     (if well_typed (view s) then Some (ledger_of (view s) (scope s) kerr) else None)"

declare key_bytes.simps [simp del]

lemma ledger_of_simps [simp]:
  "balances (ledger_of m K kerr) pk = stored_balance (m (key_bytes (BalanceKey pk)))"
  "permissions (ledger_of m K kerr) (actor, signer) = stored_permissions (m (key_bytes (PermissionsKey actor signer)))"
  "contents (ledger_of m K kerr) i = stored_content (m (key_bytes (ContentKey i)))"
  "k \<in> declared (ledger_of m K kerr) \<longleftrightarrow> key_bytes k \<in> K" "key_error (ledger_of m K kerr) = kerr"
  by (simp_all add: ledger_of_def)

lemma ledger_of_update:
  "ledger_of (m(key_bytes (BalanceKey pk) := x)) K kerr =
     (ledger_of m K kerr)\<lparr>balances := (balances (ledger_of m K kerr))(pk := stored_balance x)\<rparr>"
  "ledger_of (m(key_bytes (PermissionsKey actor signer) := x)) K kerr =
     (ledger_of m K kerr)\<lparr>permissions := (permissions (ledger_of m K kerr))((actor, signer) := stored_permissions x)\<rparr>"
  "ledger_of (m(key_bytes (ContentKey i) := x)) K kerr =
     (ledger_of m K kerr)\<lparr>contents := (contents (ledger_of m K kerr))(i := stored_content x)\<rparr>"
  by (auto simp: ledger_of_def fun_eq_iff)

text \<open>What \<^verbatim>\<open>GetContent\<close> returns for an entry of the ledger.\<close>

definition content_triple :: "(public_key \<times> u64) option \<Rightarrow> public_key \<times> u64 \<times> bool" where
  "content_triple c = (case c of None \<Rightarrow> (0, 0, False) | Some (owner, royalty) \<Rightarrow> (owner, royalty, True))"

lemma stored_balance_simps [simp]:
  "stored_balance None = (0, 0)" "stored_balance (Some (PutUint64 u @ PutUint64 l)) = (u, l)"
  by (simp_all add: stored_balance_def innerGetBalance_def slice_to_def slice_from_def)

lemma stored_permissions_simps [simp]:
  "stored_permissions None = (0, 0)" "stored_permissions (Some [a, m]) = (a, m)"
  by (simp_all add: stored_permissions_def)

lemma stored_content_simps [simp]:
  "stored_content None = None" "stored_content (Some (hv_bytes pk @ PutUint64 r)) = Some (pk, r)"
  by (simp_all add: stored_content_def innerGetContent_def slice_to_def slice_from_def)

lemma innerGetBalance_typed: "length v = 16 \<Longrightarrow> innerGetBalance (Ok v) = Ok (stored_balance (Some v))"
  by (simp add: stored_balance_def innerGetBalance_def slice_to_def slice_from_def Uint64_def)

lemma innerGetContent_typed:
  "length v = 40 \<Longrightarrow> \<exists>owner royalty. innerGetContent (Ok v) = Ok (owner, royalty, True) \<and>
     stored_content (Some v) = Some (owner, royalty)"
  by (simp add: stored_content_def innerGetContent_def slice_to_def slice_from_def Uint64_def)

text \<open>What the VM relies on of the libraries around it.\<close>

locale index_sdk =
  fixes E :: "'s sdk" and view :: "'s \<Rightarrow> bytes \<Rightarrow> bytes option" and scope :: "'s \<Rightarrow> bytes set" and kerr :: go_error
  assumes get_law: "\<exists>s'. db_get_value E k s =
      (if k \<in> scope s then (case view s k of None \<Rightarrow> Err ErrNotFound | Some v \<Rightarrow> Ok v) else Err kerr, s') \<and>
      view s' = view s \<and> scope s' = scope s"
    and insert_law: "\<exists>s'. db_insert E k v s = (if k \<in> scope s then Ok () else Err kerr, s') \<and>
      view s' = (if k \<in> scope s then (view s)(k \<mapsto> v) else view s) \<and> scope s' = scope s"
    and remove_law: "\<exists>s'. db_remove E k s = (if k \<in> scope s then Ok () else Err kerr, s') \<and>
      view s' = (if k \<in> scope s then (view s)(k := None) else view s) \<and> scope s' = scope s"
    and undeclared_not_missing: "kerr \<noteq> ErrNotFound"
    and add64_law: "add64 E = checked_add"
    and sub64_law: "sub64 E = checked_sub"
    and lookup_law: "lookup_type E ts kind =
      (if kind \<in> set ts then Some (of_nat (length (takeWhile (\<lambda>t. t \<noteq> kind) ts))) else None)"
begin

abbreviation abs_ledger :: "'s \<Rightarrow> ledger option" where
  "abs_ledger \<equiv> store_ledger view scope kerr"

lemma refines_get:
  assumes ok: "\<And>s. well_typed (view s) \<Longrightarrow>
      decode (case view s (key_bytes k) of None \<Rightarrow> Err ErrNotFound | Some v \<Rightarrow> Ok v) =
      Ok (read (ledger_of (view s) (scope s) kerr))"
    and undeclared: "decode (Err kerr) = Err kerr"
  shows "refines abs_ledger (\<lambda>s. apfst decode (db_get_value E (key_bytes k) s)) (l_access k (lift_h (\<lambda>L. Ok (read L))))"
  unfolding refines_def
proof (intro allI impI)
  fix s L
  assume L: "abs_ledger s = Some L"
  obtain s' where s': "db_get_value E (key_bytes k) s =
      (if key_bytes k \<in> scope s then (case view s (key_bytes k) of None \<Rightarrow> Err ErrNotFound | Some v \<Rightarrow> Ok v) else Err kerr, s')"
    "view s' = view s" "scope s' = scope s"
    using get_law by blast
  show "\<exists>s'. apfst decode (db_get_value E (key_bytes k) s) = (fst (l_access k (lift_h (\<lambda>L. Ok (read L))) L), s') \<and>
      abs_ledger s' = Some (snd (l_access k (lift_h (\<lambda>L. Ok (read L))) L))"
    using L ok [of s] undeclared s'
    by (cases "key_bytes k \<in> scope s") (auto simp: l_access_def lift_h_def store_ledger_def split: if_splits)
qed

lemma refines_put:
  assumes upd: "\<And>s. ledger_of ((view s)(key_bytes k := x)) (scope s) kerr = upd (ledger_of (view s) (scope s) kerr)"
    and typed: "\<And>s. well_typed (view s) \<Longrightarrow> well_typed ((view s)(key_bytes k := x))"
    and run: "\<And>s. \<exists>s'. m s = (if key_bytes k \<in> scope s then Ok () else Err kerr, s') \<and>
      view s' = (if key_bytes k \<in> scope s then (view s)(key_bytes k := x) else view s) \<and> scope s' = scope s"
  shows "refines abs_ledger m (l_access k (modify_h upd))"
  unfolding refines_def
proof (intro allI impI)
  fix s L
  assume L: "abs_ledger s = Some L"
  obtain s' where s': "m s = (if key_bytes k \<in> scope s then Ok () else Err kerr, s')"
    "view s' = (if key_bytes k \<in> scope s then (view s)(key_bytes k := x) else view s)" "scope s' = scope s"
    using run [of s] by blast
  show "\<exists>s'. m s = (fst (l_access k (modify_h upd) L), s') \<and> abs_ledger s' = Some (snd (l_access k (modify_h upd) L))"
    using L upd [of s] typed [of s] s'
    by (cases "key_bytes k \<in> scope s") (auto simp: l_access_def modify_h_def store_ledger_def split: if_splits)
qed

lemma GetBalance_refines [refine_rules]: "refines abs_ledger (GetBalance E pk) (l_balance pk)"
  unfolding GetBalance_def l_balance_def key_bytes.simps(1) [symmetric]
proof (rule refines_get)
  fix s
  assume t: "well_typed (view s)"
  show "innerGetBalance (case view s (key_bytes (BalanceKey pk)) of None \<Rightarrow> Err ErrNotFound | Some v \<Rightarrow> Ok v) =
      Ok (balances (ledger_of (view s) (scope s) kerr) pk)"
  proof (cases "view s (key_bytes (BalanceKey pk))")
    case (Some v)
    then have "length v = 16" using t by (auto simp: well_typed_def)
    then show ?thesis using Some innerGetBalance_typed by simp
  qed (simp add: innerGetBalance_def)
qed (simp add: innerGetBalance_def undeclared_not_missing)

lemma SetBalance_refines [refine_rules]: "refines abs_ledger (SetBalance E pk u l) (l_set_balance pk (u, l))"
  unfolding SetBalance_def l_set_balance_def key_bytes.simps(1) [symmetric]
  by (rule refines_put [OF _ _ insert_law]) (simp_all add: ledger_of_update well_typed_update)

lemma DeleteBalance_refines [refine_rules]: "refines abs_ledger (DeleteBalance E pk) (l_set_balance pk (0, 0))"
  unfolding DeleteBalance_def l_set_balance_def key_bytes.simps(1) [symmetric]
  by (rule refines_put [OF _ _ remove_law]) (simp_all add: ledger_of_update well_typed_remove)

lemma GetPermissions_refines [refine_rules]:
  "refines abs_ledger (GetPermissions E actor signer) (l_permissions actor signer)"
  unfolding GetPermissions_def l_permissions_def key_bytes.simps(2) [symmetric]
proof (rule refines_get)
  fix s
  assume t: "well_typed (view s)"
  let ?x = "view s (key_bytes (PermissionsKey actor signer))"
  show "(case case ?x of None \<Rightarrow> Err ErrNotFound | Some v \<Rightarrow> Ok v of
        Err e \<Rightarrow> if e = ErrNotFound then Ok (0, 0) else Err e | Panic \<Rightarrow> Panic
      | Ok v \<Rightarrow> and_then (index_at v 0) (\<lambda>a. and_then (index_at v 1) (\<lambda>m. Ok (a, m)))) =
      Ok (permissions (ledger_of (view s) (scope s) kerr) (actor, signer))"
  proof (cases ?x)
    case (Some v)
    then have "length v = 2" using t by (auto simp: well_typed_def)
    then show ?thesis using Some by (simp add: index_at_def stored_permissions_def)
  qed simp
qed (simp add: undeclared_not_missing)

lemma SetPermissions_refines [refine_rules]:
  "refines abs_ledger (SetPermissions E actor signer a m) (l_set_permissions actor signer (a, m))"
  unfolding SetPermissions_def l_set_permissions_def key_bytes.simps(2) [symmetric]
  by (rule refines_put [OF _ _ insert_law]) (simp_all add: ledger_of_update well_typed_update)

lemma DeletePermissions_refines [refine_rules]:
  "refines abs_ledger (DeletePermissions E actor signer) (l_set_permissions actor signer (0, 0))"
  unfolding DeletePermissions_def l_set_permissions_def key_bytes.simps(2) [symmetric]
  by (rule refines_put [OF _ _ remove_law]) (simp_all add: ledger_of_update well_typed_remove)

lemma SetContent_refines [refine_rules]:
  "refines abs_ledger (SetContent E i owner royalty) (l_set_content i (Some (owner, royalty)))"
  unfolding SetContent_def l_set_content_def key_bytes.simps(3) [symmetric]
  by (rule refines_put [OF _ _ insert_law]) (simp_all add: ledger_of_update well_typed_update)

lemma RemoveContent_refines [refine_rules]:
  "refines abs_ledger (db_remove E (PrefixContentKey i)) (l_set_content i None)"
  unfolding l_set_content_def key_bytes.simps(3) [symmetric]
  by (rule refines_put [OF _ _ remove_law]) (simp_all add: ledger_of_update well_typed_remove)

lemma AddUnlockedBalance_refines [refine_rules]:
  "refines abs_ledger (AddUnlockedBalance E pk amount False) (l_deposit pk amount)"
  "refines abs_ledger (AddUnlockedBalance E pk amount True) (l_deposit_existing pk amount)"
proof -
  show dep: "refines abs_ledger (AddUnlockedBalance E pk amount False) (l_deposit pk amount)"
    unfolding AddUnlockedBalance_def l_deposit_unfold add64_law by (simp, intro refine_rules)
  show "refines abs_ledger (AddUnlockedBalance E pk amount True) (l_deposit_existing pk amount)"
    unfolding AddUnlockedBalance_def l_deposit_existing_unfold add64_law by (simp, intro refine_rules)
qed

lemma SubUnlockedBalance_refines [refine_rules]: "refines abs_ledger (SubUnlockedBalance E pk amount) (l_withdraw pk amount)"
  unfolding SubUnlockedBalance_def l_withdraw_unfold sub64_law by (intro refine_rules)

lemma LockBalance_refines [refine_rules]: "refines abs_ledger (LockBalance E pk amount) (l_lock pk amount)"
  unfolding LockBalance_def l_lock_unfold add64_law sub64_law by (intro refine_rules)

lemma UnlockBalance_refines [refine_rules]: "refines abs_ledger (UnlockBalance E pk amount) (l_unlock pk amount)"
  unfolding UnlockBalance_def l_unlock_unfold add64_law sub64_law by (intro refine_rules)

lemma GetContent_refines:
  "refines abs_ledger (GetContent E i) (bind_h (l_content i) (\<lambda>c. return_h (content_triple c)))"
proof -
  have "refines abs_ledger (GetContent E i) (l_access (ContentKey i) (lift_h (\<lambda>L. Ok (content_triple (contents L i)))))"
    unfolding GetContent_def key_bytes.simps(3) [symmetric]
  proof (rule refines_get)
    fix s
    assume t: "well_typed (view s)"
    show "innerGetContent (case view s (key_bytes (ContentKey i)) of None \<Rightarrow> Err ErrNotFound | Some v \<Rightarrow> Ok v) =
        Ok (content_triple (contents (ledger_of (view s) (scope s) kerr) i))"
    proof (cases "view s (key_bytes (ContentKey i))")
      case (Some v)
      then have "length v = 40" using t by (auto simp: well_typed_def)
      then show ?thesis using Some innerGetContent_typed by (fastforce simp: content_triple_def)
    qed (simp add: innerGetContent_def content_triple_def)
  qed (simp add: innerGetContent_def undeclared_not_missing)
  also have "l_access (ContentKey i) (lift_h (\<lambda>L. Ok (content_triple (contents L i)))) =
      bind_h (l_content i) (\<lambda>c. return_h (content_triple c))"
    by (auto simp: l_content_def l_access_def bind_h_def lift_h_def return_h_def fun_eq_iff)
  finally show ?thesis .
qed

lemma bind_GetContent_refines [refine_rules]:
  assumes "refines abs_ledger (f (0, 0, False)) (g None)"
    and "\<And>owner royalty. refines abs_ledger (f (owner, royalty, True)) (g (Some (owner, royalty)))"
  shows "refines abs_ledger (bind_h (GetContent E i) f) (bind_h (l_content i) g)"
  by (rule refines_bind_map [OF GetContent_refines])
    (use assms in \<open>auto simp: content_triple_def split: option.split\<close>)

lemma IndexContent_refines [refine_rules]: "refines abs_ledger (IndexContent E i pk royalty) (l_index i pk royalty)"
  unfolding IndexContent_def l_index_def
  by (intro refines_if refines_throw bind_GetContent_refines) (simp_all add: refine_rules)

lemma UnindexContent_refines [refine_rules]: "refines abs_ledger (UnindexContent E i pk) (l_unindex i pk)"
  unfolding UnindexContent_def l_unindex_def
  by (intro bind_GetContent_refines) (simp_all add: refine_rules)

lemma RewardSearcher_refines [refine_rules]: "refines abs_ledger (RewardSearcher E i sender) (l_reward i sender)"
  unfolding RewardSearcher_def l_reward_def
  by (intro bind_GetContent_refines) (simp_all add: refine_rules)

end

end
