(* ===== verification/Index_Vm.thy ===== *)
theory Index_Vm
  imports Index_Storage
begin

text \<open>
  The Index VM: authorization (\<^verbatim>\<open>src/auth\<close>), the genesis and the rules (\<^verbatim>\<open>src/genesis\<close>), the six actions
  (\<^verbatim>\<open>src/actions\<close>) and the record of accepted transactions (\<^verbatim>\<open>src/controller\<close>).

  \<^verbatim>\<open>Execute\<close> of an action returns a \<^verbatim>\<open>chain.Result\<close> and leaves the changes it made in the database, also when it
  is not successful: undoing them is the chain's part. Its body is a handler whose error is the output
  of the failed result. \<^verbatim>\<open>chain.Auth\<close> and \<^verbatim>\<open>chain.Action\<close> are interfaces; \<open>auth\<close> and
  \<open>action\<close> are their implementations that the registry knows, so the default branches of \<^verbatim>\<open>GetActor\<close> and
  \<^verbatim>\<open>GetSigner\<close> have no counterpart.
\<close>

section \<open>Bit sets\<close>

definition MaxUint8Offset :: u8 where "MaxUint8Offset = 7"
definition MaxUint8 :: u8 where "MaxUint8 = 255"

definition CheckBit :: "u8 \<Rightarrow> u8 \<Rightarrow> bool" where
  "CheckBit b v = (if v > MaxUint8Offset then False else b AND push_bit (unat v) 1 \<noteq> 0)"

definition SetBit :: "u8 \<Rightarrow> u8 \<Rightarrow> u8" where
  "SetBit b v = (if v > MaxUint8Offset then b else b OR push_bit (unat v) 1)"

section \<open>Actions and their registry\<close>

record authorize =
  au_Actor :: public_key
  au_Signer :: public_key
  au_ActionPermissions :: u8
  au_MiscPermissions :: u8

record clear =
  cl_To :: public_key

record transfer =
  tr_To :: public_key
  tr_Value :: u64

record index =
  ix_Schema :: content_id
  ix_Content :: bytes
  ix_Royalty :: u64
  ix_Parent :: content_id
  ix_Searcher :: public_key
  ix_Servicer :: public_key
  ix_Commission :: u64

record unindex =
  un_Content :: content_id

record modify =
  mo_Content :: content_id
  mo_Royalty :: u64

datatype action =
    AuthorizeAction authorize
  | TransferAction transfer
  | ClearAction clear
  | IndexAction index
  | UnindexAction unindex
  | ModifyAction modify

fun kind_of :: "action \<Rightarrow> action_kind" where
  "kind_of (AuthorizeAction _) = KAuthorize"
| "kind_of (TransferAction _) = KTransfer"
| "kind_of (ClearAction _) = KClear"
| "kind_of (IndexAction _) = KIndex"
| "kind_of (UnindexAction _) = KUnindex"
| "kind_of (ModifyAction _) = KModify"

definition ActionRegistry :: "action_kind list" where
  "ActionRegistry = [KAuthorize, KTransfer, KClear, KIndex, KUnindex, KModify]"

section \<open>Authorization\<close>

type_synonym signature = bytes

record direct =
  di_Signer :: public_key
  di_Signature :: signature

record delegate =
  de_Actor :: public_key
  de_Signer :: public_key
  de_Signature :: signature
  de_ActorPays :: bool

datatype auth = AuthDirect direct | AuthDelegate delegate

definition EmptyPublicKey :: public_key where "EmptyPublicKey = 0"
definition ids_Empty :: content_id where "ids_Empty = 0"

definition PublicKeyLen :: u64 where "PublicKeyLen = 32"
definition SignatureLen :: u64 where "SignatureLen = 64"
definition IDLen :: u64 where "IDLen = 32"
definition IntLen :: u64 where "IntLen = 4"
definition Uint64Len :: u64 where "Uint64Len = 8"

definition actorPaysBit :: u8 where "actorPaysBit = 0"

fun GetActor :: "auth \<Rightarrow> public_key" where
  "GetActor (AuthDirect a) = di_Signer a"
| "GetActor (AuthDelegate a) = de_Actor a"

fun GetSigner :: "auth \<Rightarrow> public_key" where
  "GetSigner (AuthDirect a) = di_Signer a"
| "GetSigner (AuthDelegate a) = de_Signer a"

definition Authorized ::
  "'s sdk \<Rightarrow> action \<Rightarrow> public_key \<Rightarrow> public_key \<Rightarrow> bool \<Rightarrow> ('s, unit, go_error) handler" where
  "Authorized E action actor signer actorPays =
     bind_h (GetPermissions E actor signer) (\<lambda>(actionPerms, miscPerms).
       case lookup_type E ActionRegistry (kind_of action) of
         None \<Rightarrow> throw_h ErrActionMissing
       | Some i \<Rightarrow>
           if \<not> CheckBit actionPerms i then throw_h ErrNotAllowed
           else if actorPays \<and> \<not> CheckBit miscPerms actorPaysBit then throw_h ErrNotAllowed
           else return_h ())"

definition Direct_MaxUnits :: "direct \<Rightarrow> u64" where
  "Direct_MaxUnits d = PublicKeyLen + SignatureLen * 5"

definition Direct_StateKeys :: "direct \<Rightarrow> bytes list" where
  "Direct_StateKeys d = [PrefixBalanceKey (di_Signer d), PrefixPermissionsKey (di_Signer d) (di_Signer d)]"

definition Direct_AsyncVerify :: "'s sdk \<Rightarrow> direct \<Rightarrow> bytes \<Rightarrow> (unit, go_error) result" where
  "Direct_AsyncVerify E d msg =
     (if \<not> sig_verify E msg (di_Signer d) (di_Signature d) then Err ErrInvalidSignature else Ok ())"

definition Direct_Verify :: "'s sdk \<Rightarrow> direct \<Rightarrow> action \<Rightarrow> ('s, u64, go_error) handler" where
  "Direct_Verify E d action =
     bind_h (Authorized E action (di_Signer d) (di_Signer d) True) (\<lambda>_. return_h (Direct_MaxUnits d))"

definition Direct_Payer :: "direct \<Rightarrow> bytes" where
  "Direct_Payer d = hv_bytes (di_Signer d)"

definition Direct_CanDeduct :: "'s sdk \<Rightarrow> direct \<Rightarrow> u64 \<Rightarrow> ('s, unit, go_error) handler" where
  "Direct_CanDeduct E d amount =
     bind_h (GetBalance E (di_Signer d)) (\<lambda>(u, _).
       if u < amount then throw_h (ErrInvalidBalance None) else return_h ())"

definition Direct_Deduct :: "'s sdk \<Rightarrow> direct \<Rightarrow> u64 \<Rightarrow> ('s, unit, go_error) handler" where
  "Direct_Deduct E d amount = SubUnlockedBalance E (di_Signer d) amount"

definition Direct_Refund :: "'s sdk \<Rightarrow> direct \<Rightarrow> u64 \<Rightarrow> ('s, unit, go_error) handler" where
  "Direct_Refund E d amount = bind_h (AddUnlockedBalance E (di_Signer d) amount True) (\<lambda>_. return_h ())"

definition DirectFactory_Sign :: "'s sdk \<Rightarrow> bytes \<Rightarrow> bytes \<Rightarrow> auth" where
  "DirectFactory_Sign E priv msg =
     AuthDirect \<lparr>di_Signer = sig_public E priv, di_Signature = sig_sign E msg priv\<rparr>"

definition Delegate_payer :: "delegate \<Rightarrow> public_key" where
  "Delegate_payer d = (if de_ActorPays d then de_Actor d else de_Signer d)"

definition Delegate_MaxUnits :: "delegate \<Rightarrow> u64" where
  "Delegate_MaxUnits d = 1 + PublicKeyLen * 2 + SignatureLen * 5"

definition Delegate_StateKeys :: "delegate \<Rightarrow> bytes list" where
  "Delegate_StateKeys d =
     [PrefixBalanceKey (Delegate_payer d), PrefixPermissionsKey (de_Actor d) (de_Signer d)]"

definition Delegate_AsyncVerify :: "'s sdk \<Rightarrow> delegate \<Rightarrow> bytes \<Rightarrow> (unit, go_error) result" where
  "Delegate_AsyncVerify E d msg =
     (if \<not> sig_verify E msg (de_Signer d) (de_Signature d) then Err ErrInvalidSignature else Ok ())"

definition Delegate_Verify :: "'s sdk \<Rightarrow> delegate \<Rightarrow> action \<Rightarrow> ('s, u64, go_error) handler" where
  "Delegate_Verify E d action =
     (if de_Actor d = de_Signer d then throw_h ErrActorEqualsSigner
      else bind_h (Authorized E action (de_Actor d) (de_Signer d) (de_ActorPays d))
        (\<lambda>_. return_h (Delegate_MaxUnits d)))"

definition Delegate_Payer :: "delegate \<Rightarrow> bytes" where
  "Delegate_Payer d = hv_bytes (Delegate_payer d)"

definition Delegate_CanDeduct :: "'s sdk \<Rightarrow> delegate \<Rightarrow> u64 \<Rightarrow> ('s, unit, go_error) handler" where
  "Delegate_CanDeduct E d amount =
     bind_h (GetBalance E (Delegate_payer d)) (\<lambda>(u, _).
       if u < amount then throw_h (ErrInvalidBalance None) else return_h ())"

definition Delegate_Deduct :: "'s sdk \<Rightarrow> delegate \<Rightarrow> u64 \<Rightarrow> ('s, unit, go_error) handler" where
  "Delegate_Deduct E d amount = SubUnlockedBalance E (Delegate_payer d) amount"

definition Delegate_Refund :: "'s sdk \<Rightarrow> delegate \<Rightarrow> u64 \<Rightarrow> ('s, unit, go_error) handler" where
  "Delegate_Refund E d amount = bind_h (AddUnlockedBalance E (Delegate_payer d) amount True) (\<lambda>_. return_h ())"

definition DelegateFactory_Sign :: "'s sdk \<Rightarrow> public_key \<Rightarrow> bytes \<Rightarrow> bool \<Rightarrow> bytes \<Rightarrow> auth" where
  "DelegateFactory_Sign E actor priv actorPays msg =
     AuthDelegate \<lparr>de_Actor = actor, de_Signer = sig_public E priv, de_Signature = sig_sign E msg priv,
       de_ActorPays = actorPays\<rparr>"

section \<open>Genesis and rules\<close>

record custom_allocation =
  ca_Address :: string
  ca_Balance :: u64

record genesis =
  HRP :: string
  MaxBlockTxs :: u64
  MaxBlockUnits :: u64
  BaseUnits :: u64
  StateLockup :: u64
  ValidityWindow :: u64
  MinUnitPrice :: u64
  UnitPriceChangeDenominator :: u64
  WindowTargetUnits :: u64
  MinBlockCost :: u64
  BlockCostChangeDenominator :: u64
  WindowTargetBlocks :: u64
  CustomAllocation :: "custom_allocation list"

definition genesis_Default :: genesis where
  "genesis_Default =
     \<lparr>HRP = ''index'', MaxBlockTxs = 20000, MaxBlockUnits = 1800000, BaseUnits = 48, StateLockup = 1024,
      ValidityWindow = 60, MinUnitPrice = 1, UnitPriceChangeDenominator = 48, WindowTargetUnits = 9000000,
      MinBlockCost = 0, BlockCostChangeDenominator = 48, WindowTargetBlocks = 20, CustomAllocation = []\<rparr>"

text \<open>\<^verbatim>\<open>json.Unmarshal\<close> writes the fields that are present over the defaults; it is the first argument.\<close>

definition genesis_New :: "(bytes \<Rightarrow> genesis \<Rightarrow> (genesis, string) result) \<Rightarrow> bytes \<Rightarrow> (genesis, go_error) result" where
  "genesis_New unmarshal b =
     and_then (if length b > 0 then map_err ErrUnmarshal (unmarshal b genesis_Default) else Ok genesis_Default) (\<lambda>g.
       if WindowTargetUnits g = 0 then Err ErrInvalidTarget
       else if WindowTargetBlocks g = 0 then Err ErrInvalidTarget
       else Ok g)"

definition Load_allocation :: "'s sdk \<Rightarrow> genesis \<Rightarrow> custom_allocation \<Rightarrow> ('s, unit, go_error) handler" where
  "Load_allocation E g alloc =
     bind_h (lift_h (\<lambda>_. parse_address E (ca_Address alloc))) (\<lambda>pk.
     bind_h (AddUnlockedBalance E pk (ca_Balance alloc) False) (\<lambda>_.
     bind_h (LockBalance E pk (StateLockup g * 2)) (\<lambda>_.
     SetPermissions E pk pk MaxUint8 MaxUint8)))"

fun Load_allocations :: "'s sdk \<Rightarrow> genesis \<Rightarrow> custom_allocation list \<Rightarrow> ('s, unit, go_error) handler" where
  "Load_allocations E g [] = return_h ()"
| "Load_allocations E g (alloc # rest) =
     bind_h (Load_allocation E g alloc) (\<lambda>_. Load_allocations E g rest)"

definition genesis_Load :: "'s sdk \<Rightarrow> genesis \<Rightarrow> ('s, unit, go_error) handler" where
  "genesis_Load E g = Load_allocations E g (CustomAllocation g)"

record rules =
  chainID :: content_id
  rules_g :: genesis

definition StateLockupField :: string where "StateLockupField = ''state_lockup''"

definition FetchCustom :: "rules \<Rightarrow> string \<Rightarrow> u64 option" where
  "FetchCustom r f = (if f = StateLockupField then Some (StateLockup (rules_g r)) else None)"

definition GetStateLockup :: "rules \<Rightarrow> (u64, go_error) result" where
  "GetStateLockup r =
     (case FetchCustom r StateLockupField of None \<Rightarrow> Err ErrStateLockupMissing | Some v \<Rightarrow> Ok v)"

section \<open>Results\<close>

datatype outputs =
    OutputContentEmpty | OutputContentMissing | OutputInvalidSchema | OutputInvalidContent | OutputWrongOwner
  | OutputInvalidObject | OutputServicerMissing | OutputInvalidBalance | OutputAccountNotEmpty | OutputAccountEmpty
  | OutputPermissionsUseless | OutputActorMismatch | OutputValueZero
  | ErrBytes go_error
  | NoOutput

record chain_result =
  res_Success :: bool
  res_Units :: u64
  res_Output :: outputs

text \<open>A storage call whose error ends the action with its message, and the result of an action.\<close>

definition or_output :: "('s, 'a, go_error) handler \<Rightarrow> ('s, 'a, outputs) handler" where
  "or_output m = convert_h (\<lambda>e. Err (ErrBytes e)) m"

definition action_result :: "u64 \<Rightarrow> ('s, unit, outputs) handler \<Rightarrow> ('s, chain_result, go_error) handler" where
  "action_result unitsUsed body = (\<lambda>s. case body s of
     (Ok _, s') \<Rightarrow> (Ok \<lparr>res_Success = True, res_Units = unitsUsed, res_Output = NoOutput\<rparr>, s')
   | (Err out, s') \<Rightarrow> (Ok \<lparr>res_Success = False, res_Units = unitsUsed, res_Output = out\<rparr>, s')
   | (Panic, s') \<Rightarrow> (Panic, s'))"

abbreviation state_lockup :: "rules \<Rightarrow> ('s, u64, outputs) handler" where
  "state_lockup r \<equiv> or_output (lift_h (\<lambda>_. GetStateLockup r))"

section \<open>Authorize\<close>

definition Authorize_StateKeys :: "authorize \<Rightarrow> bytes list" where
  "Authorize_StateKeys a = [PrefixPermissionsKey (au_Actor a) (au_Signer a)]"

definition Authorize_MaxUnits :: "authorize \<Rightarrow> u64" where
  "Authorize_MaxUnits a = PublicKeyLen * 2 + 2"

definition Authorize_body :: "'s sdk \<Rightarrow> rules \<Rightarrow> auth \<Rightarrow> authorize \<Rightarrow> ('s, unit, outputs) handler" where
  "Authorize_body E r rauth a =
     (let actor = GetActor rauth in
      if actor \<noteq> au_Actor a then throw_h OutputActorMismatch
      else bind_h (or_output (GetPermissions E (au_Actor a) (au_Signer a))) (\<lambda>(actionPermissions, miscPermissions).
        if actionPermissions = au_ActionPermissions a \<and> miscPermissions = au_MiscPermissions a
        then throw_h OutputPermissionsUseless
        else bind_h (state_lockup r) (\<lambda>stateLockup.
          if actionPermissions = 0 \<and> miscPermissions = 0 then
            bind_h (or_output (LockBalance E (au_Actor a) stateLockup)) (\<lambda>_.
              or_output (SetPermissions E (au_Actor a) (au_Signer a) (au_ActionPermissions a) (au_MiscPermissions a)))
          else if au_ActionPermissions a = 0 \<and> au_MiscPermissions a = 0 then
            bind_h (or_output (UnlockBalance E (au_Actor a) stateLockup)) (\<lambda>_.
              or_output (DeletePermissions E (au_Actor a) (au_Signer a)))
          else
            or_output (SetPermissions E (au_Actor a) (au_Signer a) (au_ActionPermissions a) (au_MiscPermissions a)))))"

definition Authorize_Execute :: "'s sdk \<Rightarrow> rules \<Rightarrow> auth \<Rightarrow> authorize \<Rightarrow> ('s, chain_result, go_error) handler" where
  "Authorize_Execute E r rauth a = action_result (Authorize_MaxUnits a) (Authorize_body E r rauth a)"

section \<open>Transfer\<close>

definition Transfer_StateKeys :: "auth \<Rightarrow> transfer \<Rightarrow> bytes list" where
  "Transfer_StateKeys rauth t =
     [PrefixBalanceKey (GetActor rauth), PrefixBalanceKey (tr_To t), PrefixPermissionsKey (tr_To t) (tr_To t)]"

definition Transfer_MaxUnits :: "transfer \<Rightarrow> u64" where
  "Transfer_MaxUnits t = PublicKeyLen + Uint64Len"

definition Transfer_body :: "'s sdk \<Rightarrow> rules \<Rightarrow> auth \<Rightarrow> transfer \<Rightarrow> ('s, unit, outputs) handler" where
  "Transfer_body E r rauth t =
     (let actor = GetActor rauth in
      if tr_Value t = 0 then throw_h OutputValueZero
      else bind_h (state_lockup r) (\<lambda>stateLockup.
        bind_h (or_output (SubUnlockedBalance E actor (tr_Value t))) (\<lambda>_.
        bind_h (or_output (AddUnlockedBalance E (tr_To t) (tr_Value t) False)) (\<lambda>alreadyExists.
        if alreadyExists then return_h ()
        else bind_h (or_output (LockBalance E (tr_To t) (stateLockup * 2))) (\<lambda>_.
          or_output (SetPermissions E (tr_To t) (tr_To t) MaxUint8 MaxUint8))))))"

definition Transfer_Execute :: "'s sdk \<Rightarrow> rules \<Rightarrow> auth \<Rightarrow> transfer \<Rightarrow> ('s, chain_result, go_error) handler" where
  "Transfer_Execute E r rauth t = action_result (Transfer_MaxUnits t) (Transfer_body E r rauth t)"

section \<open>Clear\<close>

definition Clear_StateKeys :: "auth \<Rightarrow> clear \<Rightarrow> bytes list" where
  "Clear_StateKeys rauth c = [PrefixBalanceKey (GetActor rauth), PrefixBalanceKey (cl_To c)]"

definition Clear_MaxUnits :: "clear \<Rightarrow> u64" where
  "Clear_MaxUnits c = PublicKeyLen"

definition Clear_body :: "'s sdk \<Rightarrow> rules \<Rightarrow> auth \<Rightarrow> clear \<Rightarrow> ('s, unit, outputs) handler" where
  "Clear_body E r rauth c =
     (let actor = GetActor rauth in
      bind_h (state_lockup r) (\<lambda>stateLockup.
      bind_h (or_output (GetBalance E actor)) (\<lambda>(u, l).
      if l = 0 then throw_h OutputInvalidBalance
      else if l \<noteq> stateLockup * 2 then throw_h OutputAccountNotEmpty
      else let transferAmount = u + l in
        bind_h (or_output (DeleteBalance E actor)) (\<lambda>_.
        bind_h (or_output (DeletePermissions E actor (GetSigner rauth))) (\<lambda>_.
        bind_h (or_output (AddUnlockedBalance E (cl_To c) transferAmount False)) (\<lambda>alreadyExists.
        if alreadyExists then return_h ()
        else bind_h (or_output (LockBalance E (cl_To c) (stateLockup * 2))) (\<lambda>_.
          or_output (SetPermissions E (cl_To c) (cl_To c) MaxUint8 MaxUint8))))))))"

definition Clear_Execute :: "'s sdk \<Rightarrow> rules \<Rightarrow> auth \<Rightarrow> clear \<Rightarrow> ('s, chain_result, go_error) handler" where
  "Clear_Execute E r rauth c = action_result (Clear_MaxUnits c) (Clear_body E r rauth c)"

section \<open>Index\<close>

definition MaxContentSize :: nat where "MaxContentSize = 1600"

definition ContentID :: "'s sdk \<Rightarrow> index \<Rightarrow> content_id" where
  "ContentID E i = to_id E (pack_id E (ix_Parent i) @ pack_bytes E (ix_Content i))"

definition Index_StateKeys :: "'s sdk \<Rightarrow> auth \<Rightarrow> index \<Rightarrow> bytes list" where
  "Index_StateKeys E rauth i =
     [PrefixBalanceKey (GetActor rauth)] @
     (if ix_Parent i \<noteq> ids_Empty then
        PrefixContentKey (ix_Parent i) #
        (if ix_Searcher i \<noteq> EmptyPublicKey then [PrefixBalanceKey (ix_Searcher i)] else [])
      else []) @
     (if ix_Royalty i > 0 then [PrefixContentKey (ContentID E i)] else []) @
     (if ix_Servicer i \<noteq> EmptyPublicKey \<and> ix_Commission i > 0 then [PrefixBalanceKey (ix_Servicer i)] else [])"

definition Index_MaxUnits :: "index \<Rightarrow> u64" where
  "Index_MaxUnits i =
     IDLen + IntLen + of_nat (length (ix_Content i)) + 1 +
     (if ix_Royalty i > 0 then Uint64Len else 0) +
     (if ix_Parent i \<noteq> ids_Empty then IDLen else 0) +
     (if ix_Searcher i \<noteq> EmptyPublicKey then PublicKeyLen else 0) +
     (if ix_Servicer i \<noteq> EmptyPublicKey then PublicKeyLen else 0) +
     (if ix_Commission i > 0 then Uint64Len else 0)"

text \<open>The three parts of \<^verbatim>\<open>Execute\<close>: the tip for the parent, the registration, the commission.\<close>

definition Index_parent :: "'s sdk \<Rightarrow> auth \<Rightarrow> index \<Rightarrow> ('s, unit, outputs) handler" where
  "Index_parent E rauth i =
     (if ix_Parent i \<noteq> ids_Empty then
        bind_h (or_output (RewardSearcher E (ix_Parent i) (GetActor rauth))) (\<lambda>owner.
          if owner \<noteq> ix_Searcher i then throw_h OutputWrongOwner else return_h ())
      else if ix_Searcher i \<noteq> EmptyPublicKey then throw_h OutputInvalidObject
      else return_h ())"

definition Index_register :: "'s sdk \<Rightarrow> rules \<Rightarrow> auth \<Rightarrow> index \<Rightarrow> ('s, unit, outputs) handler" where
  "Index_register E r rauth i =
     (if ix_Royalty i > 0 then
        bind_h (or_output (IndexContent E (ContentID E i) (GetActor rauth) (ix_Royalty i))) (\<lambda>_.
        bind_h (state_lockup r) (\<lambda>stateLockup. or_output (LockBalance E (GetActor rauth) stateLockup)))
      else return_h ())"

definition Index_commission :: "'s sdk \<Rightarrow> auth \<Rightarrow> index \<Rightarrow> ('s, unit, outputs) handler" where
  "Index_commission E rauth i =
     (if ix_Servicer i = EmptyPublicKey then
        (if ix_Commission i > 0 then throw_h OutputInvalidObject else return_h ())
      else if ix_Commission i = 0 then return_h ()
      else bind_h (or_output (SubUnlockedBalance E (GetActor rauth) (ix_Commission i))) (\<lambda>_.
        bind_h (or_output (AddUnlockedBalance E (ix_Servicer i) (ix_Commission i) False)) (\<lambda>exists.
        if \<not> exists then throw_h OutputServicerMissing else return_h ())))"

definition Index_body :: "'s sdk \<Rightarrow> rules \<Rightarrow> auth \<Rightarrow> index \<Rightarrow> ('s, unit, outputs) handler" where
  "Index_body E r rauth i =
     (if ix_Schema i = ids_Empty then throw_h OutputInvalidSchema
      else if length (ix_Content i) > MaxContentSize then throw_h OutputInvalidContent
      else bind_h (Index_parent E rauth i) (\<lambda>_.
        bind_h (Index_register E r rauth i) (\<lambda>_. Index_commission E rauth i)))"

definition Index_Execute :: "'s sdk \<Rightarrow> rules \<Rightarrow> auth \<Rightarrow> index \<Rightarrow> ('s, chain_result, go_error) handler" where
  "Index_Execute E r rauth i = action_result (Index_MaxUnits i) (Index_body E r rauth i)"

section \<open>Unindex\<close>

definition Unindex_StateKeys :: "auth \<Rightarrow> unindex \<Rightarrow> bytes list" where
  "Unindex_StateKeys rauth u = [PrefixBalanceKey (GetActor rauth), PrefixContentKey (un_Content u)]"

definition Unindex_MaxUnits :: "unindex \<Rightarrow> u64" where
  "Unindex_MaxUnits u = IDLen"

definition Unindex_body :: "'s sdk \<Rightarrow> rules \<Rightarrow> auth \<Rightarrow> unindex \<Rightarrow> ('s, unit, outputs) handler" where
  "Unindex_body E r rauth u =
     (let actor = GetActor rauth in
      if un_Content u = ids_Empty then throw_h OutputInvalidContent
      else bind_h (or_output (UnindexContent E (un_Content u) actor)) (\<lambda>_.
        bind_h (state_lockup r) (\<lambda>stateLockup. or_output (UnlockBalance E actor stateLockup))))"

definition Unindex_Execute :: "'s sdk \<Rightarrow> rules \<Rightarrow> auth \<Rightarrow> unindex \<Rightarrow> ('s, chain_result, go_error) handler" where
  "Unindex_Execute E r rauth u = action_result (Unindex_MaxUnits u) (Unindex_body E r rauth u)"

section \<open>Modify\<close>

definition Modify_StateKeys :: "modify \<Rightarrow> bytes list" where
  "Modify_StateKeys m = [PrefixContentKey (mo_Content m)]"

definition Modify_MaxUnits :: "modify \<Rightarrow> u64" where
  "Modify_MaxUnits m = IDLen + Uint64Len"

definition Modify_body :: "'s sdk \<Rightarrow> auth \<Rightarrow> modify \<Rightarrow> ('s, unit, outputs) handler" where
  "Modify_body E rauth m =
     (let actor = GetActor rauth in
      if mo_Content m = ids_Empty then throw_h OutputContentEmpty
      else if mo_Royalty m = 0 then throw_h OutputInvalidObject
      else bind_h (or_output (GetContent E (mo_Content m))) (\<lambda>(owner, oldRoyalty, exists).
        if \<not> exists then throw_h OutputContentMissing
        else if owner \<noteq> actor then throw_h OutputWrongOwner
        else if oldRoyalty = mo_Royalty m then throw_h OutputInvalidObject
        else or_output (SetContent E (mo_Content m) actor (mo_Royalty m))))"

definition Modify_Execute :: "'s sdk \<Rightarrow> rules \<Rightarrow> auth \<Rightarrow> modify \<Rightarrow> ('s, chain_result, go_error) handler" where
  "Modify_Execute E r rauth m = action_result (Modify_MaxUnits m) (Modify_body E rauth m)"

section \<open>The interfaces of the chain\<close>

text \<open>The dynamic dispatch of \<^verbatim>\<open>chain.Action\<close> and \<^verbatim>\<open>chain.Auth\<close> on the implementations of this VM.\<close>

fun Execute :: "'s sdk \<Rightarrow> rules \<Rightarrow> auth \<Rightarrow> action \<Rightarrow> ('s, chain_result, go_error) handler" where
  "Execute E r rauth (AuthorizeAction a) = Authorize_Execute E r rauth a"
| "Execute E r rauth (TransferAction t) = Transfer_Execute E r rauth t"
| "Execute E r rauth (ClearAction c) = Clear_Execute E r rauth c"
| "Execute E r rauth (IndexAction i) = Index_Execute E r rauth i"
| "Execute E r rauth (UnindexAction u) = Unindex_Execute E r rauth u"
| "Execute E r rauth (ModifyAction m) = Modify_Execute E r rauth m"

fun Action_StateKeys :: "'s sdk \<Rightarrow> auth \<Rightarrow> action \<Rightarrow> bytes list" where
  "Action_StateKeys E rauth (AuthorizeAction a) = Authorize_StateKeys a"
| "Action_StateKeys E rauth (TransferAction t) = Transfer_StateKeys rauth t"
| "Action_StateKeys E rauth (ClearAction c) = Clear_StateKeys rauth c"
| "Action_StateKeys E rauth (IndexAction i) = Index_StateKeys E rauth i"
| "Action_StateKeys E rauth (UnindexAction u) = Unindex_StateKeys rauth u"
| "Action_StateKeys E rauth (ModifyAction m) = Modify_StateKeys m"

fun Auth_StateKeys :: "auth \<Rightarrow> bytes list" where
  "Auth_StateKeys (AuthDirect d) = Direct_StateKeys d"
| "Auth_StateKeys (AuthDelegate d) = Delegate_StateKeys d"

fun Auth_Verify :: "'s sdk \<Rightarrow> auth \<Rightarrow> action \<Rightarrow> ('s, u64, go_error) handler" where
  "Auth_Verify E (AuthDirect d) action = Direct_Verify E d action"
| "Auth_Verify E (AuthDelegate d) action = Delegate_Verify E d action"

fun Auth_Deduct :: "'s sdk \<Rightarrow> auth \<Rightarrow> u64 \<Rightarrow> ('s, unit, go_error) handler" where
  "Auth_Deduct E (AuthDirect d) amount = Direct_Deduct E d amount"
| "Auth_Deduct E (AuthDelegate d) amount = Delegate_Deduct E d amount"

fun Auth_Refund :: "'s sdk \<Rightarrow> auth \<Rightarrow> u64 \<Rightarrow> ('s, unit, go_error) handler" where
  "Auth_Refund E (AuthDirect d) amount = Direct_Refund E d amount"
| "Auth_Refund E (AuthDelegate d) amount = Delegate_Refund E d amount"

section \<open>Accepted blocks\<close>

text \<open>A transaction of an accepted block, with its result; the two counters of the metrics.\<close>

record accepted_tx =
  tx_ID :: content_id
  tx_Action :: action
  tx_Success :: bool
  tx_Units :: u64

record metrics =
  itemsIndexed :: nat
  itemsUnindexed :: nat

definition count_tx :: "accepted_tx \<Rightarrow> metrics \<Rightarrow> metrics" where
  "count_tx tx c =
     (if tx_Success tx then
        (case tx_Action tx of
           IndexAction _ \<Rightarrow> c\<lparr>itemsIndexed := itemsIndexed c + 1\<rparr>
         | UnindexAction _ \<Rightarrow> c\<lparr>itemsUnindexed := itemsUnindexed c + 1\<rparr>
         | _ \<Rightarrow> c)
      else c)"

fun Accepted_txs :: "'b metadata \<Rightarrow> u64 \<Rightarrow> accepted_tx list \<Rightarrow> ('b \<times> metrics, unit, go_error) handler" where
  "Accepted_txs B timestamp [] = return_h ()"
| "Accepted_txs B timestamp (tx # txs) =
     bind_h (focus_h fst (\<lambda>b (_, c). (b, c)) (StoreTransaction B (tx_ID tx) timestamp (tx_Success tx) (tx_Units tx))) (\<lambda>_.
     bind_h (modify_h (\<lambda>(b, c). (b, count_tx tx c))) (\<lambda>_. Accepted_txs B timestamp txs))"

text \<open>
  The batch starts empty, collects the records, and is written at the end; its type and the write are
  parameters. The counters of the metrics are part of the controller.
\<close>

definition Accepted ::
  "'b metadata \<Rightarrow> 'b \<Rightarrow> ('b \<Rightarrow> ('m, unit, go_error) handler) \<Rightarrow> u64 \<Rightarrow> accepted_tx list \<Rightarrow>
   ('m \<times> metrics, unit, go_error) handler" where
  "Accepted B batch flush timestamp txs = (\<lambda>(m, c).
     case Accepted_txs B timestamp txs (batch, c) of
        (Ok _, b, c') \<Rightarrow> (case flush b m of (r, m') \<Rightarrow> (r, m', c'))
      | (Err e, b, c') \<Rightarrow> (Err e, m, c')
      | (Panic, b, c') \<Rightarrow> (Panic, m, c'))"

section \<open>Queries\<close>

text \<open>
  The replies of the RPC handler. \<^verbatim>\<open>utils.Address\<close> prints a key; the handler's state reader is the function
  that reads many keys at once.
\<close>

record get_tx_reply =
  gt_Accepted :: bool
  gt_Timestamp :: u64
  gt_Success :: bool
  gt_Units :: u64

definition Handler_GetTx :: "'m metadata \<Rightarrow> 'm \<Rightarrow> content_id \<Rightarrow> (get_tx_reply, go_error) result" where
  "Handler_GetTx M m txid =
     map_ok (\<lambda>(acc, t, success, units). \<lparr>gt_Accepted = acc, gt_Timestamp = t, gt_Success = success, gt_Units = units\<rparr>)
       (GetTransaction M m txid)"

record balance_reply =
  br_Exists :: bool
  br_Unlocked :: u64
  br_Locked :: u64

definition Handler_Balance ::
  "'s sdk \<Rightarrow> (bytes list \<Rightarrow> (bytes, go_error) result list) \<Rightarrow> string \<Rightarrow> (balance_reply, go_error) result" where
  "Handler_Balance E f address =
     and_then (parse_address E address) (\<lambda>addr.
       map_ok (\<lambda>(u, l). \<lparr>br_Exists = l > 0, br_Unlocked = u, br_Locked = l\<rparr>) (GetBalanceFromState f addr))"

record content_reply =
  cr_Searcher :: string
  cr_Royalty :: u64

definition Handler_Content ::
  "(public_key \<Rightarrow> string) \<Rightarrow> (bytes list \<Rightarrow> (bytes, go_error) result list) \<Rightarrow> content_id \<Rightarrow> (content_reply, go_error) result" where
  "Handler_Content address f contentID =
     map_ok (\<lambda>(searcher, royalty, exists).
         if \<not> exists then \<lparr>cr_Searcher = [], cr_Royalty = 0\<rparr>
         else \<lparr>cr_Searcher = address searcher, cr_Royalty = royalty\<rparr>)
       (GetContentFromState f contentID)"

end
