(* ===== verification/Index_Ledger.thy ===== *)
theory Index_Ledger
  imports Index_Vm
begin

text \<open>
  The contract of the Index VM. Every action is specified on the ledger of \<open>Index_Storage\<close>, and the
  byte-level model refines the specification. Over runs of transactions, the locked balance of an
  account pays for exactly the keys it occupies, and no transaction creates funds.
\<close>

section \<open>The actions on the ledger\<close>

text \<open>A payment into an account, which is opened when it does not exist.\<close>

definition l_pay :: "u64 \<Rightarrow> public_key \<Rightarrow> u64 \<Rightarrow> (ledger, unit, go_error) handler" where
  "l_pay S pk amount =
     bind_h (l_deposit pk amount) (\<lambda>exists.
       if exists then return_h ()
       else bind_h (l_lock pk (S * 2)) (\<lambda>_. l_set_permissions pk pk (MaxUint8, MaxUint8)))"

definition l_transfer :: "u64 \<Rightarrow> public_key \<Rightarrow> transfer \<Rightarrow> (ledger, unit, outputs) handler" where
  "l_transfer S actor t =
     (if tr_Value t = 0 then throw_h OutputValueZero
      else or_output (bind_h (l_withdraw actor (tr_Value t)) (\<lambda>_. l_pay S (tr_To t) (tr_Value t))))"

definition l_clear :: "u64 \<Rightarrow> public_key \<Rightarrow> public_key \<Rightarrow> clear \<Rightarrow> (ledger, unit, outputs) handler" where
  "l_clear S actor signer c =
     bind_h (or_output (l_balance actor)) (\<lambda>(u, l).
       if l = 0 then throw_h OutputInvalidBalance
       else if l \<noteq> S * 2 then throw_h OutputAccountNotEmpty
       else or_output
         (bind_h (l_set_balance actor (0, 0)) (\<lambda>_.
          bind_h (l_set_permissions actor signer (0, 0)) (\<lambda>_. l_pay S (cl_To c) (u + l)))))"

definition l_authorize :: "u64 \<Rightarrow> public_key \<Rightarrow> authorize \<Rightarrow> (ledger, unit, outputs) handler" where
  "l_authorize S actor a =
     (let new = (au_ActionPermissions a, au_MiscPermissions a) in
      if actor \<noteq> au_Actor a then throw_h OutputActorMismatch
      else bind_h (or_output (l_permissions actor (au_Signer a))) (\<lambda>old.
        if old = new then throw_h OutputPermissionsUseless
        else or_output
          (bind_h (if old = (0, 0) then l_lock actor S else if new = (0, 0) then l_unlock actor S else return_h ())
            (\<lambda>_. l_set_permissions actor (au_Signer a) new))))"

definition l_index_action :: "u64 \<Rightarrow> content_id \<Rightarrow> public_key \<Rightarrow> index \<Rightarrow> (ledger, unit, outputs) handler" where
  "l_index_action S cid actor i =
     (if ix_Schema i = ids_Empty then throw_h OutputInvalidSchema
      else if length (ix_Content i) > MaxContentSize then throw_h OutputInvalidContent
      else bind_h
        (if ix_Parent i = ids_Empty
         then (if ix_Searcher i = EmptyPublicKey then return_h () else throw_h OutputInvalidObject)
         else bind_h (or_output (l_reward (ix_Parent i) actor)) (\<lambda>owner.
           if owner = ix_Searcher i then return_h () else throw_h OutputWrongOwner))
        (\<lambda>_. bind_h
          (if ix_Royalty i = 0 then return_h ()
           else or_output (bind_h (l_index cid actor (ix_Royalty i)) (\<lambda>_. l_lock actor S)))
          (\<lambda>_. if ix_Commission i = 0 then return_h ()
            else if ix_Servicer i = EmptyPublicKey then throw_h OutputInvalidObject
            else bind_h (or_output (bind_h (l_withdraw actor (ix_Commission i)) (\<lambda>_.
                l_deposit (ix_Servicer i) (ix_Commission i)))) (\<lambda>exists.
              if exists then return_h () else throw_h OutputServicerMissing))))"

definition l_unindex_action :: "u64 \<Rightarrow> public_key \<Rightarrow> unindex \<Rightarrow> (ledger, unit, outputs) handler" where
  "l_unindex_action S actor u =
     (if un_Content u = ids_Empty then throw_h OutputInvalidContent
      else or_output (bind_h (l_unindex (un_Content u) actor) (\<lambda>_. l_unlock actor S)))"

definition l_modify :: "public_key \<Rightarrow> modify \<Rightarrow> (ledger, unit, outputs) handler" where
  "l_modify actor m =
     (if mo_Content m = ids_Empty then throw_h OutputContentEmpty
      else if mo_Royalty m = 0 then throw_h OutputInvalidObject
      else bind_h (or_output (l_content (mo_Content m))) (\<lambda>c.
        case c of None \<Rightarrow> throw_h OutputContentMissing
        | Some (owner, royalty) \<Rightarrow>
            if owner \<noteq> actor then throw_h OutputWrongOwner
            else if royalty = mo_Royalty m then throw_h OutputInvalidObject
            else or_output (l_set_content (mo_Content m) (Some (actor, mo_Royalty m)))))"

fun l_action :: "'s sdk \<Rightarrow> u64 \<Rightarrow> auth \<Rightarrow> action \<Rightarrow> (ledger, unit, outputs) handler" where
  "l_action E S rauth (AuthorizeAction a) = l_authorize S (GetActor rauth) a"
| "l_action E S rauth (TransferAction t) = l_transfer S (GetActor rauth) t"
| "l_action E S rauth (ClearAction c) = l_clear S (GetActor rauth) (GetSigner rauth) c"
| "l_action E S rauth (IndexAction i) = l_index_action S (ContentID E i) (GetActor rauth) i"
| "l_action E S rauth (UnindexAction u) = l_unindex_action S (GetActor rauth) u"
| "l_action E S rauth (ModifyAction m) = l_modify (GetActor rauth) m"

fun Action_MaxUnits :: "action \<Rightarrow> u64" where
  "Action_MaxUnits (AuthorizeAction a) = Authorize_MaxUnits a"
| "Action_MaxUnits (TransferAction t) = Transfer_MaxUnits t"
| "Action_MaxUnits (ClearAction c) = Clear_MaxUnits c"
| "Action_MaxUnits (IndexAction i) = Index_MaxUnits i"
| "Action_MaxUnits (UnindexAction u) = Unindex_MaxUnits u"
| "Action_MaxUnits (ModifyAction m) = Modify_MaxUnits m"

text \<open>Authorization on the ledger: the bit of the action, and the bit for paying.\<close>

definition l_authorized :: "action \<Rightarrow> public_key \<Rightarrow> public_key \<Rightarrow> bool \<Rightarrow> (ledger, unit, go_error) handler" where
  "l_authorized action actor signer actorPays =
     bind_h (l_permissions actor signer) (\<lambda>(actionPerms, miscPerms).
       if bit actionPerms (length (takeWhile (\<lambda>k. k \<noteq> kind_of action) ActionRegistry)) \<and>
         (actorPays \<longrightarrow> bit miscPerms 0)
       then return_h () else throw_h ErrNotAllowed)"

fun payer_of :: "auth \<Rightarrow> public_key" where
  "payer_of (AuthDirect d) = di_Signer d"
| "payer_of (AuthDelegate d) = Delegate_payer d"

fun l_verify :: "auth \<Rightarrow> action \<Rightarrow> (ledger, u64, go_error) handler" where
  "l_verify (AuthDirect d) action =
     bind_h (l_authorized action (di_Signer d) (di_Signer d) True) (\<lambda>_. return_h (Direct_MaxUnits d))"
| "l_verify (AuthDelegate d) action =
     (if de_Actor d = de_Signer d then throw_h ErrActorEqualsSigner
      else bind_h (l_authorized action (de_Actor d) (de_Signer d) (de_ActorPays d)) (\<lambda>_. return_h (Delegate_MaxUnits d)))"

section \<open>Refinement\<close>

lemma or_output_bind:
  "or_output (bind_h m f) = bind_h (or_output m) (\<lambda>a. or_output (f a))"
  by (auto simp: or_output_def convert_h_def bind_h_def fun_eq_iff split: prod.split result.split)

lemma or_output_return [simp]: "or_output (return_h a) = return_h a"
  by (simp add: or_output_def convert_h_def return_h_def fun_eq_iff)

lemma or_output_if: "or_output (if c then f else g) = (if c then or_output f else or_output g)"
  by simp

lemma refines_or_output [refine_rules]: "refines A f g \<Longrightarrow> refines A (or_output f) (or_output g)"
  unfolding or_output_def by (rule refines_convert)

lemma state_lockup_eq [simp]:
  "bind_h (state_lockup r) f = f (StateLockup (rules_g r))"
  by (simp add: GetStateLockup_def FetchCustom_def or_output_def convert_h_def lift_h_def bind_h_def fun_eq_iff)

lemma refines_action_result [refine_rules]:
  assumes "refines A f g"
  shows "refines A (action_result n f) (action_result n g)"
  unfolding refines_def
proof (intro allI impI)
  fix s t
  assume "A s = Some t"
  then obtain s' where "f s = (fst (g t), s')" "A s' = Some (snd (g t))" using refinesD [OF assms] by blast
  then show "\<exists>s'. action_result n f s = (fst (action_result n g t), s') \<and> A s' = Some (snd (action_result n g t))"
    by (cases "g t"; cases "fst (g t)") (simp_all add: action_result_def)
qed

lemma CheckBit_bit: "v \<le> MaxUint8Offset \<Longrightarrow> CheckBit b v \<longleftrightarrow> bit b (unat v)"
proof -
  assume v: "v \<le> MaxUint8Offset"
  then have "unat v < 8" by (simp add: MaxUint8Offset_def word_le_nat_alt)
  moreover have "b AND push_bit n 1 \<noteq> 0 \<longleftrightarrow> bit b n" if "n < 8" for n
  proof -
    have "b AND push_bit n 1 = (if bit b n then push_bit n 1 else 0)"
      by (rule bit_eqI) (use that in \<open>auto simp: bit_simps\<close>)
    moreover have "bit (push_bit n 1 :: u8) n" using that by (simp add: bit_simps)
    then have "push_bit n 1 \<noteq> (0 :: u8)" by (metis bit_0_eq bot_apply bot_bool_def)
    ultimately show ?thesis by simp
  qed
  ultimately show ?thesis using v by (auto simp: CheckBit_def)
qed

lemma registry_index: "length (takeWhile (\<lambda>k. k \<noteq> kind_of action) ActionRegistry) < 6" "kind_of action \<in> set ActionRegistry"
  by (cases action; simp add: ActionRegistry_def)+

context index_sdk
begin

lemma Authorized_refines [refine_rules]:
  "refines abs_ledger (Authorized E action actor signer actorPays) (l_authorized action actor signer actorPays)"
proof -
  let ?i = "length (takeWhile (\<lambda>k. k \<noteq> kind_of action) ActionRegistry)"
  have i: "unat (of_nat ?i :: u8) = ?i" using registry_index(1) [of action] by (intro unat_of_nat_small) simp
  then have "(of_nat ?i :: u8) \<le> MaxUint8Offset"
    using registry_index(1) [of action] by (simp add: MaxUint8Offset_def word_le_nat_alt)
  then have "CheckBit b (of_nat ?i) \<longleftrightarrow> bit b ?i" for b using CheckBit_bit i by metis
  moreover have "CheckBit b actorPaysBit \<longleftrightarrow> bit b 0" for b
    using CheckBit_bit [of actorPaysBit b] by (simp add: actorPaysBit_def MaxUint8Offset_def)
  ultimately have "(case lookup_type E ActionRegistry (kind_of action) of None \<Rightarrow> throw_h ErrActionMissing
      | Some i \<Rightarrow> if \<not> CheckBit a i then throw_h ErrNotAllowed
        else if actorPays \<and> \<not> CheckBit m actorPaysBit then throw_h ErrNotAllowed else return_h ()) =
      (if bit a ?i \<and> (actorPays \<longrightarrow> bit m 0) then return_h () else throw_h ErrNotAllowed :: ('s, unit, go_error) handler)"
    for a m
    using registry_index(2) [of action] by (simp add: lookup_law)
  then show ?thesis unfolding Authorized_def l_authorized_def by (simp add: split_def) (intro refine_rules)
qed

lemma Auth_Verify_refines [refine_rules]: "refines abs_ledger (Auth_Verify E rauth action) (l_verify rauth action)"
  by (cases rauth) (auto simp: Direct_Verify_def Delegate_Verify_def intro!: refine_rules)

lemma Auth_Deduct_refines [refine_rules]: "refines abs_ledger (Auth_Deduct E rauth amount) (l_withdraw (payer_of rauth) amount)"
  by (cases rauth) (simp_all add: Direct_Deduct_def Delegate_Deduct_def refine_rules)

lemma Auth_Refund_refines [refine_rules]:
  "refines abs_ledger (Auth_Refund E rauth amount) (bind_h (l_deposit_existing (payer_of rauth) amount) (\<lambda>_. return_h ()))"
  by (cases rauth) (auto simp: Direct_Refund_def Delegate_Refund_def intro!: refine_rules)

lemma Authorize_refines:
  "refines abs_ledger (Authorize_body E r rauth a) (l_authorize (StateLockup (rules_g r)) (GetActor rauth) a)"
proof -
  let ?S = "StateLockup (rules_g r)" and ?new = "(au_ActionPermissions a, au_MiscPermissions a)"
  have branch: "refines abs_ledger
      (case old of (x, y) \<Rightarrow>
        if x = au_ActionPermissions a \<and> y = au_MiscPermissions a then throw_h OutputPermissionsUseless
        else if x = 0 \<and> y = 0 then
          bind_h (or_output (LockBalance E (au_Actor a) ?S)) (\<lambda>_.
            or_output (SetPermissions E (au_Actor a) (au_Signer a) (au_ActionPermissions a) (au_MiscPermissions a)))
        else if au_ActionPermissions a = 0 \<and> au_MiscPermissions a = 0 then
          bind_h (or_output (UnlockBalance E (au_Actor a) ?S)) (\<lambda>_. or_output (DeletePermissions E (au_Actor a) (au_Signer a)))
        else or_output (SetPermissions E (au_Actor a) (au_Signer a) (au_ActionPermissions a) (au_MiscPermissions a)))
      (if old = ?new then throw_h OutputPermissionsUseless
        else or_output
          (bind_h (if old = (0, 0) then l_lock (au_Actor a) ?S
              else if ?new = (0, 0) then l_unlock (au_Actor a) ?S else return_h ())
            (\<lambda>_. l_set_permissions (au_Actor a) (au_Signer a) ?new)))" for old
    by (cases old) (auto simp: or_output_bind intro!: refine_rules)
  show ?thesis
  proof (cases "GetActor rauth = au_Actor a")
    case True
    show ?thesis unfolding Authorize_body_def l_authorize_def Let_def state_lockup_eq True
      by (simp only: simp_thms if_False) (rule refines_bind [OF refines_or_output [OF GetPermissions_refines] branch])
  qed (simp add: Authorize_body_def l_authorize_def refines_throw)
qed

lemma Transfer_refines: "refines abs_ledger (Transfer_body E r rauth t) (l_transfer (StateLockup (rules_g r)) (GetActor rauth) t)"
  unfolding Transfer_body_def l_transfer_def l_pay_def Let_def state_lockup_eq or_output_bind or_output_if or_output_return
  by (intro refine_rules)

lemma Clear_refines:
  "refines abs_ledger (Clear_body E r rauth c) (l_clear (StateLockup (rules_g r)) (GetActor rauth) (GetSigner rauth) c)"
  unfolding Clear_body_def l_clear_def l_pay_def Let_def state_lockup_eq or_output_bind or_output_if or_output_return
  by (intro refine_rules)

lemma Unindex_refines:
  "refines abs_ledger (Unindex_body E r rauth u) (l_unindex_action (StateLockup (rules_g r)) (GetActor rauth) u)"
  unfolding Unindex_body_def l_unindex_action_def Let_def state_lockup_eq or_output_bind
  by (intro refine_rules)

lemma Modify_refines: "refines abs_ledger (Modify_body E rauth m) (l_modify (GetActor rauth) m)"
proof -
  have get: "refines abs_ledger (or_output (GetContent E i))
      (bind_h (or_output (l_content i)) (\<lambda>c. return_h (content_triple c)))" for i
    using refines_or_output [OF GetContent_refines] by (simp add: or_output_bind)
  show ?thesis
    unfolding Modify_body_def l_modify_def Let_def
    by (intro refines_if refines_throw refines_bind_map [OF get])
      (auto simp: content_triple_def split: option.split intro!: refine_rules)
qed

lemma Index_refines:
  "refines abs_ledger (Index_body E r rauth i) (l_index_action (StateLockup (rules_g r)) (ContentID E i) (GetActor rauth) i)"
proof -
  have "refines abs_ledger (Index_parent E rauth i)
      (if ix_Parent i = ids_Empty
       then (if ix_Searcher i = EmptyPublicKey then return_h () else throw_h OutputInvalidObject)
       else bind_h (or_output (l_reward (ix_Parent i) (GetActor rauth))) (\<lambda>owner.
         if owner = ix_Searcher i then return_h () else throw_h OutputWrongOwner))"
    by (auto simp: Index_parent_def intro!: refine_rules)
  moreover have "refines abs_ledger (Index_register E r rauth i)
      (if ix_Royalty i = 0 then return_h ()
       else or_output (bind_h (l_index (ContentID E i) (GetActor rauth) (ix_Royalty i)) (\<lambda>_.
         l_lock (GetActor rauth) (StateLockup (rules_g r)))))"
    by (auto simp: Index_register_def or_output_bind word_neq_0_conv intro!: refine_rules)
  moreover have "refines abs_ledger (Index_commission E rauth i)
      (if ix_Commission i = 0 then return_h ()
       else if ix_Servicer i = EmptyPublicKey then throw_h OutputInvalidObject
       else bind_h (or_output (bind_h (l_withdraw (GetActor rauth) (ix_Commission i)) (\<lambda>_.
           l_deposit (ix_Servicer i) (ix_Commission i)))) (\<lambda>exists.
         if exists then return_h () else throw_h OutputServicerMissing))"
    by (auto simp: Index_commission_def or_output_bind bind_h_assoc word_neq_0_conv intro!: refine_rules)
  ultimately show ?thesis unfolding Index_body_def l_index_action_def by (intro refines_if refines_throw refines_bind)
qed

lemma Execute_refines:
  "refines abs_ledger (Execute E r rauth action)
     (action_result (Action_MaxUnits action) (l_action E (StateLockup (rules_g r)) rauth action))"
  by (cases action)
    (auto simp: Authorize_Execute_def Transfer_Execute_def Clear_Execute_def Index_Execute_def Unindex_Execute_def
      Modify_Execute_def intro!: refines_action_result Authorize_refines Transfer_refines Clear_refines Index_refines
      Unindex_refines Modify_refines)

end

section \<open>Accounts\<close>

text \<open>
  Of an account, the unlocked and the locked balance and the number of keys that it occupies besides its
  balance: permissions that it has given, and content that it owns. Keys and content ids are words, so
  these sets are finite.
\<close>

definition perm_items :: "ledger \<Rightarrow> public_key \<Rightarrow> public_key set" where
  "perm_items L pk = {signer. permissions L (pk, signer) \<noteq> (0, 0)}"

definition content_items :: "ledger \<Rightarrow> public_key \<Rightarrow> content_id set" where
  "content_items L pk = {i. \<exists>royalty. contents L i = Some (pk, royalty)}"

definition items :: "ledger \<Rightarrow> public_key \<Rightarrow> nat" where
  "items L pk = card (perm_items L pk) + card (content_items L pk)"

abbreviation unlocked :: "ledger \<Rightarrow> public_key \<Rightarrow> nat" where
  "unlocked L pk \<equiv> unat (fst (balances L pk))"

abbreviation locked :: "ledger \<Rightarrow> public_key \<Rightarrow> nat" where
  "locked L pk \<equiv> unat (snd (balances L pk))"

text \<open>
  An account that does not exist owns nothing; one that exists has locked the price of its keys. Content
  that is indexed has a royalty.
\<close>

definition account_ok :: "u64 \<Rightarrow> ledger \<Rightarrow> public_key \<Rightarrow> bool" where
  "account_ok S L pk \<longleftrightarrow>
     (if locked L pk = 0 then unlocked L pk = 0 \<and> items L pk = 0 else locked L pk = unat S * (1 + items L pk))"

definition ledger_ok :: "u64 \<Rightarrow> ledger \<Rightarrow> bool" where
  "ledger_ok S L \<longleftrightarrow>
     (\<forall>pk. account_ok S L pk) \<and> (\<forall>i owner royalty. contents L i = Some (owner, royalty) \<longrightarrow> royalty \<noteq> 0)"

definition total_supply :: "ledger \<Rightarrow> nat" where
  "total_supply L = (\<Sum>pk \<in> UNIV. unlocked L pk + locked L pk)"

definition put_balance :: "public_key \<Rightarrow> u64 \<times> u64 \<Rightarrow> ledger \<Rightarrow> ledger" where
  "put_balance pk b L = L\<lparr>balances := (balances L)(pk := b)\<rparr>"

definition put_permissions :: "public_key \<Rightarrow> public_key \<Rightarrow> u8 \<times> u8 \<Rightarrow> ledger \<Rightarrow> ledger" where
  "put_permissions actor signer p L = L\<lparr>permissions := (permissions L)((actor, signer) := p)\<rparr>"

definition put_content :: "content_id \<Rightarrow> (public_key \<times> u64) option \<Rightarrow> ledger \<Rightarrow> ledger" where
  "put_content i c L = L\<lparr>contents := (contents L)(i := c)\<rparr>"

lemma put_simps [simp]:
  "balances (put_balance pk b L) = (balances L)(pk := b)" "permissions (put_balance pk b L) = permissions L"
  "contents (put_balance pk b L) = contents L" "declared (put_balance pk b L) = declared L"
  "balances (put_permissions actor signer p L) = balances L"
  "permissions (put_permissions actor signer p L) = (permissions L)((actor, signer) := p)"
  "contents (put_permissions actor signer p L) = contents L" "declared (put_permissions actor signer p L) = declared L"
  "balances (put_content i c L) = balances L" "permissions (put_content i c L) = permissions L"
  "contents (put_content i c L) = (contents L)(i := c)" "declared (put_content i c L) = declared L"
  by (simp_all add: put_balance_def put_permissions_def put_content_def)

text \<open>The operations of the ledger that succeed.\<close>

lemma l_access_Ok [result_simps]: "l_access k m L = (Ok a, L') \<longleftrightarrow> k \<in> declared L \<and> m L = (Ok a, L')"
  by (auto simp: l_access_def)

lemma l_balance_Ok [result_simps]:
  "l_balance pk L = (Ok b, L') \<longleftrightarrow> BalanceKey pk \<in> declared L \<and> b = balances L pk \<and> L' = L"
  by (auto simp: l_balance_def result_simps)

lemma l_set_balance_Ok [result_simps]:
  "l_set_balance pk b L = (Ok x, L') \<longleftrightarrow> BalanceKey pk \<in> declared L \<and> L' = put_balance pk b L"
  by (auto simp: l_set_balance_def result_simps put_balance_def)

lemma l_permissions_Ok [result_simps]:
  "l_permissions actor signer L = (Ok p, L') \<longleftrightarrow>
     PermissionsKey actor signer \<in> declared L \<and> p = permissions L (actor, signer) \<and> L' = L"
  by (auto simp: l_permissions_def result_simps)

lemma l_set_permissions_Ok [result_simps]:
  "l_set_permissions actor signer p L = (Ok x, L') \<longleftrightarrow>
     PermissionsKey actor signer \<in> declared L \<and> L' = put_permissions actor signer p L"
  by (auto simp: l_set_permissions_def result_simps put_permissions_def)

lemma l_content_Ok [result_simps]:
  "l_content i L = (Ok c, L') \<longleftrightarrow> ContentKey i \<in> declared L \<and> c = contents L i \<and> L' = L"
  by (auto simp: l_content_def result_simps)

lemma l_set_content_Ok [result_simps]:
  "l_set_content i c L = (Ok x, L') \<longleftrightarrow> ContentKey i \<in> declared L \<and> L' = put_content i c L"
  by (auto simp: l_set_content_def result_simps put_content_def)

lemma or_output_Ok [result_simps]: "or_output m L = (Ok a, L') \<longleftrightarrow> m L = (Ok a, L')"
  unfolding or_output_def by (rule convert_h_eq_Ok) simp

text \<open>What they do to the accounts.\<close>

lemma items_put_balance [simp]: "items (put_balance pk b L) = items L"
  by (simp add: items_def perm_items_def content_items_def fun_eq_iff)

lemma card_change:
  assumes "finite A" and "\<And>y. y \<noteq> x \<Longrightarrow> y \<in> A' \<longleftrightarrow> y \<in> A"
  shows "card A' + of_bool (x \<in> A) = card A + of_bool (x \<in> A')"
proof -
  have "A' - {x} = A - {x}" using assms(2) by blast
  then have "card (A' - {x}) = card (A - {x})" by simp
  moreover have "finite A'"
    using assms(1) \<open>A' - {x} = A - {x}\<close> by (metis finite_Diff2 finite.emptyI finite_insert)
  moreover have "card B = card (B - {x}) + of_bool (x \<in> B)" if "finite B" for B
    using that card_Suc_Diff1 [of B x] by auto
  ultimately show ?thesis using assms(1) by (metis add.assoc add.commute)
qed

lemma items_put_permissions:
  "items (put_permissions actor signer p L) pk + of_bool (pk = actor \<and> permissions L (actor, signer) \<noteq> (0, 0)) =
   items L pk + of_bool (pk = actor \<and> p \<noteq> (0, 0))"
proof -
  have "card (perm_items (put_permissions actor signer p L) pk) + of_bool (pk = actor \<and> permissions L (actor, signer) \<noteq> (0, 0)) =
      card (perm_items L pk) + of_bool (pk = actor \<and> p \<noteq> (0, 0))"
    using card_change [of "perm_items L pk" signer "perm_items (put_permissions actor signer p L) pk"]
    by (cases "pk = actor") (auto simp: perm_items_def)
  moreover have "content_items (put_permissions actor signer p L) pk = content_items L pk" by (simp add: content_items_def)
  ultimately show ?thesis by (simp add: items_def)
qed

lemma items_put_content:
  "items (put_content i c L) pk + of_bool (\<exists>royalty. contents L i = Some (pk, royalty)) =
   items L pk + of_bool (\<exists>royalty. c = Some (pk, royalty))"
proof -
  have "card (content_items (put_content i c L) pk) + of_bool (\<exists>royalty. contents L i = Some (pk, royalty)) =
      card (content_items L pk) + of_bool (\<exists>royalty. c = Some (pk, royalty))"
    using card_change [of "content_items L pk" i "content_items (put_content i c L) pk"]
    by (auto simp: content_items_def)
  moreover have "perm_items (put_content i c L) pk = perm_items L pk" by (simp add: perm_items_def)
  ultimately show ?thesis by (simp add: items_def)
qed

lemma supply_put_balance:
  "total_supply (put_balance pk (u, l) L) + (unat (fst (balances L pk)) + unat (snd (balances L pk))) =
   total_supply L + (unat u + unat l)"
proof -
  let ?f = "\<lambda>L q. unat (fst (balances L q)) + unat (snd (balances L q))"
  have "total_supply M = ?f M pk + sum (?f M) (UNIV - {pk})" for M
    unfolding total_supply_def by (simp add: sum.remove [of UNIV pk])
  moreover have "sum (?f (put_balance pk (u, l) L)) (UNIV - {pk}) = sum (?f L) (UNIV - {pk})"
    by (rule sum.cong) auto
  ultimately show ?thesis by simp
qed

lemma supply_put [simp]: "total_supply (put_permissions actor signer p L) = total_supply L" "total_supply (put_content i c L) = total_supply L"
  by (simp_all add: total_supply_def)

lemma l_withdraw_Ok [result_simps]:
  "l_withdraw pk a L = (Ok x, L') \<longleftrightarrow> BalanceKey pk \<in> declared L \<and> a \<le> fst (balances L pk) \<and>
     L' = put_balance pk (fst (balances L pk) - a, snd (balances L pk)) L"
  by (cases "balances L pk")
    (auto simp: l_withdraw_unfold result_simps checked_sub_def split: option.splits if_splits)

lemma l_deposit_Ok [result_simps]:
  "l_deposit pk a L = (Ok e, L') \<longleftrightarrow> BalanceKey pk \<in> declared L \<and> unat (fst (balances L pk)) + unat a < 2 ^ 64 \<and>
     e = (0 < snd (balances L pk)) \<and> L' = put_balance pk (fst (balances L pk) + a, snd (balances L pk)) L"
  by (cases "balances L pk")
    (auto simp: l_deposit_unfold result_simps checked_add_def split: option.splits if_splits)

lemma l_deposit_existing_Ok [result_simps]:
  "l_deposit_existing pk a L = (Ok e, L') \<longleftrightarrow> BalanceKey pk \<in> declared L \<and>
     (if snd (balances L pk) = 0 then \<not> e \<and> L' = L else l_deposit pk a L = (Ok e, L'))"
  by (cases "balances L pk") (auto simp: l_deposit_existing_def result_simps)

lemma l_lock_Ok [result_simps]:
  "l_lock pk a L = (Ok x, L') \<longleftrightarrow> BalanceKey pk \<in> declared L \<and> a \<le> fst (balances L pk) \<and>
     unat (snd (balances L pk)) + unat a < 2 ^ 64 \<and>
     L' = put_balance pk (fst (balances L pk) - a, snd (balances L pk) + a) L"
  by (cases "balances L pk")
    (auto simp: l_lock_unfold result_simps checked_sub_def checked_add_def split: option.splits if_splits)

lemma l_unlock_Ok [result_simps]:
  "l_unlock pk a L = (Ok x, L') \<longleftrightarrow> BalanceKey pk \<in> declared L \<and> a \<le> snd (balances L pk) \<and>
     unat (fst (balances L pk)) + unat a < 2 ^ 64 \<and>
     L' = put_balance pk (fst (balances L pk) + a, snd (balances L pk) - a) L"
  by (cases "balances L pk")
    (auto simp: l_unlock_unfold result_simps checked_sub_def checked_add_def split: option.splits if_splits)

lemma unat_add_exact: "unat a + unat b < 2 ^ 64 \<Longrightarrow> unat (a + b :: u64) = unat a + unat b"
  by (subst unat_add_lem [THEN iffD1]) simp_all

lemma account_okI: "locked L pk = unat S * (1 + items L pk) \<Longrightarrow> 0 < S \<Longrightarrow> account_ok S L pk"
  by (auto simp: account_ok_def unat_eq_0)

lemma account_okD: "ledger_ok S L \<Longrightarrow> account_ok S L pk"
  by (simp add: ledger_ok_def)

lemma ledger_ok_royalty: "ledger_ok S L \<Longrightarrow> contents L i = Some (owner, royalty) \<Longrightarrow> royalty \<noteq> 0"
  by (auto simp: ledger_ok_def)

lemma item_perm: "permissions L (actor, signer) \<noteq> (0, 0) \<Longrightarrow> 0 < items L actor"
  by (auto simp: items_def perm_items_def card_gt_0_iff)

lemma item_content: "contents L i = Some (owner, royalty) \<Longrightarrow> 0 < items L owner"
  by (auto simp: items_def content_items_def card_gt_0_iff)

text \<open>Accounts that own something exist.\<close>

lemma exists_item: "ledger_ok S L \<Longrightarrow> 0 < items L pk \<Longrightarrow> locked L pk \<noteq> 0"
  using account_okD [of S L pk] by (auto simp: account_ok_def split: if_splits)

lemmas exists_perm = exists_item [OF _ item_perm]
lemmas exists_content = exists_item [OF _ item_content]

lemma withdraw_ok:
  assumes "ledger_ok S L" and "l_withdraw pk a L = (Ok x, L')"
  shows "ledger_ok S L'" "total_supply L' + unat a = total_supply L" "contents L' = contents L"
    "permissions L' = permissions L" "\<And>q. locked L' q = locked L q" "declared L' = declared L"
proof -
  let ?u = "fst (balances L pk)" and ?l = "snd (balances L pk)"
  have a: "a \<le> ?u" and L': "L' = put_balance pk (?u - a, ?l) L" using assms(2) by (auto simp: result_simps)
  note sub = unat_sub [OF a] and le = a [unfolded word_le_nat_alt]
  show "contents L' = contents L" "permissions L' = permissions L" "declared L' = declared L"
    "\<And>q. locked L' q = locked L q"
    by (simp_all add: L')
  show "total_supply L' + unat a = total_supply L"
    using supply_put_balance [of pk "?u - a" ?l L] sub le by (simp add: L')
  have "account_ok S L' q" for q
    using account_okD [OF assms(1), of q] sub le by (auto simp: L' account_ok_def split: if_splits)
  then show "ledger_ok S L'" using ledger_ok_royalty [OF assms(1)] by (auto simp: ledger_ok_def L')
qed

lemma deposit_ok:
  assumes "ledger_ok S L" and "l_deposit pk a L = (Ok e, L')"
  shows "e \<Longrightarrow> ledger_ok S L'" "total_supply L' = total_supply L + unat a" "contents L' = contents L"
    "permissions L' = permissions L" "\<And>q. locked L' q = locked L q" "e \<longleftrightarrow> locked L pk \<noteq> 0" "declared L' = declared L"
    "items L' = items L" "unlocked L' pk = unlocked L pk + unat a" "\<And>q. q \<noteq> pk \<Longrightarrow> unlocked L' q = unlocked L q"
proof -
  let ?u = "fst (balances L pk)" and ?l = "snd (balances L pk)"
  have a: "unat ?u + unat a < 2 ^ 64" and L': "L' = put_balance pk (?u + a, ?l) L" and e: "e \<longleftrightarrow> 0 < ?l"
    using assms(2) by (auto simp: result_simps)
  note add = unat_add_exact [OF a]
  show "contents L' = contents L" "permissions L' = permissions L" "declared L' = declared L"
    "\<And>q. locked L' q = locked L q" "items L' = items L" "unlocked L' pk = unlocked L pk + unat a"
    "\<And>q. q \<noteq> pk \<Longrightarrow> unlocked L' q = unlocked L q"
    by (simp_all add: L' add)
  show "total_supply L' = total_supply L + unat a"
    using supply_put_balance [of pk "?u + a" ?l L] add by (simp add: L')
  show ex: "e \<longleftrightarrow> locked L pk \<noteq> 0" by (simp add: e word_neq_0_conv unat_eq_0)
  show "ledger_ok S L'" if e
  proof -
    have "account_ok S L' q" for q
      using account_okD [OF assms(1), of q] that ex by (auto simp: L' account_ok_def split: if_splits)
    then show ?thesis using ledger_ok_royalty [OF assms(1)] by (auto simp: ledger_ok_def L')
  qed
qed

lemma lock_effect:
  assumes "l_lock pk a L = (Ok x, L')"
  shows "total_supply L' = total_supply L" "contents L' = contents L" "permissions L' = permissions L"
    "declared L' = declared L" "items L' = items L" "unlocked L' pk = unlocked L pk - unat a" "unat a \<le> unlocked L pk"
    "locked L' pk = locked L pk + unat a" "\<And>q. q \<noteq> pk \<Longrightarrow> balances L' q = balances L q"
proof -
  let ?u = "fst (balances L pk)" and ?l = "snd (balances L pk)"
  have a: "a \<le> ?u" "unat ?l + unat a < 2 ^ 64" and L': "L' = put_balance pk (?u - a, ?l + a) L"
    using assms by (auto simp: result_simps)
  note sub = unat_sub [OF a(1)] and add = unat_add_exact [OF a(2)] and le = a(1) [unfolded word_le_nat_alt]
  show "contents L' = contents L" "permissions L' = permissions L" "declared L' = declared L" "items L' = items L"
    "unlocked L' pk = unlocked L pk - unat a" "unat a \<le> unlocked L pk" "locked L' pk = locked L pk + unat a"
    "\<And>q. q \<noteq> pk \<Longrightarrow> balances L' q = balances L q"
    using le by (simp_all add: L' add sub)
  show "total_supply L' = total_supply L"
    using supply_put_balance [of pk "?u - a" "?l + a" L] sub add le by (simp add: L')
qed

lemma unlock_effect:
  assumes "l_unlock pk a L = (Ok x, L')"
  shows "total_supply L' = total_supply L" "contents L' = contents L" "permissions L' = permissions L"
    "declared L' = declared L" "items L' = items L" "unlocked L' pk = unlocked L pk + unat a" "unat a \<le> locked L pk"
    "locked L' pk = locked L pk - unat a" "\<And>q. q \<noteq> pk \<Longrightarrow> balances L' q = balances L q"
proof -
  let ?u = "fst (balances L pk)" and ?l = "snd (balances L pk)"
  have a: "a \<le> ?l" "unat ?u + unat a < 2 ^ 64" and L': "L' = put_balance pk (?u + a, ?l - a) L"
    using assms by (auto simp: result_simps)
  note sub = unat_sub [OF a(1)] and add = unat_add_exact [OF a(2)] and le = a(1) [unfolded word_le_nat_alt]
  show "contents L' = contents L" "permissions L' = permissions L" "declared L' = declared L" "items L' = items L"
    "unlocked L' pk = unlocked L pk + unat a" "unat a \<le> locked L pk" "locked L' pk = locked L pk - unat a"
    "\<And>q. q \<noteq> pk \<Longrightarrow> balances L' q = balances L q"
    using le by (simp_all add: L' add sub)
  show "total_supply L' = total_supply L"
    using supply_put_balance [of pk "?u + a" "?l - a" L] sub add le by (simp add: L')
qed

lemma pay_ok:
  assumes ok: "ledger_ok S L" and run: "l_pay S pk a L = (Ok x, L')" and S: "0 < S" "2 * unat S < 2 ^ 64"
  shows "ledger_ok S L'" "total_supply L' = total_supply L + unat a"
proof -
  obtain e L1 where dep: "l_deposit pk a L = (Ok e, L1)"
    and rest: "if e then L' = L1 else (\<exists>y L2. l_lock pk (S * 2) L1 = (Ok y, L2) \<and>
        L' = put_permissions pk pk (MaxUint8, MaxUint8) L2)"
    using run by (auto simp: l_pay_def bind_h_eq_Ok return_h_eq_Ok l_set_permissions_Ok split: if_splits)
  note d = deposit_ok [OF ok dep]
  have "ledger_ok S L' \<and> total_supply L' = total_supply L + unat a"
  proof (cases e)
    case True
    then show ?thesis using rest d by simp
  next
    case False
    then obtain y L2 where lock: "l_lock pk (S * 2) L1 = (Ok y, L2)"
      and L': "L' = put_permissions pk pk (MaxUint8, MaxUint8) L2" using rest by auto
    note k = lock_effect [OF lock]
    have S2: "unat (S * 2) = 2 * unat S" using S(2) unat_mult_lem [of S "2 :: u64"] by (simp add: mult.commute)
    have gone: "locked L pk = 0" "items L pk = 0"
      using False d(6) account_okD [OF ok, of pk] by (auto simp: account_ok_def split: if_splits)
    have perm: "permissions L (pk, pk) = (0, 0)" using gone(2) item_perm [of L pk pk] by auto
    have items: "items L' q = items L q + of_bool (q = pk)" for q
      using items_put_permissions [of pk pk "(MaxUint8, MaxUint8)" L2 q] perm k(3,5) d(4,8)
      by (simp add: L' MaxUint8_def)
    have "account_ok S L' q" for q
    proof (cases "q = pk")
      case True
      have "locked L' pk = unat S * (1 + items L' pk)"
        using gone k(8) d(5) [of pk] S2 items [of pk] by (simp add: L')
      then show ?thesis using True S(1) by (simp only: account_okI)
    next
      case False
      then have "balances L' q = balances L q" using k(9) dep by (simp add: L' l_deposit_Ok)
      then show ?thesis using account_okD [OF ok, of q] items [of q] False by (auto simp: account_ok_def split: if_splits)
    qed
    moreover have "contents L' = contents L" using d(3) k(2) by (simp add: L')
    ultimately have "ledger_ok S L'" using ledger_ok_royalty [OF ok] by (simp add: ledger_ok_def)
    then show ?thesis using d(2) k(1) by (simp add: L')
  qed
  then show "ledger_ok S L'" "total_supply L' = total_supply L + unat a" by blast+
qed

section \<open>Every action keeps the ledger in order\<close>

text \<open>The sum of a balance is within the supply, so the payout of a cleared account does not wrap.\<close>

lemma balance_le_supply: "unlocked L pk + locked L pk \<le> total_supply L"
  unfolding total_supply_def by (rule member_le_sum) auto

definition keeps_ledger :: "u64 \<Rightarrow> ledger \<Rightarrow> ledger \<Rightarrow> bool" where
  "keeps_ledger S L L' \<longleftrightarrow> ledger_ok S L' \<and> total_supply L' = total_supply L"

lemma transfer_ok:
  assumes "ledger_ok S L" "0 < S" "2 * unat S < 2 ^ 64" and run: "l_transfer S actor t L = (Ok x, L')"
  shows "keeps_ledger S L L'"
proof -
  obtain y L1 where w: "l_withdraw actor (tr_Value t) L = (Ok y, L1)" and p: "l_pay S (tr_To t) (tr_Value t) L1 = (Ok x, L')"
    using run by (auto simp: l_transfer_def or_output_Ok bind_h_eq_Ok throw_h_eq_Ok split: if_splits)
  note a = withdraw_ok [OF assms(1) w]
  show ?thesis using pay_ok [OF a(1) p assms(2,3)] a(2) by (simp add: keeps_ledger_def)
qed

text \<open>An account that can be cleared occupies one key, and clearing it leaves the ledger in order.\<close>

definition without_account :: "public_key \<Rightarrow> public_key \<Rightarrow> ledger \<Rightarrow> ledger" where
  "without_account actor signer L = put_permissions actor signer (0, 0) (put_balance actor (0, 0) L)"

lemma clear_steps:
  assumes ok: "ledger_ok S L" and S: "0 < S" "2 * unat S < 2 ^ 64"
    and perm: "permissions L (actor, signer) \<noteq> (0, 0)" and run: "l_clear S actor signer c L = (Ok x, L')"
  shows "items L actor = 1" "ledger_ok S (without_account actor signer L)"
    "items (without_account actor signer L) q = (if q = actor then 0 else items L q)"
    "l_pay S (cl_To c) (fst (balances L actor) + snd (balances L actor)) (without_account actor signer L) = (Ok x, L')"
proof -
  let ?u = "fst (balances L actor)" and ?l = "snd (balances L actor)" and ?L1 = "without_account actor signer L"
  have l: "?l = S * 2" "?l \<noteq> 0" and pay: "l_pay S (cl_To c) (?u + ?l) ?L1 = (Ok x, L')"
    using run by (auto simp: l_clear_def or_output_Ok bind_h_eq_Ok throw_h_eq_Ok l_balance_Ok l_set_balance_Ok
        l_set_permissions_Ok without_account_def split: if_splits prod.splits)
  have S2: "unat (S * 2) = 2 * unat S" using S(2) unat_mult_lem [of S "2 :: u64"] by (simp add: mult.commute)
  have "unat S * (1 + items L actor) = unat S * 2"
    using account_okD [OF ok, of actor] l S2 by (auto simp: account_ok_def unat_eq_0 mult.commute split: if_splits)
  moreover have "unat S \<noteq> 0" using S(1) by (simp add: unat_gt_0)
  ultimately show one: "items L actor = 1" by (metis Suc_1 Suc_eq_plus1_left mult_cancel_left nat.inject)
  show items: "items ?L1 q = (if q = actor then 0 else items L q)" for q
    using items_put_permissions [of actor signer "(0, 0)" "put_balance actor (0, 0) L" q] perm one
    by (auto simp: without_account_def)
  have "account_ok S ?L1 q" for q
    using account_okD [OF ok, of q] items [of q] by (auto simp: account_ok_def without_account_def)
  then show "ledger_ok S ?L1" using ledger_ok_royalty [OF ok] by (simp add: ledger_ok_def without_account_def)
  show "l_pay S (cl_To c) (?u + ?l) ?L1 = (Ok x, L')" by (rule pay)
qed

lemma clear_ok:
  assumes ok: "ledger_ok S L" and S: "0 < S" "2 * unat S < 2 ^ 64" and total: "total_supply L < 2 ^ 64"
    and perm: "permissions L (actor, signer) \<noteq> (0, 0)" and run: "l_clear S actor signer c L = (Ok x, L')"
  shows "keeps_ledger S L L'"
proof -
  let ?u = "fst (balances L actor)" and ?l = "snd (balances L actor)"
  note steps = clear_steps [OF ok S perm run]
  have "unat (?u + ?l) = unat ?u + unat ?l"
    using balance_le_supply [of L actor] total by (intro unat_add_exact) simp
  moreover have "total_supply (without_account actor signer L) + (unat ?u + unat ?l) = total_supply L"
    using supply_put_balance [of actor 0 0 L] by (simp add: without_account_def)
  ultimately show ?thesis using pay_ok [OF steps(2,4) S] by (simp add: keeps_ledger_def)
qed

lemma authorize_ok:
  assumes ok: "ledger_ok S L" and S: "0 < S" and perm: "permissions L (actor, signer) \<noteq> (0, 0)"
    and run: "l_authorize S actor a L = (Ok x, L')"
  shows "keeps_ledger S L L'"
proof -
  let ?old = "permissions L (actor, au_Signer a)" and ?new = "(au_ActionPermissions a, au_MiscPermissions a)"
  obtain y L1 where move: "(if ?old = (0, 0) then l_lock actor S else if ?new = (0, 0) then l_unlock actor S else return_h ()) L =
      (Ok y, L1)" and L': "L' = put_permissions actor (au_Signer a) ?new L1" and ne: "?old \<noteq> ?new"
    using run by (auto simp: l_authorize_def Let_def or_output_Ok bind_h_eq_Ok throw_h_eq_Ok l_permissions_Ok
        l_set_permissions_Ok split: if_splits)
  have L1: "total_supply L1 = total_supply L" "contents L1 = contents L" "permissions L1 = permissions L" "items L1 = items L"
    "\<And>q. q \<noteq> actor \<Longrightarrow> balances L1 q = balances L q"
    using move lock_effect [of actor S L y L1] unlock_effect [of actor S L y L1]
    by (auto simp: return_h_eq_Ok split: if_splits)
  have items: "items L' q + of_bool (q = actor \<and> ?old \<noteq> (0, 0)) = items L q + of_bool (q = actor \<and> ?new \<noteq> (0, 0))" for q
    using items_put_permissions [of actor "au_Signer a" ?new L1 q] L1(3,4) by (simp add: L')
  have l: "locked L actor = unat S * (1 + items L actor)" "locked L actor \<noteq> 0"
    using account_okD [OF ok, of actor] exists_perm [OF ok perm] by (auto simp: account_ok_def)
  have "account_ok S L' q" for q
  proof (cases "q = actor")
    case True
    have "locked L' actor = unat S * (1 + items L' actor)"
    proof (cases "?old = (0, 0)")
      case True
      then have "items L' actor = items L actor + 1" using items [of actor] ne by auto
      moreover have "locked L' actor = locked L actor + unat S" using lock_effect(8) [of actor S L y L1] move True by (simp add: L')
      ultimately show ?thesis using l(1) by (simp add: algebra_simps)
    next
      case False
      show ?thesis
      proof (cases "?new = (0, 0)")
        case True
        then have "items L actor = items L' actor + 1" using items [of actor] False by auto
        moreover have "locked L' actor = locked L actor - unat S"
          using unlock_effect(8) [of actor S L y L1] move True False by (simp add: L')
        ultimately show ?thesis using l(1) by (simp add: algebra_simps)
      next
        case new: False
        then have "items L' actor = items L actor" "L1 = L" using items [of actor] False move by (auto simp: return_h_eq_Ok)
        then show ?thesis using l(1) by (simp add: L')
      qed
    qed
    then show ?thesis using True S by (simp only: account_okI)
  next
    case False
    then show ?thesis using account_okD [OF ok, of q] items [of q] L1(5) [of q] by (auto simp: L' account_ok_def split: if_splits)
  qed
  then show ?thesis using ledger_ok_royalty [OF ok] L1(1,2) by (simp add: keeps_ledger_def ledger_ok_def L')
qed

lemma reward_ok:
  assumes ok: "ledger_ok S L" and run: "l_reward i sender L = (Ok owner, L')"
  shows "keeps_ledger S L L'" "permissions L' = permissions L"
proof -
  have "keeps_ledger S L L' \<and> permissions L' = permissions L"
  proof (cases "contents L i")
    case None
    then show ?thesis using run ok by (auto simp: l_reward_def bind_h_eq_Ok l_content_Ok return_h_eq_Ok keeps_ledger_def)
  next
    case (Some c)
    obtain o' r where c: "c = (o', r)" by (cases c)
    obtain y L1 e where run_w: "l_withdraw sender r L = (Ok y, L1)" and run_d: "l_deposit o' r L1 = (Ok e, L')"
      using run Some c by (auto simp: l_reward_def bind_h_eq_Ok l_content_Ok return_h_eq_Ok)
    note w = withdraw_ok [OF ok run_w]
    note d = deposit_ok [OF w(1) run_d]
    have "locked L o' \<noteq> 0" using exists_content [OF ok] Some c by blast
    then show ?thesis using w d by (simp add: keeps_ledger_def)
  qed
  then show "keeps_ledger S L L'" "permissions L' = permissions L" by blast+
qed

lemma register_ok:
  assumes ok: "ledger_ok S L" and S: "0 < S" and perm: "permissions L (actor, signer) \<noteq> (0, 0)"
    and royalty: "r \<noteq> 0" and run: "bind_h (l_index cid actor r) (\<lambda>_. l_lock actor S) L = (Ok x, L')"
  shows "keeps_ledger S L L'"
proof -
  have free: "contents L cid = None" and lock: "l_lock actor S (put_content cid (Some (actor, r)) L) = (Ok x, L')"
    using run royalty by (auto simp: l_index_def bind_h_eq_Ok l_content_Ok l_set_content_Ok throw_h_eq_Ok split: option.splits)
  note k = lock_effect [OF lock]
  have items: "items L' q = items L q + of_bool (q = actor)" for q
    using items_put_content [of cid "Some (actor, r)" L q] free k(5) by auto
  have l: "locked L actor = unat S * (1 + items L actor)" "locked L actor \<noteq> 0"
    using account_okD [OF ok, of actor] exists_perm [OF ok perm] by (auto simp: account_ok_def)
  have "account_ok S L' q" for q
  proof (cases "q = actor")
    case True
    then show ?thesis using l items [of actor] k(8) by (simp add: account_ok_def algebra_simps)
  next
    case False
    then show ?thesis using account_okD [OF ok, of q] items [of q] k(9) [of q] by (auto simp: account_ok_def split: if_splits)
  qed
  moreover have "royalty \<noteq> 0" if "contents L' j = Some (p, royalty)" for j p royalty
    using that k(2) \<open>r \<noteq> 0\<close> ledger_ok_royalty [OF ok, of j] by (auto split: if_splits)
  ultimately show ?thesis using k(1) by (simp add: keeps_ledger_def ledger_ok_def)
qed

text \<open>The three parts of a successful \<^verbatim>\<open>Index\<close>.\<close>

lemma index_steps:
  assumes run: "l_index_action S cid actor i L = (Ok x, L')"
  obtains L1 L2 where "L1 = L \<or> (\<exists>owner. l_reward (ix_Parent i) actor L = (Ok owner, L1))"
    and "L2 = L1 \<or> ix_Royalty i \<noteq> 0 \<and> bind_h (l_index cid actor (ix_Royalty i)) (\<lambda>_. l_lock actor S) L1 = (Ok (), L2)"
    and "L' = L2 \<or> (\<exists>y L3. l_withdraw actor (ix_Commission i) L2 = (Ok y, L3) \<and>
      l_deposit (ix_Servicer i) (ix_Commission i) L3 = (Ok True, L'))"
proof -
  obtain L1 L2 where 1: "(if ix_Parent i = ids_Empty
         then (if ix_Searcher i = EmptyPublicKey then return_h () else throw_h OutputInvalidObject)
         else bind_h (or_output (l_reward (ix_Parent i) actor)) (\<lambda>owner.
           if owner = ix_Searcher i then return_h () else throw_h OutputWrongOwner)) L = (Ok (), L1)"
    and 2: "(if ix_Royalty i = 0 then return_h ()
           else or_output (bind_h (l_index cid actor (ix_Royalty i)) (\<lambda>_. l_lock actor S))) L1 = (Ok (), L2)"
    and 3: "(if ix_Commission i = 0 then return_h ()
            else if ix_Servicer i = EmptyPublicKey then throw_h OutputInvalidObject
            else bind_h (or_output (bind_h (l_withdraw actor (ix_Commission i)) (\<lambda>_.
                l_deposit (ix_Servicer i) (ix_Commission i)))) (\<lambda>exists.
              if exists then return_h () else throw_h OutputServicerMissing)) L2 = (Ok x, L')"
    using run unfolding l_index_action_def bind_h_eq_Ok [of "if ix_Royalty i = 0 then return_h () else _"]
      bind_h_eq_Ok [of "if ix_Parent i = ids_Empty then _ else _"]
    by (auto simp: bind_h_eq_Ok [of "if ix_Royalty i = 0 then return_h () else _"]
        bind_h_eq_Ok [of "if ix_Parent i = ids_Empty then _ else _"] throw_h_eq_Ok split: if_split_asm)
  show thesis
  proof (rule that)
    show "L1 = L \<or> (\<exists>owner. l_reward (ix_Parent i) actor L = (Ok owner, L1))"
      using 1 by (auto simp: bind_h_eq_Ok or_output_Ok return_h_eq_Ok throw_h_eq_Ok split: if_splits)
    show "L2 = L1 \<or> ix_Royalty i \<noteq> 0 \<and> bind_h (l_index cid actor (ix_Royalty i)) (\<lambda>_. l_lock actor S) L1 = (Ok (), L2)"
      using 2 by (auto simp: or_output_Ok return_h_eq_Ok split: if_splits)
    show "L' = L2 \<or> (\<exists>y L3. l_withdraw actor (ix_Commission i) L2 = (Ok y, L3) \<and>
        l_deposit (ix_Servicer i) (ix_Commission i) L3 = (Ok True, L'))"
      using 3 by (auto simp: bind_h_eq_Ok or_output_Ok throw_h_eq_Ok return_h_eq_Ok split: if_splits)
  qed
qed

lemma index_ok:
  assumes ok: "ledger_ok S L" and S: "0 < S" and perm: "permissions L (actor, signer) \<noteq> (0, 0)"
    and run: "l_index_action S cid actor i L = (Ok x, L')"
  shows "keeps_ledger S L L'"
proof -
  obtain L1 L2 where 1: "L1 = L \<or> (\<exists>owner. l_reward (ix_Parent i) actor L = (Ok owner, L1))"
    and 2: "L2 = L1 \<or> ix_Royalty i \<noteq> 0 \<and> bind_h (l_index cid actor (ix_Royalty i)) (\<lambda>_. l_lock actor S) L1 = (Ok (), L2)"
    and 3: "L' = L2 \<or> (\<exists>y L3. l_withdraw actor (ix_Commission i) L2 = (Ok y, L3) \<and>
      l_deposit (ix_Servicer i) (ix_Commission i) L3 = (Ok True, L'))"
    by (rule index_steps [OF run])
  have L1: "keeps_ledger S L L1" "permissions L1 = permissions L"
    using 1 ok reward_ok [OF ok] by (auto simp: keeps_ledger_def)
  then have ok1: "ledger_ok S L1" by (simp add: keeps_ledger_def)
  have L2: "keeps_ledger S L1 L2"
    using 2 ok1 register_ok [OF ok1 S, of actor signer] perm L1(2) by (auto simp: keeps_ledger_def)
  then have ok2: "ledger_ok S L2" by (simp add: keeps_ledger_def)
  have "keeps_ledger S L2 L'"
    using 3
  proof (elim disjE exE conjE)
    fix y L3
    assume w: "l_withdraw actor (ix_Commission i) L2 = (Ok y, L3)"
      and d: "l_deposit (ix_Servicer i) (ix_Commission i) L3 = (Ok True, L')"
    note w' = withdraw_ok [OF ok2 w]
    show ?thesis using deposit_ok(1,2) [OF w'(1) d] w'(2) by (simp add: keeps_ledger_def)
  qed (use ok2 in \<open>simp add: keeps_ledger_def\<close>)
  then show ?thesis using L1(1) L2 by (simp add: keeps_ledger_def)
qed

lemma unindex_ok:
  assumes ok: "ledger_ok S L" and S: "0 < S" and run: "l_unindex_action S actor u L = (Ok x, L')"
  shows "keeps_ledger S L L'"
proof -
  let ?i = "un_Content u"
  obtain r where own: "contents L ?i = Some (actor, r)" and unlock: "l_unlock actor S (put_content ?i None L) = (Ok x, L')"
    using run by (auto simp: l_unindex_action_def l_unindex_def or_output_Ok bind_h_eq_Ok l_content_Ok l_set_content_Ok
        throw_h_eq_Ok split: option.splits if_splits)
  note k = unlock_effect [OF unlock]
  have items: "items L' q + of_bool (q = actor) = items L q" for q
    using items_put_content [of ?i None L q] own k(5) by auto
  have l: "locked L actor = unat S * (1 + items L actor)"
    using account_okD [OF ok, of actor] exists_content [OF ok own] by (auto simp: account_ok_def)
  have "account_ok S L' q" for q
  proof (cases "q = actor")
    case True
    have one: "items L actor = items L' actor + 1" using items [of actor] by simp
    have "locked L' actor = unat S * (1 + items L' actor)" using l k(8) unfolding one by (simp add: algebra_simps)
    then show ?thesis using True S by (simp only: account_okI)
  next
    case False
    then show ?thesis using account_okD [OF ok, of q] items [of q] k(9) [of q] by (auto simp: account_ok_def split: if_splits)
  qed
  moreover have "royalty \<noteq> 0" if "contents L' j = Some (p, royalty)" for j p royalty
    using that k(2) ledger_ok_royalty [OF ok, of j] by (auto split: if_splits)
  ultimately show ?thesis using k(1) by (simp add: keeps_ledger_def ledger_ok_def)
qed

lemma modify_ok:
  assumes ok: "ledger_ok S L" and run: "l_modify actor m L = (Ok x, L')"
  shows "keeps_ledger S L L'"
proof -
  let ?i = "mo_Content m"
  obtain r where own: "contents L ?i = Some (actor, r)" and new: "mo_Royalty m \<noteq> 0"
    and L': "L' = put_content ?i (Some (actor, mo_Royalty m)) L"
    using run by (auto simp: l_modify_def or_output_Ok bind_h_eq_Ok l_content_Ok l_set_content_Ok
        throw_h_eq_Ok split: option.splits if_splits)
  have "items L' q = items L q" for q
    using items_put_content [of ?i "Some (actor, mo_Royalty m)" L q] own by (auto simp: L')
  then have "account_ok S L' q" for q using account_okD [OF ok, of q] by (auto simp: L' account_ok_def split: if_splits)
  then show ?thesis using ledger_ok_royalty [OF ok] new by (auto simp: keeps_ledger_def ledger_ok_def L')
qed

lemma action_ok:
  assumes "ledger_ok S L" "0 < S" "2 * unat S < 2 ^ 64" "total_supply L < 2 ^ 64"
    and "permissions L (GetActor rauth, GetSigner rauth) \<noteq> (0, 0)" and "l_action E S rauth action L = (Ok x, L')"
  shows "keeps_ledger S L L'"
proof (cases action)
  case (AuthorizeAction a)
  then show ?thesis using authorize_ok [OF assms(1,2,5)] assms(6) by simp
next
  case (TransferAction t)
  then show ?thesis using transfer_ok [OF assms(1-3)] assms(6) by simp
next
  case (ClearAction c)
  then show ?thesis using clear_ok [OF assms(1-5)] assms(6) by simp
next
  case (IndexAction i)
  then show ?thesis using index_ok [OF assms(1,2,5)] assms(6) by simp
next
  case (UnindexAction u)
  then show ?thesis using unindex_ok [OF assms(1,2)] assms(6) by simp
next
  case (ModifyAction m)
  then show ?thesis using modify_ok [OF assms(1)] assms(6) by simp
qed

end
