(* ===== verification/Index_Run.thy ===== *)
theory Index_Run
  imports Index_Ledger
begin

text \<open>
  Runs of the Index VM: the genesis, then transactions. The chain verifies a transaction, takes the highest
  fee it can cost, executes the action, undoes it when it was not successful, and refunds the part of the
  fee that was not used. The state is that of the database; before a transaction only the set of declared
  keys changes.
\<close>

section \<open>No panics\<close>

definition no_panic :: "('s, 'a, 'e) handler \<Rightarrow> bool" where
  "no_panic m \<longleftrightarrow> (\<forall>s. fst (m s) \<noteq> Panic)"

named_theorems no_panic_rules \<open>handlers that never panic\<close>

lemma no_panic_bind [no_panic_rules]:
  assumes "no_panic m" and "\<And>a. no_panic (f a)"
  shows "no_panic (bind_h m f)"
  unfolding no_panic_def
proof
  fix s
  obtain r s' where "m s = (r, s')" by (cases "m s")
  then show "fst (bind_h m f s) \<noteq> Panic"
    using assms unfolding no_panic_def by (cases r) (auto simp: bind_h_def, metis fst_conv)
qed

lemma no_panic_basic [no_panic_rules]:
  "no_panic (return_h a)" "no_panic (throw_h e)" "no_panic (modify_h f)" "no_panic (lift_h (\<lambda>s. Ok (g s)))"
  by (simp_all add: no_panic_def return_h_def throw_h_def modify_h_def lift_h_def)

lemma no_panic_if [no_panic_rules]: "no_panic m \<Longrightarrow> no_panic m' \<Longrightarrow> no_panic (if c then m else m')"
  by simp

lemma no_panic_prod [no_panic_rules]: "(\<And>a b. no_panic (f a b)) \<Longrightarrow> no_panic (case x of (a, b) \<Rightarrow> f a b)"
  by (cases x) simp

lemma no_panic_option [no_panic_rules]:
  "no_panic m \<Longrightarrow> (\<And>a. no_panic (f a)) \<Longrightarrow> no_panic (case x of None \<Rightarrow> m | Some a \<Rightarrow> f a)"
  by (cases x) simp_all

lemma no_panic_or_output [no_panic_rules]: "no_panic m \<Longrightarrow> no_panic (or_output m)"
  unfolding no_panic_def or_output_def convert_h_def by (auto split: prod.split result.split) (metis fst_conv)

lemma no_panic_action_result [no_panic_rules]: "no_panic m \<Longrightarrow> no_panic (action_result n m)"
  unfolding no_panic_def action_result_def by (auto split: prod.split result.split) (metis fst_conv)

lemma no_panic_access [no_panic_rules]: "no_panic m \<Longrightarrow> no_panic (l_access k m)"
  by (simp add: no_panic_def l_access_def)

lemma no_panic_ledger [no_panic_rules]:
  "no_panic (l_balance pk)" "no_panic (l_set_balance pk b)" "no_panic (l_permissions actor signer)"
  "no_panic (l_set_permissions actor signer p)" "no_panic (l_content i)" "no_panic (l_set_content i c)"
  unfolding l_balance_def l_set_balance_def l_permissions_def l_set_permissions_def l_content_def l_set_content_def
  by (intro no_panic_rules)+

lemma no_panic_funds [no_panic_rules]:
  "no_panic (l_deposit pk a)" "no_panic (l_deposit_existing pk a)" "no_panic (l_withdraw pk a)" "no_panic (l_lock pk a)"
  "no_panic (l_unlock pk a)"
  unfolding l_deposit_unfold l_deposit_existing_unfold l_withdraw_unfold l_lock_unfold l_unlock_unfold
  by (intro no_panic_rules)+

lemma no_panic_content [no_panic_rules]:
  "no_panic (l_index i pk r)" "no_panic (l_unindex i pk)" "no_panic (l_reward i pk)" "no_panic (l_pay S pk a)"
  unfolding l_index_def l_unindex_def l_reward_def l_pay_def by (intro no_panic_rules)+

lemma no_panic_l_action [no_panic_rules]: "no_panic (l_action E S rauth action)"
  by (cases action)
    (simp_all add: l_authorize_def l_transfer_def l_clear_def l_index_action_def l_unindex_action_def l_modify_def Let_def
      no_panic_rules split_def)

lemma no_panic_l_verify [no_panic_rules]: "no_panic (l_verify rauth action)"
  by (cases rauth) (auto simp: l_authorized_def intro!: no_panic_rules)

section \<open>Transactions\<close>

definition run_transaction ::
  "'s sdk \<Rightarrow> ('s \<Rightarrow> bytes \<Rightarrow> bytes option) \<Rightarrow> rules \<Rightarrow> auth \<Rightarrow> action \<Rightarrow> u64 \<Rightarrow> u64 \<Rightarrow> 's \<Rightarrow> 's \<Rightarrow> bool" where
  "run_transaction E view r rauth action fee refund s s' \<longleftrightarrow>
     (\<exists>s0 units s1 s2 res s3 s4. view s0 = view s \<and>
        Auth_Verify E rauth action s0 = (Ok units, s1) \<and>
        Auth_Deduct E rauth fee s1 = (Ok (), s2) \<and>
        Execute E r rauth action s2 = (Ok res, s3) \<and>
        (if res_Success res then s4 = s3 else view s4 = view s2) \<and>
        refund \<le> fee \<and> Auth_Refund E rauth refund s4 = (Ok (), s'))"

inductive vm_reachable :: "'s sdk \<Rightarrow> ('s \<Rightarrow> bytes \<Rightarrow> bytes option) \<Rightarrow> rules \<Rightarrow> 's \<Rightarrow> bool" for E view r where
  vm_genesis: "(\<And>k. view s k = None) \<Longrightarrow> genesis_Load E (rules_g r) s = (Ok (), s') \<Longrightarrow> vm_reachable E view r s'"
| vm_transaction: "vm_reachable E view r s \<Longrightarrow> run_transaction E view r rauth action fee refund s s' \<Longrightarrow>
    vm_reachable E view r s'"

text \<open>The ledger of a store, whatever keys are declared.\<close>

abbreviation stored :: "(bytes \<Rightarrow> bytes option) \<Rightarrow> ledger" where
  "stored m \<equiv> ledger_of m {} ErrNotFound"

definition same_ledger :: "ledger \<Rightarrow> ledger \<Rightarrow> bool" where
  "same_ledger L L' \<longleftrightarrow> balances L = balances L' \<and> permissions L = permissions L' \<and> contents L = contents L'"

lemma same_ledger_of: "same_ledger (ledger_of m K e) (ledger_of m K' e')"
  by (auto simp: same_ledger_def ledger_of_def)

lemma same_ledgerD:
  assumes "same_ledger L L'"
  shows "total_supply L = total_supply L'" "items L = items L'" "ledger_ok S L = ledger_ok S L'"
proof -
  show "total_supply L = total_supply L'" "items L = items L'"
    using assms by (auto simp: same_ledger_def total_supply_def items_def perm_items_def content_items_def)
  then show "ledger_ok S L = ledger_ok S L'" using assms by (auto simp: same_ledger_def ledger_ok_def account_ok_def)
qed

text \<open>A transaction on the ledger.\<close>

definition l_transaction :: "'s sdk \<Rightarrow> u64 \<Rightarrow> auth \<Rightarrow> action \<Rightarrow> u64 \<Rightarrow> u64 \<Rightarrow> ledger \<Rightarrow> ledger \<Rightarrow> bool" where
  "l_transaction E S rauth action fee refund L L' \<longleftrightarrow>
     (\<exists>L0 units L1 L2 r L3 L4 e. same_ledger L0 L \<and>
        l_verify rauth action L0 = (Ok units, L1) \<and>
        l_withdraw (payer_of rauth) fee L1 = (Ok (), L2) \<and>
        l_action E S rauth action L2 = (r, L3) \<and>
        same_ledger L4 (if is_ok r then L3 else L2) \<and>
        refund \<le> fee \<and> l_deposit_existing (payer_of rauth) refund L4 = (Ok e, L'))"

lemma l_verify_Ok:
  assumes "l_verify rauth action L = (Ok u, L')"
  shows "L' = L" "bit (fst (permissions L (GetActor rauth, GetSigner rauth)))
      (length (takeWhile (\<lambda>k. k \<noteq> kind_of action) ActionRegistry))"
  using assms
  by (cases rauth; auto simp: l_authorized_def bind_h_eq_Ok l_permissions_Ok return_h_eq_Ok throw_h_eq_Ok
      split: if_splits prod.splits)+

lemma verified_permission: "l_verify rauth action L = (Ok u, L') \<Longrightarrow> permissions L (GetActor rauth, GetSigner rauth) \<noteq> (0, 0)"
  by (metis bit_0_eq bot_apply bot_bool_def fst_conv l_verify_Ok(2))

context index_sdk
begin

lemma abs_ledger_Some: "abs_ledger s = Some L \<longleftrightarrow> well_typed (view s) \<and> L = ledger_of (view s) (scope s) kerr"
  by (auto simp: store_ledger_def)

lemma transaction_refines:
  assumes typed: "well_typed (view s)" and tx: "run_transaction E view r rauth action fee refund s s'"
  shows "well_typed (view s') \<and> (\<exists>L'. l_transaction E (StateLockup (rules_g r)) rauth action fee refund (stored (view s)) L' \<and>
    same_ledger L' (stored (view s')))"
proof -
  let ?S = "StateLockup (rules_g r)"
  obtain s0 units s1 s2 res s3 s4 where run: "view s0 = view s" "Auth_Verify E rauth action s0 = (Ok units, s1)"
    "Auth_Deduct E rauth fee s1 = (Ok (), s2)" "Execute E r rauth action s2 = (Ok res, s3)"
    "if res_Success res then s4 = s3 else view s4 = view s2" "refund \<le> fee" "Auth_Refund E rauth refund s4 = (Ok (), s')"
    using tx unfolding run_transaction_def by blast
  define L0 where "L0 = ledger_of (view s0) (scope s0) kerr"
  have L0: "abs_ledger s0 = Some L0" "same_ledger L0 (stored (view s))"
    using typed run(1) by (simp_all add: abs_ledger_Some L0_def same_ledger_of)
  obtain L1 where v: "l_verify rauth action L0 = (Ok units, L1)" "abs_ledger s1 = Some L1"
    using refinesD [OF Auth_Verify_refines [of rauth action] L0(1)] run(2) by (cases "l_verify rauth action L0") auto
  obtain L2 where w: "l_withdraw (payer_of rauth) fee L1 = (Ok (), L2)" "abs_ledger s2 = Some L2"
    using refinesD [OF Auth_Deduct_refines [of rauth fee] v(2)] run(3) by (cases "l_withdraw (payer_of rauth) fee L1") auto
  obtain x L3 where a: "l_action E ?S rauth action L2 = (x, L3)" by (cases "l_action E ?S rauth action L2")
  have "is_ok x = res_Success res \<and> abs_ledger s3 = Some L3"
    using refinesD [OF Execute_refines [of r rauth action] w(2)] run(4) a
    by (cases x) (auto simp: action_result_def)
  moreover define L4 where "L4 = ledger_of (view s4) (scope s4) kerr"
  ultimately have L4: "abs_ledger s4 = Some L4" "same_ledger L4 (if is_ok x then L3 else L2)"
    using run(5) w(2) by (auto simp: abs_ledger_Some same_ledger_of split: if_splits)
  obtain e L' where d: "l_deposit_existing (payer_of rauth) refund L4 = (Ok e, L')" "abs_ledger s' = Some L'"
    using refinesD [OF Auth_Refund_refines [of rauth refund] L4(1)] run(7)
    by (cases "l_deposit_existing (payer_of rauth) refund L4") (auto simp: bind_h_def return_h_def split: result.splits)
  have "l_transaction E ?S rauth action fee refund (stored (view s)) L'"
    unfolding l_transaction_def using L0(2) v(1) w(1) a L4(2) run(6) d(1) by blast
  moreover have "well_typed (view s')" "same_ledger L' (stored (view s'))"
    using d(2) by (simp_all add: abs_ledger_Some same_ledger_of)
  ultimately show ?thesis by blast
qed

end

section \<open>The ledger over a run\<close>

definition lockup_ok :: "u64 \<Rightarrow> bool" where
  "lockup_ok S \<longleftrightarrow> 0 < S \<and> 2 * unat S < 2 ^ 64"

lemma l_transaction_ok:
  assumes ok: "ledger_ok S L" and S: "lockup_ok S" and total: "total_supply L < 2 ^ 64"
    and tx: "l_transaction E S rauth action fee refund L L'"
  shows "ledger_ok S L'"
    and "total_supply L' + unat fee = total_supply L + (if locked L' (payer_of rauth) = 0 then 0 else unat refund)"
proof -
  obtain L0 units L1 L2 r L3 L4 e where same: "same_ledger L0 L" and v: "l_verify rauth action L0 = (Ok units, L1)"
    and w: "l_withdraw (payer_of rauth) fee L1 = (Ok (), L2)" and a: "l_action E S rauth action L2 = (r, L3)"
    and L4: "same_ledger L4 (if is_ok r then L3 else L2)"
    and d: "l_deposit_existing (payer_of rauth) refund L4 = (Ok e, L')"
    using tx unfolding l_transaction_def by blast
  note same = same_ledgerD [OF same]
  have L1: "L1 = L0" and perm: "permissions L1 (GetActor rauth, GetSigner rauth) \<noteq> (0, 0)"
    using l_verify_Ok(1) [OF v] verified_permission [OF v] by simp_all
  have ok1: "ledger_ok S L1" using ok same(3) by (simp add: L1)
  note w' = withdraw_ok [OF ok1 w]
  have keep: "keeps_ledger S L2 L3" if "is_ok r"
  proof -
    have "l_action E S rauth action L2 = (Ok (), L3)" using a that by (cases r) auto
    then show ?thesis
      using action_ok [of S L2 rauth E action "()" L3] w'(1,2,4) perm S total same(1) by (simp add: lockup_ok_def L1)
  qed
  have ok4: "ledger_ok S L4" and t4: "total_supply L4 + unat fee = total_supply L"
    using keep same_ledgerD [OF L4] w'(1,2) same(1) by (auto simp: keeps_ledger_def L1 split: if_splits)
  let ?t = "total_supply L' + unat fee = total_supply L + (if locked L' (payer_of rauth) = 0 then 0 else unat refund)"
  have "ledger_ok S L' \<and> ?t"
  proof (cases "locked L4 (payer_of rauth) = 0")
    case True
    then have "L' = L4" using d by (simp add: l_deposit_existing_Ok unat_eq_0)
    then show ?thesis using True ok4 t4 by simp
  next
    case False
    then have d': "l_deposit (payer_of rauth) refund L4 = (Ok e, L')" using d by (simp add: l_deposit_existing_Ok unat_eq_0)
    show ?thesis using deposit_ok(1,2,5,6) [OF ok4 d'] False t4 by simp
  qed
  then show "ledger_ok S L'" ?t by blast+
qed

text \<open>The genesis opens one account per allocation.\<close>

definition l_allocate :: "u64 \<Rightarrow> public_key \<Rightarrow> u64 \<Rightarrow> (ledger, unit, go_error) handler" where
  "l_allocate S pk amount =
     bind_h (l_deposit pk amount) (\<lambda>_. bind_h (l_lock pk (S * 2)) (\<lambda>_. l_set_permissions pk pk (MaxUint8, MaxUint8)))"

lemma allocate_ok:
  assumes ok: "ledger_ok S L" and S: "lockup_ok S" and new: "locked L pk = 0" and run: "l_allocate S pk a L = (Ok x, L')"
  shows "ledger_ok S L'" "total_supply L' = total_supply L + unat a" "\<And>q. q \<noteq> pk \<Longrightarrow> locked L' q = locked L q"
proof -
  have "snd (balances L pk) = 0" using new by (simp add: unat_eq_0)
  then have pay: "l_pay S pk a L = (Ok x, L')"
    using run by (auto simp: l_allocate_def l_pay_def bind_h_eq_Ok l_deposit_Ok)
  show "ledger_ok S L'" "total_supply L' = total_supply L + unat a"
    using pay_ok [OF ok pay] S by (simp_all add: lockup_ok_def)
  show "locked L' q = locked L q" if "q \<noteq> pk" for q
    using run that by (auto simp: l_allocate_def bind_h_eq_Ok l_deposit_Ok l_lock_Ok l_set_permissions_Ok)
qed

fun l_allocations :: "(string \<Rightarrow> (public_key, go_error) result) \<Rightarrow> u64 \<Rightarrow> custom_allocation list \<Rightarrow>
  (ledger, unit, go_error) handler" where
  "l_allocations parse S [] = return_h ()"
| "l_allocations parse S (alloc # rest) =
     bind_h (bind_h (lift_h (\<lambda>_. parse (ca_Address alloc))) (\<lambda>pk. l_allocate S pk (ca_Balance alloc)))
       (\<lambda>_. l_allocations parse S rest)"

definition allocated :: "custom_allocation list \<Rightarrow> nat" where
  "allocated allocs = sum_list (map (unat \<circ> ca_Balance) allocs)"

lemma allocations_ok:
  assumes "ledger_ok S L" "lockup_ok S" "distinct (map (parse \<circ> ca_Address) allocs)"
    and "\<And>alloc pk. alloc \<in> set allocs \<Longrightarrow> parse (ca_Address alloc) = Ok pk \<Longrightarrow> locked L pk = 0"
    and "l_allocations parse S allocs L = (Ok x, L')"
  shows "ledger_ok S L' \<and> total_supply L' = total_supply L + allocated allocs"
  using assms
proof (induction allocs arbitrary: L)
  case Nil
  then show ?case by (simp add: return_h_eq_Ok allocated_def)
next
  case (Cons alloc rest)
  obtain pk y L1 where pk: "parse (ca_Address alloc) = Ok pk" and a: "l_allocate S pk (ca_Balance alloc) L = (Ok y, L1)"
    and rest: "l_allocations parse S rest L1 = (Ok x, L')"
    using Cons.prems(5) by (auto simp: bind_h_eq_Ok lift_h_eq_Ok)
  note a' = allocate_ok [OF Cons.prems(1,2) _ a]
  have new: "locked L pk = 0" using Cons.prems(4) [of alloc pk] pk by simp
  have "locked L1 q = 0" if "b \<in> set rest" "parse (ca_Address b) = Ok q" for b q
  proof -
    have "parse (ca_Address alloc) \<noteq> parse (ca_Address b)" using Cons.prems(3) that(1) by force
    then have "q \<noteq> pk" using pk that(2) by auto
    then show ?thesis using a'(3) [OF new] Cons.prems(4) [of b q] that by simp
  qed
  then show ?case using Cons.IH [OF a'(1) [OF new] Cons.prems(2) _ _ rest] Cons.prems(3) a'(2) [OF new]
    by (simp add: allocated_def)
qed

lemma ledger_ok_empty: "ledger_ok S (ledger_of (\<lambda>_. None) K e)" "total_supply (ledger_of (\<lambda>_. None) K e) = 0"
  by (simp_all add: ledger_ok_def account_ok_def items_def perm_items_def content_items_def total_supply_def)

definition genesis_ok :: "'s sdk \<Rightarrow> genesis \<Rightarrow> bool" where
  "genesis_ok E g \<longleftrightarrow>
     lockup_ok (StateLockup g) \<and> distinct (map (parse_address E \<circ> ca_Address) (CustomAllocation g)) \<and>
     allocated (CustomAllocation g) < 2 ^ 64"

context index_sdk
begin

lemma Load_refines: "refines abs_ledger (Load_allocations E g allocs) (l_allocations (parse_address E) (StateLockup g) allocs)"
proof (induction allocs)
  case (Cons alloc rest)
  show ?case
    unfolding Load_allocations.simps l_allocations.simps Load_allocation_def l_allocate_def
    by (rule refines_bind [OF _ Cons.IH]) (intro refine_rules)
qed (simp add: refine_rules)

lemma genesis_reaches:
  assumes g: "genesis_ok E g" and empty: "\<And>k. view s k = None" and run: "genesis_Load E g s = (Ok (), s')"
  shows "well_typed (view s')" "ledger_ok (StateLockup g) (stored (view s'))"
    "total_supply (stored (view s')) = allocated (CustomAllocation g)"
proof -
  have e: "view s = (\<lambda>_. None)" using empty by blast
  then have L: "abs_ledger s = Some (ledger_of (\<lambda>_. None) (scope s) kerr)" by (simp add: abs_ledger_Some well_typed_def)
  obtain L' where run': "l_allocations (parse_address E) (StateLockup g) (CustomAllocation g) (ledger_of (\<lambda>_. None) (scope s) kerr) =
      (Ok (), L')" and L': "abs_ledger s' = Some L'"
    using refinesD [OF Load_refines [of g "CustomAllocation g"] L] run unfolding genesis_Load_def
    by (cases "l_allocations (parse_address E) (StateLockup g) (CustomAllocation g) (ledger_of (\<lambda>_. None) (scope s) kerr)") auto
  have "ledger_ok (StateLockup g) L' \<and> total_supply L' = allocated (CustomAllocation g)"
    using allocations_ok [OF ledger_ok_empty(1) _ _ _ run'] g ledger_ok_empty(2) by (simp add: genesis_ok_def)
  moreover have "well_typed (view s')" "same_ledger L' (stored (view s'))"
    using L' by (simp_all add: abs_ledger_Some same_ledger_of)
  ultimately show "well_typed (view s')" "ledger_ok (StateLockup g) (stored (view s'))"
    "total_supply (stored (view s')) = allocated (CustomAllocation g)"
    using same_ledgerD [of L' "stored (view s')"] by simp_all
qed

lemma reachable_ok:
  assumes g: "genesis_ok E (rules_g r)" and run: "vm_reachable E view r s"
  shows "well_typed (view s) \<and> ledger_ok (StateLockup (rules_g r)) (stored (view s)) \<and>
    total_supply (stored (view s)) \<le> allocated (CustomAllocation (rules_g r))"
  using run
proof induction
  case (vm_genesis s s')
  then show ?case using genesis_reaches [OF g vm_genesis] by simp
next
  case (vm_transaction s rauth action fee refund s')
  let ?S = "StateLockup (rules_g r)"
  obtain L' where w: "well_typed (view s')" and tx: "l_transaction E ?S rauth action fee refund (stored (view s)) L'"
    and same: "same_ledger L' (stored (view s'))"
    using transaction_refines [OF _ vm_transaction.hyps(2)] vm_transaction.IH by blast
  have S: "lockup_ok ?S" and total: "total_supply (stored (view s)) < 2 ^ 64"
    using g vm_transaction.IH by (simp_all add: genesis_ok_def)
  have "refund \<le> fee" using tx by (auto simp: l_transaction_def)
  then have "unat refund \<le> unat fee" by (simp add: word_le_nat_alt)
  then show ?case
    using l_transaction_ok [OF _ S total tx] vm_transaction.IH w same_ledgerD [OF same] by (auto split: if_splits)
qed

end

end
