(* ===== verification/Index_Properties.thy ===== *)
theory Index_Properties
  imports Index_Run
begin

text \<open>
  What the Index VM promises to its users: the properties of reachable states and of single
  transactions, and the record of accepted transactions. The sample libraries at the end keep the
  state in memory and show that the hypotheses can be met.
\<close>

section \<open>Accounts that take no part in a transaction\<close>

definition spares :: "public_key \<Rightarrow> ledger \<Rightarrow> ledger \<Rightarrow> bool" where
  "spares pk L L' \<longleftrightarrow>
     unlocked L pk \<le> unlocked L' pk \<and>
     (locked L pk \<noteq> 0 \<longrightarrow>
        locked L' pk = locked L pk \<and> (\<forall>signer. permissions L' (pk, signer) = permissions L (pk, signer))) \<and>
     (\<forall>i royalty. contents L' i = Some (pk, royalty) \<longleftrightarrow> contents L i = Some (pk, royalty))"

lemma spares_refl [simp]: "spares pk L L"
  by (simp add: spares_def)

lemma spares_trans: "spares pk L L1 \<Longrightarrow> spares pk L1 L' \<Longrightarrow> spares pk L L'"
  by (auto simp: spares_def)

lemma spares_same: "same_ledger L L1 \<Longrightarrow> spares pk L1 L2 \<Longrightarrow> spares pk L L2"
  by (auto simp: spares_def same_ledger_def)

lemma spares_put [simp]:
  "pk \<noteq> q \<Longrightarrow> spares pk L (put_balance q b L)" "pk \<noteq> q \<Longrightarrow> spares pk L (put_permissions q signer p L)"
  by (auto simp: spares_def)

lemma withdraw_spares: "l_withdraw q a L = (Ok x, L') \<Longrightarrow> pk \<noteq> q \<Longrightarrow> spares pk L L'"
  by (simp add: l_withdraw_Ok)

lemma deposit_spares: "ledger_ok S L \<Longrightarrow> l_deposit q a L = (Ok x, L') \<Longrightarrow> spares pk L L'"
  by (frule (1) deposit_ok(9), cases "pk = q") (auto simp: l_deposit_Ok spares_def)

lemma pay_spares:
  assumes ok: "ledger_ok S L" and run: "l_pay S q a L = (Ok x, L')"
  shows "spares pk L L'"
proof (cases "pk = q")
  case True
  obtain e L1 where dep: "l_deposit q a L = (Ok e, L1)"
    and rest: "if e then L' = L1 else (\<exists>y L2. l_lock q (S * 2) L1 = (Ok y, L2) \<and> L' = put_permissions q q (MaxUint8, MaxUint8) L2)"
    using run by (auto simp: l_pay_def bind_h_eq_Ok return_h_eq_Ok l_set_permissions_Ok split: if_splits)
  show ?thesis
  proof (cases e)
    case False
    have "contents L' = contents L" using rest False deposit_ok(3) [OF ok dep] lock_effect(2) by auto
    moreover have "locked L pk = 0" "unlocked L pk = 0"
      using False True deposit_ok(6) [OF ok dep] account_okD [OF ok, of pk] by (auto simp: account_ok_def split: if_splits)
    ultimately show ?thesis by (simp add: spares_def)
  qed (use rest deposit_spares [OF ok dep] in simp)
next
  case False
  then show ?thesis
    using run by (auto simp: l_pay_def bind_h_eq_Ok return_h_eq_Ok l_deposit_Ok l_lock_Ok l_set_permissions_Ok spares_def
        split: if_splits)
qed

lemma reward_spares:
  assumes ok: "ledger_ok S L" and run: "l_reward i sender L = (Ok owner, L')" and pk: "pk \<noteq> sender"
  shows "spares pk L L'"
proof (cases "contents L i")
  case None
  then show ?thesis using run by (auto simp: l_reward_def bind_h_eq_Ok l_content_Ok return_h_eq_Ok)
next
  case (Some c)
  obtain o' r where "c = (o', r)" by (cases c)
  then obtain y L1 e where w: "l_withdraw sender r L = (Ok y, L1)" and d: "l_deposit o' r L1 = (Ok e, L')"
    using run Some by (auto simp: l_reward_def bind_h_eq_Ok l_content_Ok return_h_eq_Ok)
  show ?thesis using spares_trans [OF withdraw_spares [OF w pk] deposit_spares [OF withdraw_ok(1) [OF ok w] d]] .
qed

lemma action_spares:
  assumes ok: "ledger_ok S L" and perm: "permissions L (GetActor rauth, GetSigner rauth) \<noteq> (0, 0)"
    and S: "lockup_ok S" and total: "total_supply L < 2 ^ 64"
    and run: "l_action E S rauth action L = (Ok x, L')" and pk: "pk \<noteq> GetActor rauth"
  shows "spares pk L L'"
proof (cases action)
  case (AuthorizeAction a)
  then show ?thesis
    using run pk by (auto simp: l_authorize_def Let_def bind_h_eq_Ok or_output_Ok l_permissions_Ok l_lock_Ok l_unlock_Ok
        return_h_eq_Ok throw_h_eq_Ok l_set_permissions_Ok spares_def split: if_splits)
next
  case (TransferAction t)
  then obtain y L1 where w: "l_withdraw (GetActor rauth) (tr_Value t) L = (Ok y, L1)"
    and p: "l_pay S (tr_To t) (tr_Value t) L1 = (Ok x, L')"
    using run by (auto simp: l_transfer_def or_output_Ok bind_h_eq_Ok throw_h_eq_Ok split: if_splits)
  show ?thesis using spares_trans [OF withdraw_spares [OF w pk] pay_spares [OF withdraw_ok(1) [OF ok w] p]] .
next
  case (ClearAction c)
  then have run': "l_clear S (GetActor rauth) (GetSigner rauth) c L = (Ok x, L')" using run by simp
  have "0 < S" "2 * unat S < 2 ^ 64" using S by (simp_all add: lockup_ok_def)
  note steps = clear_steps [OF ok this perm run']
  have "spares pk L (without_account (GetActor rauth) (GetSigner rauth) L)"
    using pk by (auto simp: spares_def without_account_def)
  then show ?thesis using spares_trans pay_spares [OF steps(2,4)] by blast
next
  case (IndexAction i)
  obtain L1 L2 where 1: "L1 = L \<or> (\<exists>owner. l_reward (ix_Parent i) (GetActor rauth) L = (Ok owner, L1))"
    and 2: "L2 = L1 \<or> ix_Royalty i \<noteq> 0 \<and>
      bind_h (l_index (ContentID E i) (GetActor rauth) (ix_Royalty i)) (\<lambda>_. l_lock (GetActor rauth) S) L1 = (Ok (), L2)"
    and 3: "L' = L2 \<or> (\<exists>y L3. l_withdraw (GetActor rauth) (ix_Commission i) L2 = (Ok y, L3) \<and>
      l_deposit (ix_Servicer i) (ix_Commission i) L3 = (Ok True, L'))"
    using index_steps [of S "ContentID E i" "GetActor rauth" i L x L'] run IndexAction by auto
  have ok1: "ledger_ok S L1" and p1: "permissions L1 = permissions L"
    using 1 ok reward_ok [OF ok] by (auto simp: keeps_ledger_def)
  have "spares pk L L1" using 1 reward_spares [OF ok _ pk] by auto
  moreover have "spares pk L1 L2"
    using 2 pk by (auto simp: bind_h_eq_Ok l_index_def l_content_Ok l_set_content_Ok l_lock_Ok throw_h_eq_Ok spares_def
        split: if_splits option.splits)
  moreover have ok2: "ledger_ok S L2"
    using 2 ok1 register_ok [OF ok1, of "GetActor rauth" "GetSigner rauth"] perm p1 S
    by (auto simp: keeps_ledger_def lockup_ok_def)
  then have "spares pk L2 L'"
    using 3 spares_trans [OF withdraw_spares deposit_spares [OF withdraw_ok(1) [OF ok2]]] pk by auto
  ultimately show ?thesis using spares_trans by blast
next
  case (UnindexAction u)
  then obtain b r where "contents L (un_Content u) = Some (GetActor rauth, r)" "L' = put_balance (GetActor rauth) b (put_content (un_Content u) None L)"
    using run by (auto simp: l_unindex_action_def l_unindex_def or_output_Ok bind_h_eq_Ok l_content_Ok l_set_content_Ok
        throw_h_eq_Ok l_unlock_Ok split: option.splits if_splits)
  then show ?thesis using pk by (auto simp: spares_def)
next
  case (ModifyAction m)
  then obtain r r' where "contents L (mo_Content m) = Some (GetActor rauth, r)"
    "L' = put_content (mo_Content m) (Some (GetActor rauth, r')) L"
    using run by (auto simp: l_modify_def or_output_Ok bind_h_eq_Ok l_content_Ok l_set_content_Ok
        throw_h_eq_Ok split: option.splits if_splits)
  then show ?thesis using pk by (auto simp: spares_def)
qed

lemma transaction_spares:
  assumes ok: "ledger_ok S L" and S: "lockup_ok S" and total: "total_supply L < 2 ^ 64"
    and tx: "l_transaction E S rauth action fee refund L L'" and pk: "pk \<noteq> GetActor rauth" "pk \<noteq> payer_of rauth"
  shows "spares pk L L'"
proof -
  obtain L0 units L1 L2 r L3 L4 e where same: "same_ledger L0 L" and v: "l_verify rauth action L0 = (Ok units, L1)"
    and w: "l_withdraw (payer_of rauth) fee L1 = (Ok (), L2)" and a: "l_action E S rauth action L2 = (r, L3)"
    and L4: "same_ledger L4 (if is_ok r then L3 else L2)"
    and d: "l_deposit_existing (payer_of rauth) refund L4 = (Ok e, L')"
    using tx unfolding l_transaction_def by blast
  have L1: "L1 = L0" and perm: "permissions L1 (GetActor rauth, GetSigner rauth) \<noteq> (0, 0)"
    using l_verify_Ok(1) [OF v] verified_permission [OF v] by simp_all
  have ok1: "ledger_ok S L1" using ok same_ledgerD(3) [OF same] by (simp add: L1)
  note w' = withdraw_ok [OF ok1 w]
  have "spares pk L2 L3" if "is_ok r"
  proof -
    have "l_action E S rauth action L2 = (Ok (), L3)" using a that by (cases r) auto
    then show ?thesis
      using action_spares [of S L2 rauth E action "()" L3 pk] w'(1,2,4) perm S total same_ledgerD(1) [OF same] pk
      by (simp add: L1)
  qed
  moreover have "spares pk L1 L2" by (rule withdraw_spares [OF w pk(2)])
  ultimately have "spares pk L1 (if is_ok r then L3 else L2)" using spares_trans by auto
  moreover have "spares pk L4 L'"
    using d pk(2) by (auto simp: l_deposit_existing_Ok l_deposit_Ok split: if_splits)
  ultimately show ?thesis
    using same L4 unfolding L1 by (auto simp: spares_def same_ledger_def)
qed

section \<open>Reachable states\<close>

lemma account_ok_explicit:
  assumes "account_ok S L pk"
  shows "if locked L pk = 0 then unlocked L pk = 0 \<and> perm_items L pk = {} \<and> content_items L pk = {}
    else locked L pk = unat S * (1 + card (perm_items L pk) + card (content_items L pk))"
  using assms unfolding account_ok_def items_def by (auto split: if_splits)

context index_sdk
begin

lemma declared_iff: "abs_ledger s = Some L \<Longrightarrow> k \<in> declared L \<longleftrightarrow> key_bytes k \<in> scope s"
  by (auto simp: store_ledger_def split: if_splits)

lemma execute_success:
  assumes "abs_ledger s = Some L" and "Execute E r rauth action s = (Ok res, s')" "res_Success res"
  obtains L' where "l_action E (StateLockup (rules_g r)) rauth action L = (Ok (), L')" "abs_ledger s' = Some L'"
proof -
  let ?run = "l_action E (StateLockup (rules_g r)) rauth action L"
  show thesis
    using refinesD [OF Execute_refines [of r rauth action] assms(1)] assms(2,3) that
    by (cases ?run; cases "fst ?run") (auto simp: action_result_def)
qed

lemma execute_failure:
  assumes "abs_ledger s = Some L" and "\<And>L'. l_action E (StateLockup (rules_g r)) rauth action L \<noteq> (Ok (), L')"
  shows "\<exists>res s'. Execute E r rauth action s = (Ok res, s') \<and> \<not> res_Success res"
proof -
  let ?run = "l_action E (StateLockup (rules_g r)) rauth action L"
  have "fst ?run \<noteq> Panic" using no_panic_l_action [of E "StateLockup (rules_g r)" rauth action] by (simp add: no_panic_def)
  then show ?thesis
    using refinesD [OF Execute_refines [of r rauth action] assms(1)] assms(2)
    by (cases ?run; cases "fst ?run") (auto simp: action_result_def)
qed

lemma execute_succeeds_iff:
  assumes "abs_ledger s = Some L"
  shows "(\<exists>res s'. Execute E r rauth action s = (Ok res, s') \<and> res_Success res) \<longleftrightarrow>
    (\<exists>L'. l_action E (StateLockup (rules_g r)) rauth action L = (Ok (), L'))"
proof (cases "\<exists>L'. l_action E (StateLockup (rules_g r)) rauth action L = (Ok (), L')")
  case True
  then show ?thesis using refinesD [OF Execute_refines [of r rauth action] assms] by (auto simp: action_result_def)
next
  case False
  then have "\<exists>res s'. Execute E r rauth action s = (Ok res, s') \<and> \<not> res_Success res"
    using execute_failure [OF assms] by blast
  then show ?thesis using False by auto
qed

lemma refines_typed:
  assumes "refines abs_ledger f g" and "no_panic g" and "well_typed (view s)"
  shows "fst (f s) \<noteq> Panic \<and> well_typed (view (snd (f s)))"
  using refinesD [OF assms(1), of s] assms(2,3) by (auto simp: no_panic_def store_ledger_def split: if_splits)

end

text \<open>
  C13. In every state of the Index VM that is reachable from a genesis in order (the addresses of its allocations
  are distinct, their sum is below 2^64, and the state lockup is positive and its double does not wrap), the locked balance of an account that exists is the state
  lockup times the keys it occupies: its balance, the permissions it has given and the content it owns. An
  account with no locked balance has no funds, no permissions and no content.
\<close>

theorem locked_balance_pays_for_state:
  assumes "index_sdk E view scope kerr" and "genesis_ok E (rules_g r)" and "vm_reachable E view r s"
  shows "let L = stored (view s) in
    if locked L pk = 0 then unlocked L pk = 0 \<and> perm_items L pk = {} \<and> content_items L pk = {}
    else locked L pk = unat (StateLockup (rules_g r)) * (1 + card (perm_items L pk) + card (content_items L pk))"
proof -
  have "account_ok (StateLockup (rules_g r)) (stored (view s)) pk"
    using index_sdk.reachable_ok [OF assms] account_okD by blast
  then show ?thesis unfolding Let_def by (rule account_ok_explicit)
qed


text \<open>
  C15. A transaction does not touch the accounts of others. An account that is neither its actor nor its payer
  loses no funds, and owns the same content with the same royalties as before; if it exists, its
  locked balance is the same and so are all the permissions it has given, bit by bit.
\<close>

theorem transaction_spares_others:
  assumes "index_sdk E view scope kerr" and "genesis_ok E (rules_g r)" and "vm_reachable E view r s"
    and "run_transaction E view r rauth action fee refund s s'" and "pk \<noteq> GetActor rauth" "pk \<noteq> payer_of rauth"
  shows "spares pk (stored (view s)) (stored (view s'))"
proof -
  note reach = index_sdk.reachable_ok [OF assms(1-3)]
  obtain L' where tx: "l_transaction E (StateLockup (rules_g r)) rauth action fee refund (stored (view s)) L'"
    and same: "same_ledger L' (stored (view s'))"
    using index_sdk.transaction_refines [OF assms(1) _ assms(4)] reach by blast
  have "lockup_ok (StateLockup (rules_g r))" "total_supply (stored (view s)) < 2 ^ 64"
    using assms(2) reach by (simp_all add: genesis_ok_def)
  then have "spares pk (stored (view s)) L'"
    using transaction_spares [OF _ _ _ tx assms(5,6)] reach by blast
  then show ?thesis using same by (auto simp: spares_def same_ledger_def)
qed

text \<open>
  C17. The byte store stays typed: from a store whose values have the length of their kind, authorization,
  fees and actions never panic and lead to such a store again.
\<close>

theorem typed_store_never_panics:
  assumes sdk: "index_sdk E view scope kerr" and typed: "well_typed (view s)"
  shows "(fst (Auth_Verify E rauth action s) \<noteq> Panic \<and> well_typed (view (snd (Auth_Verify E rauth action s)))) \<and>
    (fst (Auth_Deduct E rauth amount s) \<noteq> Panic \<and> well_typed (view (snd (Auth_Deduct E rauth amount s)))) \<and>
    (fst (Execute E r rauth action s) \<noteq> Panic \<and> well_typed (view (snd (Execute E r rauth action s)))) \<and>
    (fst (Auth_Refund E rauth amount s) \<noteq> Panic \<and> well_typed (view (snd (Auth_Refund E rauth amount s))))"
  using index_sdk.refines_typed [OF sdk index_sdk.Auth_Verify_refines [OF sdk] _ typed]
    index_sdk.refines_typed [OF sdk index_sdk.Auth_Deduct_refines [OF sdk] _ typed]
    index_sdk.refines_typed [OF sdk index_sdk.Execute_refines [OF sdk] _ typed]
    index_sdk.refines_typed [OF sdk index_sdk.Auth_Refund_refines [OF sdk] _ typed] no_panic_rules
  by metis

section \<open>Single actions\<close>

lemma pay_iff:
  assumes ok: "ledger_ok S L" "lockup_ok S" and fits: "unlocked L pk + unat a < 2 ^ 64"
    and decl: "BalanceKey pk \<in> declared L" "PermissionsKey pk pk \<in> declared L"
  shows "(\<exists>L'. l_pay S pk a L = (Ok (), L')) \<longleftrightarrow> locked L pk \<noteq> 0 \<or> 2 * unat S \<le> unat a"
proof -
  let ?u = "fst (balances L pk)" and ?l = "snd (balances L pk)"
  have dep: "l_deposit pk a L = (Ok (0 < ?l), put_balance pk (?u + a, ?l) L)" using fits decl by (simp add: l_deposit_Ok)
  show ?thesis
  proof (cases "locked L pk = 0")
    case True
    then have "unlocked L pk = 0" using account_okD [OF ok(1), of pk] by (simp add: account_ok_def)
    then have z: "?u = 0" "?l = 0" using True by (simp_all add: unat_eq_0)
    have S2: "unat (S * 2) = 2 * unat S"
      using ok(2) unat_mult_lem [of S "2 :: u64"] by (simp add: mult.commute lockup_ok_def)
    have "(\<exists>L'. l_pay S pk a L = (Ok (), L')) \<longleftrightarrow> S * 2 \<le> a \<and> unat (S * 2) < 2 ^ 64"
      using decl dep by (auto simp: l_pay_def bind_h_eq_Ok l_lock_Ok l_set_permissions_Ok z)
    then show ?thesis using True S2 ok(2) by (simp add: word_le_nat_alt lockup_ok_def)
  next
    case False
    then have "0 < ?l" by (simp add: word_neq_0_conv unat_eq_0)
    then show ?thesis using False dep by (auto simp: l_pay_def bind_h_eq_Ok return_h_eq_Ok)
  qed
qed

lemma pay_effect:
  assumes ok: "ledger_ok S L" "lockup_ok S" and run: "l_pay S pk a L = (Ok x, L')"
  shows "unlocked L' pk + locked L' pk = unlocked L pk + locked L pk + unat a"
    "locked L' pk = (if locked L pk = 0 then 2 * unat S else locked L pk)"
proof -
  obtain e L1 where dep: "l_deposit pk a L = (Ok e, L1)"
    and rest: "if e then L' = L1 else (\<exists>y L2. l_lock pk (S * 2) L1 = (Ok y, L2) \<and> L' = put_permissions pk pk (MaxUint8, MaxUint8) L2)"
    using run by (auto simp: l_pay_def bind_h_eq_Ok return_h_eq_Ok l_set_permissions_Ok split: if_splits)
  note d = deposit_ok [OF ok(1) dep]
  have S2: "unat (S * 2) = 2 * unat S"
    using ok(2) unat_mult_lem [of S "2 :: u64"] by (simp add: mult.commute lockup_ok_def)
  have "unlocked L' pk + locked L' pk = unlocked L pk + locked L pk + unat a \<and>
      locked L' pk = (if locked L pk = 0 then 2 * unat S else locked L pk)"
  proof (cases e)
    case True
    then show ?thesis using rest d(5,6,9) by simp
  next
    case False
    then obtain y L2 where "l_lock pk (S * 2) L1 = (Ok y, L2)" "balances L' = balances L2" using rest by auto
    then show ?thesis using lock_effect(6-8) [of pk "S * 2" L1 y L2] False d(5,6,9) S2 by simp
  qed
  then show "unlocked L' pk + locked L' pk = unlocked L pk + locked L pk + unat a"
    "locked L' pk = (if locked L pk = 0 then 2 * unat S else locked L pk)" by blast+
qed

lemma pay_others:
  assumes "l_pay S pk a L = (Ok x, L')"
  shows "q \<noteq> pk \<Longrightarrow> balances L' q = balances L q" "q \<noteq> pk \<Longrightarrow> perm_items L' q = perm_items L q" "contents L' = contents L"
  using assms by (auto simp: l_pay_def bind_h_eq_Ok return_h_eq_Ok l_deposit_Ok l_lock_Ok l_set_permissions_Ok
      perm_items_def split: if_splits)

lemma transfer_effect:
  assumes ok: "ledger_ok S L" "lockup_ok S" and run: "l_transfer S actor t L = (Ok x, L')" and ne: "tr_To t \<noteq> actor"
  shows "unlocked L' actor = unlocked L actor - unat (tr_Value t)"
    "unlocked L' (tr_To t) + locked L' (tr_To t) = unlocked L (tr_To t) + locked L (tr_To t) + unat (tr_Value t)"
    "locked L' (tr_To t) = (if locked L (tr_To t) = 0 then 2 * unat S else locked L (tr_To t))"
proof -
  obtain y L1 where w: "l_withdraw actor (tr_Value t) L = (Ok y, L1)" and p: "l_pay S (tr_To t) (tr_Value t) L1 = (Ok x, L')"
    using run by (auto simp: l_transfer_def or_output_Ok bind_h_eq_Ok throw_h_eq_Ok split: if_splits)
  note pay = pay_effect [OF withdraw_ok(1) [OF ok(1) w] ok(2) p] pay_others(1) [OF p, of actor]
  show "unlocked L' actor = unlocked L actor - unat (tr_Value t)"
    using w ne pay(3) by (auto simp: l_withdraw_Ok unat_sub)
  show "unlocked L' (tr_To t) + locked L' (tr_To t) = unlocked L (tr_To t) + locked L (tr_To t) + unat (tr_Value t)"
    "locked L' (tr_To t) = (if locked L (tr_To t) = 0 then 2 * unat S else locked L (tr_To t))"
    using w ne pay(1,2) by (auto simp: l_withdraw_Ok)
qed

text \<open>
  C16. On a typed store, every action does what its specification on the ledger of accounts says: it returns
  the same result, with the same message when it fails, and leads to a store of the resulting ledger.
\<close>

theorem execute_implements_ledger:
  assumes sdk: "index_sdk E view scope kerr" and ledger: "store_ledger view scope kerr s = Some L"
  shows "\<exists>s'. Execute E r rauth action s =
      (fst (action_result (Action_MaxUnits action) (l_action E (StateLockup (rules_g r)) rauth action) L), s') \<and>
    store_ledger view scope kerr s' =
      Some (snd (action_result (Action_MaxUnits action) (l_action E (StateLockup (rules_g r)) rauth action) L))"
  by (rule refinesD [OF index_sdk.Execute_refines [OF sdk] ledger])

text \<open>
  C20. \<^verbatim>\<open>Clear\<close> into another account empties the account: when a signer with permission clears an account of a
  ledger in order, and the funds go to an account other than itself, no balance, no permission and no
  content of it is left.
\<close>

theorem clear_leaves_nothing:
  assumes sdk: "index_sdk E view scope kerr" and ledger: "store_ledger view scope kerr s = Some L"
    and ok: "ledger_ok (StateLockup (rules_g r)) L" "lockup_ok (StateLockup (rules_g r))"
    and perm: "permissions L (GetActor rauth, GetSigner rauth) \<noteq> (0, 0)" and other: "cl_To c \<noteq> GetActor rauth"
    and run: "Execute E r rauth (ClearAction c) s = (Ok res, s')" "res_Success res"
  shows "balances (stored (view s')) (GetActor rauth) = (0, 0) \<and>
    perm_items (stored (view s')) (GetActor rauth) = {} \<and> content_items (stored (view s')) (GetActor rauth) = {}"
proof -
  obtain L' where run': "l_clear (StateLockup (rules_g r)) (GetActor rauth) (GetSigner rauth) c L = (Ok (), L')"
    and L': "store_ledger view scope kerr s' = Some L'"
    using index_sdk.execute_success [OF sdk ledger run] by auto
  have S: "0 < StateLockup (rules_g r)" "2 * unat (StateLockup (rules_g r)) < 2 ^ 64"
    using ok(2) by (simp_all add: lockup_ok_def)
  let ?L1 = "without_account (GetActor rauth) (GetSigner rauth) L"
  note steps = clear_steps [OF ok(1) S perm run']
  note pay = pay_others(1,2) [OF steps(4), of "GetActor rauth"] pay_others(3) [OF steps(4)]
  have "items ?L1 (GetActor rauth) = 0" using steps(3) [of "GetActor rauth"] by simp
  then have "perm_items ?L1 (GetActor rauth) = {}" "content_items ?L1 (GetActor rauth) = {}"
    by (simp_all add: items_def)
  then have "balances L' (GetActor rauth) = (0, 0) \<and> perm_items L' (GetActor rauth) = {} \<and> content_items L' (GetActor rauth) = {}"
    using pay other by (simp add: without_account_def content_items_def)
  moreover have "same_ledger L' (stored (view s'))"
    using L' index_sdk.abs_ledger_Some [OF sdk] same_ledger_of by simp
  ultimately show ?thesis by (simp add: same_ledger_def perm_items_def content_items_def)
qed

text \<open>
  C19. A transfer succeeds exactly when it moves a value that the actor has, into an account that exists or
  that the value is enough to open; this for a ledger in order, with the declared keys of the transaction
  readable. The receiver is credited, and a new account pays the lockup of its two keys from the value.
\<close>

theorem transfer_succeeds_iff:
  assumes sdk: "index_sdk E view scope kerr" and ledger: "store_ledger view scope kerr s = Some L"
    and ok: "ledger_ok (StateLockup (rules_g r)) L" "lockup_ok (StateLockup (rules_g r))" "total_supply L < 2 ^ 64"
    and keys: "set (Transfer_StateKeys rauth t) \<subseteq> scope s"
  shows "((\<exists>res s'. Execute E r rauth (TransferAction t) s = (Ok res, s') \<and> res_Success res) \<longleftrightarrow>
      tr_Value t \<noteq> 0 \<and> unat (tr_Value t) \<le> unlocked L (GetActor rauth) \<and>
      (locked L (tr_To t) \<noteq> 0 \<or> 2 * unat (StateLockup (rules_g r)) \<le> unat (tr_Value t))) \<and>
    (\<forall>res s'. Execute E r rauth (TransferAction t) s = (Ok res, s') \<longrightarrow> res_Success res \<longrightarrow> tr_To t \<noteq> GetActor rauth \<longrightarrow>
      unlocked (stored (view s')) (GetActor rauth) = unlocked L (GetActor rauth) - unat (tr_Value t) \<and>
      unlocked (stored (view s')) (tr_To t) + locked (stored (view s')) (tr_To t) =
        unlocked L (tr_To t) + locked L (tr_To t) + unat (tr_Value t) \<and>
      locked (stored (view s')) (tr_To t) =
        (if locked L (tr_To t) = 0 then 2 * unat (StateLockup (rules_g r)) else locked L (tr_To t)))"
proof -
  let ?S = "StateLockup (rules_g r)" and ?v = "tr_Value t" and ?actor = "GetActor rauth"
  have decl: "BalanceKey ?actor \<in> declared L" "BalanceKey (tr_To t) \<in> declared L" "PermissionsKey (tr_To t) (tr_To t) \<in> declared L"
    using keys by (auto simp: index_sdk.declared_iff [OF sdk ledger] Transfer_StateKeys_def key_bytes.simps)
  have "(\<exists>res s'. Execute E r rauth (TransferAction t) s = (Ok res, s') \<and> res_Success res) \<longleftrightarrow>
      (\<exists>L'. l_transfer ?S ?actor t L = (Ok (), L'))"
    using index_sdk.execute_succeeds_iff [OF sdk ledger, of r rauth "TransferAction t"] by simp
  also have "\<dots> \<longleftrightarrow> ?v \<noteq> 0 \<and> ?v \<le> fst (balances L ?actor) \<and>
      (\<exists>L'. l_pay ?S (tr_To t) ?v (put_balance ?actor (fst (balances L ?actor) - ?v, snd (balances L ?actor)) L) = (Ok (), L'))"
    using decl by (auto simp: l_transfer_def or_output_Ok bind_h_eq_Ok throw_h_eq_Ok l_withdraw_Ok)
  also have "\<dots> \<longleftrightarrow> ?v \<noteq> 0 \<and> unat ?v \<le> unlocked L ?actor \<and> (locked L (tr_To t) \<noteq> 0 \<or> 2 * unat ?S \<le> unat ?v)"
    (is "?v \<noteq> 0 \<and> ?v \<le> ?u \<and> ?P \<longleftrightarrow> _")
  proof -
    have "?P \<longleftrightarrow> locked L (tr_To t) \<noteq> 0 \<or> 2 * unat ?S \<le> unat ?v" if v: "?v \<noteq> 0" "?v \<le> ?u"
    proof -
      let ?L1 = "put_balance ?actor (?u - ?v, snd (balances L ?actor)) L"
      have w: "l_withdraw ?actor ?v L = (Ok (), ?L1)" using decl v by (simp add: l_withdraw_Ok)
      note w' = withdraw_ok [OF ok(1) w]
      have "unlocked ?L1 (tr_To t) + unat ?v \<le> total_supply L"
        using balance_le_supply [of ?L1 "tr_To t"] w'(2) by simp
      then have fits: "unlocked ?L1 (tr_To t) + unat ?v < 2 ^ 64" using ok(3) by simp
      show ?thesis using pay_iff [OF w'(1) ok(2) fits] w'(5,6) decl(2,3) by simp
    qed
    then show ?thesis by (auto simp: word_le_nat_alt)
  qed
  finally have iff: "(\<exists>res s'. Execute E r rauth (TransferAction t) s = (Ok res, s') \<and> res_Success res) \<longleftrightarrow>
      ?v \<noteq> 0 \<and> unat ?v \<le> unlocked L ?actor \<and> (locked L (tr_To t) \<noteq> 0 \<or> 2 * unat ?S \<le> unat ?v)" .
  show ?thesis
  proof (intro conjI [OF iff] allI impI)
    fix res s'
    assume run: "Execute E r rauth (TransferAction t) s = (Ok res, s')" "res_Success res" and ne: "tr_To t \<noteq> ?actor"
    obtain L' where run': "l_transfer ?S ?actor t L = (Ok (), L')" and L': "store_ledger view scope kerr s' = Some L'"
      using index_sdk.execute_success [OF sdk ledger run] by auto
    have "same_ledger L' (stored (view s'))" using L' index_sdk.abs_ledger_Some [OF sdk] same_ledger_of by simp
    then show "unlocked (stored (view s')) ?actor = unlocked L ?actor - unat ?v \<and>
        unlocked (stored (view s')) (tr_To t) + locked (stored (view s')) (tr_To t) =
          unlocked L (tr_To t) + locked L (tr_To t) + unat ?v \<and>
        locked (stored (view s')) (tr_To t) = (if locked L (tr_To t) = 0 then 2 * unat ?S else locked L (tr_To t))"
      using transfer_effect [OF ok(1,2) run' ne] unfolding same_ledger_def by simp
  qed
qed

text \<open>
  C23. \<^verbatim>\<open>Clear\<close> cannot open an account: the keys that the action declares lack the permissions of the receiver, so a
  clear into an account that does not exist is never successful.
\<close>

theorem clear_into_new_account_fails:
  assumes sdk: "index_sdk E view scope kerr" and ledger: "store_ledger view scope kerr s = Some L"
    and keys: "scope s = set (Auth_StateKeys rauth @ Action_StateKeys E rauth (ClearAction c))"
    and new: "locked L (cl_To c) = 0" "cl_To c \<noteq> GetActor rauth"
  shows "\<exists>res s'. Execute E r rauth (ClearAction c) s = (Ok res, s') \<and> \<not> res_Success res"
proof (rule index_sdk.execute_failure [OF sdk ledger])
  fix L'
  let ?S = "StateLockup (rules_g r)" and ?L1 = "without_account (GetActor rauth) (GetSigner rauth) L"
  have "PermissionsKey (cl_To c) (cl_To c) \<notin> declared L"
    using new(2) by (cases rauth) (auto simp: index_sdk.declared_iff [OF sdk ledger] keys Clear_StateKeys_def
        Direct_StateKeys_def Delegate_StateKeys_def key_bytes.simps [symmetric])
  moreover have "snd (balances ?L1 (cl_To c)) = 0" using new by (simp add: without_account_def unat_eq_0)
  ultimately have "l_pay ?S (cl_To c) amount ?L1 \<noteq> (Ok (), L')" for amount
    by (auto simp: l_pay_def bind_h_eq_Ok l_deposit_Ok l_lock_Ok l_set_permissions_Ok without_account_def)
  then show "l_action E ?S rauth (ClearAction c) L \<noteq> (Ok (), L')"
    by (auto simp: l_clear_def bind_h_eq_Ok or_output_Ok l_balance_Ok l_set_balance_Ok l_set_permissions_Ok throw_h_eq_Ok
        without_account_def split: if_splits prod.splits)
qed

text \<open>
  C24. A delegate who pays the fee can neither give permissions to a key that had none nor take all permissions
  of a key away: \<^verbatim>\<open>Authorize\<close> does not declare the balance of the actor, which it then locks or unlocks, and
  fails. (Changing permissions that a key has into others locks nothing, and is not affected.)
\<close>

theorem authorize_by_paying_delegate_fails:
  assumes sdk: "index_sdk E view scope kerr" and ledger: "store_ledger view scope kerr s = Some L"
    and keys: "scope s = set (Delegate_StateKeys d @ Authorize_StateKeys a)"
    and pays: "\<not> de_ActorPays d" "de_Actor d \<noteq> de_Signer d"
    and change: "permissions L (au_Actor a, au_Signer a) = (0, 0) \<or> (au_ActionPermissions a, au_MiscPermissions a) = (0, 0)"
  shows "\<exists>res s'. Authorize_Execute E r (AuthDelegate d) a s = (Ok res, s') \<and> \<not> res_Success res"
proof -
  have "BalanceKey (de_Actor d) \<notin> declared L"
    using pays by (auto simp: index_sdk.declared_iff [OF sdk ledger] keys Authorize_StateKeys_def Delegate_StateKeys_def
        Delegate_payer_def key_bytes.simps [symmetric])
  then have "l_action E (StateLockup (rules_g r)) (AuthDelegate d) (AuthorizeAction a) L \<noteq> (Ok (), L')" for L'
    using change by (auto simp: l_authorize_def Let_def bind_h_eq_Ok or_output_Ok l_permissions_Ok l_lock_Ok l_unlock_Ok
        throw_h_eq_Ok split: if_splits)
  then show ?thesis using index_sdk.execute_failure [OF sdk ledger, of r "AuthDelegate d" "AuthorizeAction a"] by simp
qed

text \<open>
  C18. Only permitted actions are executed: a transaction of a typed store has the bit of its action set in
  the permissions that its actor has given to its signer, and the bit for paying when the actor pays.
\<close>

theorem transaction_needs_permission:
  assumes sdk: "index_sdk E view scope kerr" and typed: "well_typed (view s)"
    and tx: "run_transaction E view r rauth action fee refund s s'"
  shows "let p = permissions (stored (view s)) (GetActor rauth, GetSigner rauth) in
    bit (fst p) (length (takeWhile (\<lambda>k. k \<noteq> kind_of action) ActionRegistry)) \<and>
    (payer_of rauth = GetActor rauth \<longrightarrow> bit (snd p) 0)"
proof -
  obtain L' where "l_transaction E (StateLockup (rules_g r)) rauth action fee refund (stored (view s)) L'"
    using index_sdk.transaction_refines [OF sdk typed tx] by blast
  then obtain L0 units L1 where same: "same_ledger L0 (stored (view s))" and v: "l_verify rauth action L0 = (Ok units, L1)"
    unfolding l_transaction_def by blast
  have "payer_of rauth = GetActor rauth \<longrightarrow> bit (snd (permissions L0 (GetActor rauth, GetSigner rauth))) 0"
    using v by (cases rauth) (auto simp: l_authorized_def bind_h_eq_Ok l_permissions_Ok return_h_eq_Ok throw_h_eq_Ok
        Delegate_payer_def split: if_splits prod.splits)
  then show ?thesis using l_verify_Ok(2) [OF v] same by (simp add: same_ledger_def)
qed

lemma allocate_locks:
  assumes "l_allocate S pk a L = (Ok x, L')"
  shows "locked L' pk = locked L pk + unat (S * 2)"
proof -
  obtain e L1 y L2 where d: "l_deposit pk a L = (Ok e, L1)" and k: "l_lock pk (S * 2) L1 = (Ok y, L2)"
    and "balances L' = balances L2"
    using assms by (auto simp: l_allocate_def bind_h_eq_Ok l_set_permissions_Ok)
  then show ?thesis using lock_effect(8) [OF k] by (auto simp: l_deposit_Ok)
qed

text \<open>
  C25. A genesis that names one address twice breaks the price of state: the account has locked the lockup of
  four keys and occupies two, so that it can never be cleared.
\<close>

theorem duplicate_allocation_overlocks:
  assumes sdk: "index_sdk E view scope kerr" and S: "lockup_ok (StateLockup g)"
    and allocs: "CustomAllocation g = [a, b]" "parse_address E (ca_Address a) = Ok pk" "parse_address E (ca_Address b) = Ok pk"
    and empty: "\<And>k. view s k = None" and run: "genesis_Load E g s = (Ok (), s')"
  shows "locked (stored (view s')) pk = 4 * unat (StateLockup g) \<and> perm_items (stored (view s')) pk = {pk} \<and>
    content_items (stored (view s')) pk = {} \<and> \<not> account_ok (StateLockup g) (stored (view s')) pk"
proof -
  let ?S = "StateLockup g" and ?L0 = "ledger_of (\<lambda>_. None) (scope s) kerr"
  have L0: "store_ledger view scope kerr s = Some ?L0"
  proof -
    have "view s = (\<lambda>_. None)" using empty by blast
    then show ?thesis by (simp add: store_ledger_def well_typed_def)
  qed
  obtain L' where run': "l_allocations (parse_address E) ?S [a, b] ?L0 = (Ok (), L')" and L': "store_ledger view scope kerr s' = Some L'"
    using refinesD [OF index_sdk.Load_refines [OF sdk, of g "[a, b]"] L0] run allocs(1) unfolding genesis_Load_def
    by (cases "l_allocations (parse_address E) ?S [a, b] ?L0") auto
  obtain L1 where 1: "l_allocate ?S pk (ca_Balance a) ?L0 = (Ok (), L1)" and 2: "l_allocate ?S pk (ca_Balance b) L1 = (Ok (), L')"
    using run' allocs(2,3) by (auto simp: bind_h_eq_Ok lift_h_eq_Ok return_h_eq_Ok)
  have S2: "unat (?S * 2) = 2 * unat ?S"
    using S unat_mult_lem [of ?S "2 :: u64"] by (simp add: mult.commute lockup_ok_def)
  have "locked L' pk = locked ?L0 pk + 4 * unat ?S"
    using allocate_locks [OF 1] allocate_locks [OF 2] S2 by simp
  moreover have "perm_items L' pk = {pk}" "content_items L' pk = {}"
    using 1 2 by (auto simp: l_allocate_def bind_h_eq_Ok l_deposit_Ok l_lock_Ok l_set_permissions_Ok perm_items_def
        content_items_def MaxUint8_def split: if_splits)
  moreover have "same_ledger L' (stored (view s'))" using L' index_sdk.abs_ledger_Some [OF sdk] same_ledger_of by simp
  ultimately have *: "locked (stored (view s')) pk = 4 * unat ?S" "perm_items (stored (view s')) pk = {pk}"
    "content_items (stored (view s')) pk = {}"
    by (simp_all add: same_ledger_def perm_items_def content_items_def)
  moreover have "\<not> account_ok ?S (stored (view s')) pk"
    using S unfolding account_ok_def items_def * by (simp add: lockup_ok_def unat_eq_0)
  ultimately show ?thesis by blast
qed

section \<open>Accepted transactions\<close>

text \<open>What is relied on of the metadata database and of its batches.\<close>

definition kv_laws :: "'m metadata \<Rightarrow> bool" where
  "kv_laws M \<longleftrightarrow> (\<forall>k v m. \<exists>m'. kv_put M k v m = (Ok (), m') \<and>
     (\<forall>k'. kv_get M m' k' = (if k' = k then Ok v else kv_get M m k')))"

definition batch_laws :: "'b metadata \<Rightarrow> 'b \<Rightarrow> ('b \<Rightarrow> ('m, unit, go_error) handler) \<Rightarrow> 'm metadata \<Rightarrow> bool" where
  "batch_laws B b0 flush M \<longleftrightarrow>
     kv_laws B \<and> (\<forall>k. kv_get B b0 k = Err ErrNotFound) \<and>
     (\<forall>b m. \<exists>m'. flush b m = (Ok (), m') \<and>
        (\<forall>k. kv_get M m' k = (case kv_get B b k of Ok v \<Rightarrow> Ok v | _ \<Rightarrow> kv_get M m k)))"

lemma PrefixTxKey_inject [simp]: "PrefixTxKey a = PrefixTxKey b \<longleftrightarrow> a = b"
  by (simp add: PrefixTxKey_def)

lemma stored_transaction:
  assumes "kv_get M m (PrefixTxKey txid) =
    Ok (PutUint64 t @ (if success then successByte else failureByte) # PutUint64 units)"
  shows "GetTransaction M m txid = Ok (True, t, success, units)"
  using assms by (simp add: GetTransaction_def index_at_def slice_from_def nth_append successByte_def failureByte_def)

definition tx_value :: "u64 \<Rightarrow> accepted_tx \<Rightarrow> bytes" where
  "tx_value t tx = PutUint64 t @ (if tx_Success tx then successByte else failureByte) # PutUint64 (tx_Units tx)"

definition successful :: "(action \<Rightarrow> bool) \<Rightarrow> accepted_tx list \<Rightarrow> nat" where
  "successful P txs = length (filter (\<lambda>tx. tx_Success tx \<and> P (tx_Action tx)) txs)"

lemma Accepted_txs_run:
  assumes laws: "kv_laws B" and "distinct (map tx_ID txs)"
  shows "\<exists>c' b'. Accepted_txs B t txs (b, c) = (Ok (), b', c') \<and>
    (\<forall>tx \<in> set txs. kv_get B b' (PrefixTxKey (tx_ID tx)) = Ok (tx_value t tx)) \<and>
    (\<forall>k. k \<notin> PrefixTxKey ` tx_ID ` set txs \<longrightarrow> kv_get B b' k = kv_get B b k) \<and>
    itemsIndexed c' = itemsIndexed c + successful (\<lambda>a. kind_of a = KIndex) txs \<and>
    itemsUnindexed c' = itemsUnindexed c + successful (\<lambda>a. kind_of a = KUnindex) txs"
  using assms(2)
proof (induction txs arbitrary: c b)
  case Nil
  then show ?case by (simp add: return_h_def successful_def)
next
  case (Cons tx txs)
  let ?k = "PrefixTxKey (tx_ID tx)"
  obtain b1 where b1: "kv_put B ?k (tx_value t tx) b = (Ok (), b1)"
    "\<And>k'. kv_get B b1 k' = (if k' = ?k then Ok (tx_value t tx) else kv_get B b k')"
    using laws unfolding kv_laws_def by blast
  have store: "StoreTransaction B (tx_ID tx) t (tx_Success tx) (tx_Units tx) b = (Ok (), b1)"
    using b1(1) by (simp add: StoreTransaction_def tx_value_def)
  have new: "?k \<notin> PrefixTxKey ` tx_ID ` set txs" using Cons.prems by (auto simp: image_iff)
  obtain c' b' where run: "Accepted_txs B t txs (b1, count_tx tx c) = (Ok (), b', c')"
    and found: "\<forall>tx \<in> set txs. kv_get B b' (PrefixTxKey (tx_ID tx)) = Ok (tx_value t tx)"
    and rest: "\<forall>k. k \<notin> PrefixTxKey ` tx_ID ` set txs \<longrightarrow> kv_get B b' k = kv_get B b1 k"
    and n: "itemsIndexed c' = itemsIndexed (count_tx tx c) + successful (\<lambda>a. kind_of a = KIndex) txs"
      "itemsUnindexed c' = itemsUnindexed (count_tx tx c) + successful (\<lambda>a. kind_of a = KUnindex) txs"
    using Cons.IH [of b1 "count_tx tx c"] Cons.prems by auto
  have "Accepted_txs B t (tx # txs) (b, c) = (Ok (), b', c')"
    using store run by (simp add: bind_h_def focus_h_def modify_h_def)
  moreover have "itemsIndexed c' = itemsIndexed c + successful (\<lambda>a. kind_of a = KIndex) (tx # txs)"
    "itemsUnindexed c' = itemsUnindexed c + successful (\<lambda>a. kind_of a = KUnindex) (tx # txs)"
    using n by (cases "tx_Action tx"; simp add: count_tx_def successful_def)+
  ultimately show ?case using found rest new b1(2) by auto
qed

text \<open>
  C21. Accepting a block makes its transactions retrievable: the query for each finds the time of the block,
  its success and its units, other transactions are as before, and the two metrics count the successful
  \<^verbatim>\<open>Index\<close> and \<^verbatim>\<open>Unindex\<close> actions.
\<close>

theorem accepted_transactions_found:
  assumes laws: "batch_laws B b0 flush M" and ids: "distinct (map tx_ID txs)"
  shows "\<exists>c' m'. Accepted B b0 flush t txs (m, c) = (Ok (), m', c') \<and>
    (\<forall>tx \<in> set txs. Handler_GetTx M m' (tx_ID tx) =
       Ok \<lparr>gt_Accepted = True, gt_Timestamp = t, gt_Success = tx_Success tx, gt_Units = tx_Units tx\<rparr>) \<and>
    (\<forall>txid. txid \<notin> tx_ID ` set txs \<longrightarrow> Handler_GetTx M m' txid = Handler_GetTx M m txid) \<and>
    itemsIndexed c' = itemsIndexed c + successful (\<lambda>a. kind_of a = KIndex) txs \<and>
    itemsUnindexed c' = itemsUnindexed c + successful (\<lambda>a. kind_of a = KUnindex) txs"
proof -
  have "kv_laws B" using laws by (simp add: batch_laws_def)
  then obtain c' b' where run: "Accepted_txs B t txs (b0, c) = (Ok (), b', c')"
    and found: "\<forall>tx \<in> set txs. kv_get B b' (PrefixTxKey (tx_ID tx)) = Ok (tx_value t tx)"
    and rest: "\<forall>k. k \<notin> PrefixTxKey ` tx_ID ` set txs \<longrightarrow> kv_get B b' k = kv_get B b0 k"
    and n: "itemsIndexed c' = itemsIndexed c + successful (\<lambda>a. kind_of a = KIndex) txs"
      "itemsUnindexed c' = itemsUnindexed c + successful (\<lambda>a. kind_of a = KUnindex) txs"
    using Accepted_txs_run [OF _ ids, of B t b0 c] by blast
  obtain m' where m': "flush b' m = (Ok (), m')"
    "\<And>k. kv_get M m' k = (case kv_get B b' k of Ok v \<Rightarrow> Ok v | _ \<Rightarrow> kv_get M m k)"
    using laws unfolding batch_laws_def by blast
  have "Accepted B b0 flush t txs (m, c) = (Ok (), m', c')" using run m'(1) by (simp add: Accepted_def)
  moreover have "GetTransaction M m' (tx_ID tx) = Ok (True, t, tx_Success tx, tx_Units tx)" if "tx \<in> set txs" for tx
    using found that m'(2) by (intro stored_transaction) (simp add: tx_value_def)
  moreover have "GetTransaction M m' txid = GetTransaction M m txid" if "txid \<notin> tx_ID ` set txs" for txid
  proof -
    have "kv_get B b' (PrefixTxKey txid) = Err ErrNotFound"
      using rest that laws by (auto simp: batch_laws_def image_iff)
    then show ?thesis using m'(2) by (simp add: GetTransaction_def)
  qed
  ultimately show ?thesis using n by (auto simp: Handler_GetTx_def)
qed

text \<open>
  C22. Queries tell the ledger: over a typed store, the balance query returns the balances of the account and
  whether it exists, and the content query the owner and the royalty, or empty values for content that is
  not indexed.
\<close>

theorem queries_tell_the_ledger:
  assumes typed: "well_typed m" and reader: "\<And>ks. f ks = map (\<lambda>k. case m k of None \<Rightarrow> Err ErrNotFound | Some v \<Rightarrow> Ok v) ks"
    and addr: "parse_address E address = Ok pk"
  shows "Handler_Balance E f address =
      Ok \<lparr>br_Exists = (locked (stored m) pk \<noteq> 0), br_Unlocked = fst (balances (stored m) pk),
        br_Locked = snd (balances (stored m) pk)\<rparr> \<and>
    Handler_Content print f contentID =
      Ok (case contents (stored m) contentID of
          None \<Rightarrow> \<lparr>cr_Searcher = [], cr_Royalty = 0\<rparr>
        | Some (owner, royalty) \<Rightarrow> \<lparr>cr_Searcher = print owner, cr_Royalty = royalty\<rparr>)"
proof
  show "Handler_Balance E f address = Ok \<lparr>br_Exists = (locked (stored m) pk \<noteq> 0), br_Unlocked = fst (balances (stored m) pk),
      br_Locked = snd (balances (stored m) pk)\<rparr>"
  proof (cases "m (key_bytes (BalanceKey pk))")
    case None
    then show ?thesis by (simp add: Handler_Balance_def addr GetBalanceFromState_def reader key_bytes.simps innerGetBalance_def)
  next
    case (Some v)
    then have "length v = 16" using typed by (auto simp: well_typed_def)
    then show ?thesis using Some innerGetBalance_typed [of v]
      by (cases "stored_balance (Some v)")
        (simp add: Handler_Balance_def addr GetBalanceFromState_def reader key_bytes.simps word_neq_0_conv unat_eq_0)
  qed
  show "Handler_Content print f contentID = Ok (case contents (stored m) contentID of
          None \<Rightarrow> \<lparr>cr_Searcher = [], cr_Royalty = 0\<rparr>
        | Some (owner, royalty) \<Rightarrow> \<lparr>cr_Searcher = print owner, cr_Royalty = royalty\<rparr>)"
  proof (cases "m (key_bytes (ContentKey contentID))")
    case None
    then show ?thesis by (simp add: Handler_Content_def GetContentFromState_def reader key_bytes.simps innerGetContent_def)
  next
    case (Some v)
    then have "length v = 40" using typed by (auto simp: well_typed_def)
    then obtain owner royalty where "innerGetContent (Ok v) = Ok (owner, royalty, True)" "stored_content (Some v) = Some (owner, royalty)"
      using innerGetContent_typed by blast
    then show ?thesis using Some by (simp add: Handler_Content_def GetContentFromState_def reader key_bytes.simps)
  qed
qed

section \<open>Sample libraries\<close>

text \<open>The chain's database as a map in memory with the declared keys.\<close>

record map_state =
  ms_scope :: "bytes set"
  ms_values :: "bytes \<Rightarrow> bytes option"

definition undeclared :: go_error where
  "undeclared = ErrDatabase ''key not declared''"

definition map_sdk :: "map_state sdk" where
  "map_sdk =
     \<lparr>db_get_value = (\<lambda>k s. (if k \<in> ms_scope s then (case ms_values s k of None \<Rightarrow> Err ErrNotFound | Some v \<Rightarrow> Ok v)
        else Err undeclared, s)),
      db_insert = (\<lambda>k v s. if k \<in> ms_scope s then (Ok (), s\<lparr>ms_values := (ms_values s)(k \<mapsto> v)\<rparr>) else (Err undeclared, s)),
      db_remove = (\<lambda>k s. if k \<in> ms_scope s then (Ok (), s\<lparr>ms_values := (ms_values s)(k := None)\<rparr>) else (Err undeclared, s)),
      add64 = checked_add, sub64 = checked_sub,
      to_id = (\<lambda>b. of_nat (length b)), pack_id = hv_bytes, pack_bytes = (\<lambda>b. b),
      sig_verify = (\<lambda>msg pk sig. sig = hv_bytes pk), sig_sign = (\<lambda>msg priv. priv), sig_public = hv_new,
      parse_address = (\<lambda>a. Ok (of_nat (length a))),
      lookup_type = (\<lambda>ts kind. if kind \<in> set ts then Some (of_nat (length (takeWhile (\<lambda>t. t \<noteq> kind) ts))) else None)\<rparr>"

interpretation map_chain: index_sdk map_sdk ms_values ms_scope undeclared
  by unfold_locales (auto simp: map_sdk_def undeclared_def fun_eq_iff)

definition sample_rules :: rules where
  "sample_rules = \<lparr>chainID = 7, rules_g = genesis_Default\<lparr>CustomAllocation := [\<lparr>ca_Address = ''a'', ca_Balance = 9000\<rparr>]\<rparr>\<rparr>"

definition sample_start :: map_state where
  "sample_start = \<lparr>ms_scope = UNIV, ms_values = (\<lambda>_. None)\<rparr>"

definition sample_auth :: auth where
  "sample_auth = AuthDirect \<lparr>di_Signer = 1, di_Signature = []\<rparr>"

definition sample_transfer :: action where
  "sample_transfer = TransferAction \<lparr>tr_To = 2, tr_Value = 3000\<rparr>"

abbreviation map_state_of :: "(bytes \<Rightarrow> bytes option) \<Rightarrow> map_state" where
  "map_state_of m \<equiv> \<lparr>ms_scope = UNIV, ms_values = m\<rparr>"

abbreviation balance_bytes :: "u64 \<Rightarrow> u64 \<Rightarrow> bytes" where
  "balance_bytes u l \<equiv> PutUint64 u @ PutUint64 l"

definition sample_s1 :: map_state where
  "sample_s1 = map_state_of [PrefixBalanceKey 1 \<mapsto> balance_bytes 6952 2048, PrefixPermissionsKey 1 1 \<mapsto> [255, 255]]"

definition sample_s2 :: map_state where
  "sample_s2 = map_state_of [PrefixBalanceKey 1 \<mapsto> balance_bytes 6852 2048, PrefixPermissionsKey 1 1 \<mapsto> [255, 255]]"

definition sample_s3 :: map_state where
  "sample_s3 = map_state_of [PrefixBalanceKey 1 \<mapsto> balance_bytes 3852 2048, PrefixPermissionsKey 1 1 \<mapsto> [255, 255],
     PrefixBalanceKey 2 \<mapsto> balance_bytes 952 2048, PrefixPermissionsKey 2 2 \<mapsto> [255, 255]]"

definition sample_s4 :: map_state where
  "sample_s4 = map_state_of [PrefixBalanceKey 1 \<mapsto> balance_bytes 3892 2048, PrefixPermissionsKey 1 1 \<mapsto> [255, 255],
     PrefixBalanceKey 2 \<mapsto> balance_bytes 952 2048, PrefixPermissionsKey 2 2 \<mapsto> [255, 255]]"

lemma map_sdk_simps [simp]:
  "db_get_value map_sdk k s = (if k \<in> ms_scope s then (case ms_values s k of None \<Rightarrow> Err ErrNotFound | Some v \<Rightarrow> Ok v)
     else Err undeclared, s)"
  "db_insert map_sdk k v s = (if k \<in> ms_scope s then (Ok (), s\<lparr>ms_values := (ms_values s)(k \<mapsto> v)\<rparr>) else (Err undeclared, s))"
  "db_remove map_sdk k s = (if k \<in> ms_scope s then (Ok (), s\<lparr>ms_values := (ms_values s)(k := None)\<rparr>) else (Err undeclared, s))"
  "add64 map_sdk = checked_add" "sub64 map_sdk = checked_sub" "parse_address map_sdk a = Ok (of_nat (length a))"
  by (simp_all add: map_sdk_def)

lemma prefix_key_inject [simp]:
  "PrefixBalanceKey a = PrefixBalanceKey b \<longleftrightarrow> a = b"
  "PrefixPermissionsKey a p = PrefixPermissionsKey b q \<longleftrightarrow> a = b \<and> p = q"
  "PrefixBalanceKey a \<noteq> PrefixPermissionsKey b q" "PrefixPermissionsKey b q \<noteq> PrefixBalanceKey a"
  by (auto simp: prefix_key_defs)

lemma innerGetBalance_simps [simp]:
  "innerGetBalance (Ok (balance_bytes u l)) = Ok (u, l)" "innerGetBalance (Err ErrNotFound) = Ok (0, 0)"
  by (simp_all add: innerGetBalance_def slice_to_def slice_from_def)

lemmas sample_eval = bind_h_def lift_h_def return_h_def throw_h_def convert_h_def GetBalance_def SetBalance_def
  AddUnlockedBalance_def SubUnlockedBalance_def LockBalance_def GetPermissions_def SetPermissions_def index_at_def
  checked_add_def checked_sub_def MaxUint8_def or_output_def action_result_def Let_def

lemma sample_load: "genesis_Load map_sdk (rules_g sample_rules) sample_start = (Ok (), sample_s1)"
  by (simp add: genesis_Load_def Load_allocation_def sample_rules_def sample_start_def sample_s1_def genesis_Default_def sample_eval
      fun_upd_twist)

lemma sample_verify: "Auth_Verify map_sdk sample_auth sample_transfer sample_s1 = (Ok 352, sample_s1)"
proof -
  have "lookup_type map_sdk ActionRegistry KTransfer = Some 1" by (simp add: map_sdk_def ActionRegistry_def)
  moreover have "CheckBit 255 1" "CheckBit 255 actorPaysBit" by code_simp+
  ultimately show ?thesis
    by (simp add: sample_auth_def sample_transfer_def Direct_Verify_def Authorized_def sample_s1_def sample_eval
      Direct_MaxUnits_def PublicKeyLen_def SignatureLen_def)
qed

lemma sample_deduct: "Auth_Deduct map_sdk sample_auth 100 sample_s1 = (Ok (), sample_s2)"
  by (simp add: sample_auth_def Direct_Deduct_def sample_s1_def sample_s2_def sample_eval fun_upd_twist)

lemma sample_execute:
  "Execute map_sdk sample_rules sample_auth sample_transfer sample_s2 =
     (Ok \<lparr>res_Success = True, res_Units = 40, res_Output = NoOutput\<rparr>, sample_s3)"
  by (simp add: sample_auth_def sample_transfer_def Transfer_Execute_def Transfer_body_def sample_s2_def sample_s3_def
      Transfer_MaxUnits_def PublicKeyLen_def Uint64Len_def sample_eval GetStateLockup_def FetchCustom_def sample_rules_def
      genesis_Default_def fun_upd_twist)

lemma sample_refund: "Auth_Refund map_sdk sample_auth 40 sample_s3 = (Ok (), sample_s4)"
  by (simp add: sample_auth_def Direct_Refund_def sample_s3_def sample_s4_def sample_eval fun_upd_twist)

lemma sample_transaction: "run_transaction map_sdk ms_values sample_rules sample_auth sample_transfer 100 40 sample_s1 sample_s4"
  unfolding run_transaction_def using sample_verify sample_deduct sample_execute sample_refund
  by (intro exI conjI) (assumption | simp)+

lemma sample_reachable: "vm_reachable map_sdk ms_values sample_rules sample_s1"
  by (rule vm_genesis [OF _ sample_load]) (simp add: sample_start_def)

lemma sample_genesis_ok: "genesis_ok map_sdk (rules_g sample_rules)"
  by (simp add: genesis_ok_def lockup_ok_def allocated_def sample_rules_def genesis_Default_def)

lemmas index_run_facts = map_chain.index_sdk_axioms sample_genesis_ok sample_reachable

lemma stored_at: "balances (stored m) pk = stored_balance (m (PrefixBalanceKey pk))"
  by (simp add: key_bytes.simps)

lemma sample_stored:
  "stored_balance (ms_values sample_s1 (PrefixBalanceKey 1)) = (6952, 2048)"
  "stored_balance (ms_values sample_s4 (PrefixBalanceKey 1)) = (3892, 2048)"
  by (simp_all add: sample_s1_def sample_s4_def)

theorem locked_balance_pays_for_state_witness:
  "1 + card (perm_items (stored (ms_values sample_s1)) 1) + card (content_items (stored (ms_values sample_s1)) 1) = 2"
  using locked_balance_pays_for_state [OF index_run_facts, of 1] unfolding Let_def stored_at sample_stored
  by (simp add: sample_rules_def genesis_Default_def)


theorem transaction_spares_others_witness: "spares 3 (stored (ms_values sample_s1)) (stored (ms_values sample_s4))"
  by (rule transaction_spares_others [OF index_run_facts sample_transaction]) (simp_all add: sample_auth_def)

lemma sample_ok:
  "well_typed (ms_values sample_s1)" "ledger_ok (StateLockup (rules_g sample_rules)) (ledger_of (ms_values sample_s1) K e)"
  "total_supply (ledger_of (ms_values sample_s1) K e) < 2 ^ 64"
  "well_typed (ms_values sample_s4)" "ledger_ok (StateLockup (rules_g sample_rules)) (ledger_of (ms_values sample_s4) K e)"
  "lockup_ok (StateLockup (rules_g sample_rules))"
proof -
  have small: "allocated (CustomAllocation (rules_g sample_rules)) < 2 ^ 64" "lockup_ok (StateLockup (rules_g sample_rules))"
    using sample_genesis_ok by (simp_all add: genesis_ok_def)
  note 1 = map_chain.reachable_ok [OF sample_genesis_ok sample_reachable]
  note 4 = map_chain.reachable_ok [OF sample_genesis_ok vm_transaction [OF sample_reachable sample_transaction]]
  show "well_typed (ms_values sample_s1)" "well_typed (ms_values sample_s4)" "lockup_ok (StateLockup (rules_g sample_rules))"
    using 1 4 small by blast+
  show "ledger_ok (StateLockup (rules_g sample_rules)) (ledger_of (ms_values sample_s1) K e)"
    "total_supply (ledger_of (ms_values sample_s1) K e) < 2 ^ 64"
    using 1 small(1) same_ledgerD [OF same_ledger_of [of "ms_values sample_s1" K e "{}" ErrNotFound]] by simp_all
  show "ledger_ok (StateLockup (rules_g sample_rules)) (ledger_of (ms_values sample_s4) K e)"
    using 4 same_ledgerD [OF same_ledger_of [of "ms_values sample_s4" K e "{}" ErrNotFound]] by simp
qed

theorem typed_store_never_panics_witness:
  "well_typed (ms_values (snd (Execute map_sdk sample_rules sample_auth sample_transfer sample_s1)))"
  using typed_store_never_panics [OF map_chain.index_sdk_axioms sample_ok(1)] by blast

abbreviation sample_ledger :: "map_state \<Rightarrow> ledger" where
  "sample_ledger s \<equiv> ledger_of (ms_values s) (ms_scope s) undeclared"

lemma sample_store [simp]:
  "store_ledger ms_values ms_scope undeclared sample_s1 = Some (sample_ledger sample_s1)"
  "store_ledger ms_values ms_scope undeclared (sample_s1\<lparr>ms_scope := K\<rparr>) = Some (ledger_of (ms_values sample_s1) K undeclared)"
  "store_ledger ms_values ms_scope undeclared sample_s4 = Some (sample_ledger sample_s4)"
  using sample_ok(1,4) by (simp_all add: store_ledger_def)

theorem execute_implements_ledger_witness:
  "fst (action_result (Action_MaxUnits sample_transfer) (l_action map_sdk (StateLockup (rules_g sample_rules)) sample_auth sample_transfer)
     (sample_ledger sample_s2)) = Ok \<lparr>res_Success = True, res_Units = 40, res_Output = NoOutput\<rparr>"
proof -
  have "well_typed (ms_values sample_s2)"
    using map_chain.refines_typed [OF map_chain.Auth_Deduct_refines [of sample_auth 100] _ sample_ok(1)] no_panic_funds(3)
    by (simp add: sample_deduct)
  then have "store_ledger ms_values ms_scope undeclared sample_s2 = Some (sample_ledger sample_s2)" by (simp add: store_ledger_def)
  from execute_implements_ledger [OF map_chain.index_sdk_axioms this, of sample_rules sample_auth sample_transfer]
  show ?thesis unfolding sample_execute by auto
qed

definition sample_clear :: clear where
  "sample_clear = \<lparr>cl_To = 1\<rparr>"

lemma sample_clears:
  "Execute map_sdk sample_rules (AuthDirect \<lparr>di_Signer = 2, di_Signature = []\<rparr>) (ClearAction sample_clear) sample_s4 =
     (Ok \<lparr>res_Success = True, res_Units = 32, res_Output = NoOutput\<rparr>,
      map_state_of [PrefixBalanceKey 1 \<mapsto> balance_bytes 6892 2048, PrefixPermissionsKey 1 1 \<mapsto> [255, 255]])"
  by (simp add: sample_clear_def Clear_Execute_def Clear_body_def sample_s4_def Clear_MaxUnits_def PublicKeyLen_def sample_eval
      GetStateLockup_def FetchCustom_def sample_rules_def genesis_Default_def DeleteBalance_def DeletePermissions_def fun_upd_twist
      fun_upd_idem_iff)

theorem clear_leaves_nothing_witness:
  "perm_items (stored [PrefixBalanceKey 1 \<mapsto> balance_bytes 6892 2048, PrefixPermissionsKey 1 1 \<mapsto> [255, 255]]) 2 = {}"
proof -
  have "permissions (sample_ledger sample_s4) (2, 2) \<noteq> (0, 0)" by (simp add: key_bytes.simps sample_s4_def)
  then show ?thesis
    using clear_leaves_nothing [OF map_chain.index_sdk_axioms sample_store(3) sample_ok(5,6) _ _ sample_clears]
    by (simp add: sample_clear_def)
qed

theorem transfer_succeeds_iff_witness:
  "\<not> (\<exists>res s'. Execute map_sdk sample_rules sample_auth (TransferAction \<lparr>tr_To = 2, tr_Value = 7000\<rparr>) sample_s1 = (Ok res, s') \<and>
     res_Success res)"
proof -
  have "unlocked (sample_ledger sample_s1) 1 = 6952" by (simp add: key_bytes.simps sample_s1_def)
  then show ?thesis
    using transfer_succeeds_iff [OF map_chain.index_sdk_axioms sample_store(1) sample_ok(2,6,3), of sample_auth
        "\<lparr>tr_To = 2, tr_Value = 7000\<rparr>"]
    by (simp add: sample_auth_def) (simp add: sample_s1_def)
qed

theorem clear_into_new_account_fails_witness:
  "\<exists>res s'. Execute map_sdk sample_rules sample_auth (ClearAction \<lparr>cl_To = 3\<rparr>)
      (sample_s1\<lparr>ms_scope := set (Auth_StateKeys sample_auth @ Action_StateKeys map_sdk sample_auth (ClearAction \<lparr>cl_To = 3\<rparr>))\<rparr>) =
      (Ok res, s') \<and> \<not> res_Success res"
  by (rule clear_into_new_account_fails [OF map_chain.index_sdk_axioms sample_store(2)])
    (simp_all add: key_bytes.simps sample_s1_def sample_auth_def)

definition sample_delegate :: delegate where
  "sample_delegate = \<lparr>de_Actor = 1, de_Signer = 5, de_Signature = [], de_ActorPays = False\<rparr>"

definition sample_authorize :: authorize where
  "sample_authorize = \<lparr>au_Actor = 1, au_Signer = 6, au_ActionPermissions = 255, au_MiscPermissions = 0\<rparr>"

theorem authorize_by_paying_delegate_fails_witness:
  "\<exists>res s'. Authorize_Execute map_sdk sample_rules (AuthDelegate sample_delegate) sample_authorize
      (sample_s1\<lparr>ms_scope := set (Delegate_StateKeys sample_delegate @ Authorize_StateKeys sample_authorize)\<rparr>) = (Ok res, s') \<and>
     \<not> res_Success res"
  by (rule authorize_by_paying_delegate_fails [OF map_chain.index_sdk_axioms sample_store(2)])
    (simp_all add: key_bytes.simps sample_s1_def sample_delegate_def sample_authorize_def)

theorem transaction_needs_permission_witness:
  "bit (fst (permissions (stored (ms_values sample_s1)) (1, 1))) 1"
  using transaction_needs_permission [OF map_chain.index_sdk_axioms sample_ok(1) sample_transaction]
  by (simp add: Let_def sample_auth_def sample_transfer_def ActionRegistry_def)

definition sample_duplicate :: genesis where
  "sample_duplicate = genesis_Default\<lparr>CustomAllocation :=
     [\<lparr>ca_Address = ''a'', ca_Balance = 9000\<rparr>, \<lparr>ca_Address = ''b'', ca_Balance = 9000\<rparr>]\<rparr>"

theorem duplicate_allocation_overlocks_witness:
  "\<not> account_ok 1024 (stored [PrefixBalanceKey 1 \<mapsto> balance_bytes 13904 4096, PrefixPermissionsKey 1 1 \<mapsto> [255, 255]]) 1"
proof -
  have run: "genesis_Load map_sdk sample_duplicate sample_start =
      (Ok (), map_state_of [PrefixBalanceKey 1 \<mapsto> balance_bytes 13904 4096, PrefixPermissionsKey 1 1 \<mapsto> [255, 255]])"
    by (simp add: genesis_Load_def Load_allocation_def sample_duplicate_def sample_start_def genesis_Default_def sample_eval
        fun_upd_twist)
  show ?thesis
    using duplicate_allocation_overlocks [OF map_chain.index_sdk_axioms _ _ _ _ _ run, of _ _ 1]
    by (simp add: sample_duplicate_def genesis_Default_def lockup_ok_def sample_start_def)
qed

definition map_metadata :: "(bytes \<Rightarrow> bytes option) metadata" where
  "map_metadata = \<lparr>kv_get = (\<lambda>m k. case m k of None \<Rightarrow> Err ErrNotFound | Some v \<Rightarrow> Ok v),
     kv_put = (\<lambda>k v m. (Ok (), m(k \<mapsto> v)))\<rparr>"

theorem accepted_transactions_found_witness:
  "\<exists>c m. Accepted map_metadata (\<lambda>_. None) (\<lambda>b m. (Ok (), m ++ b)) 9
      [\<lparr>tx_ID = 4, tx_Action = sample_transfer, tx_Success = True, tx_Units = 40\<rparr>]
      (\<lambda>_. None, \<lparr>itemsIndexed = 0, itemsUnindexed = 0\<rparr>) = (Ok (), m, c) \<and>
    Handler_GetTx map_metadata m 4 = Ok \<lparr>gt_Accepted = True, gt_Timestamp = 9, gt_Success = True, gt_Units = 40\<rparr>"
proof -
  have "batch_laws map_metadata (\<lambda>_. None) (\<lambda>b m. (Ok (), m ++ b)) map_metadata"
    by (auto simp: batch_laws_def kv_laws_def map_metadata_def map_add_def split: option.split)
  from accepted_transactions_found [OF this,
      of "[\<lparr>tx_ID = 4, tx_Action = sample_transfer, tx_Success = True, tx_Units = 40\<rparr>]" 9 "\<lambda>_. None"
        "\<lparr>itemsIndexed = 0, itemsUnindexed = 0\<rparr>"]
  show ?thesis by auto
qed

theorem queries_tell_the_ledger_witness:
  "Handler_Balance map_sdk (map (\<lambda>k. case ms_values sample_s1 k of None \<Rightarrow> Err ErrNotFound | Some v \<Rightarrow> Ok v)) ''a'' =
     Ok \<lparr>br_Exists = True, br_Unlocked = 6952, br_Locked = 2048\<rparr>"
  using queries_tell_the_ledger [OF sample_ok(1) refl, of map_sdk "''a''" 1] unfolding stored_at sample_stored by simp

end
