(* ===== verification/Spec2Isabelle.thy ===== *)
theory Spec2Isabelle
  imports Two_Chain_Safety Round_Progress Block_Tree_Run Leader_Election Index_Properties
begin

text \<open>
  \<^bold>\<open>The program.\<close> The repository holds two programs. Under \<^verbatim>\<open>src/vm/aptos-vm\<close> is a Rust node of the
  Aptos blockchain; the development models the core of its consensus, the two-chain variant of
  HotStuff. Under \<^verbatim>\<open>src/actions\<close>, \<^verbatim>\<open>src/auth\<close>, \<^verbatim>\<open>src/controller\<close>, \<^verbatim>\<open>src/genesis\<close> and \<^verbatim>\<open>src/storage\<close> is a
  virtual machine in Go, the Index VM, a plugin of the hypersdk. In the text below, paths of the Rust node
  are relative to \<^verbatim>\<open>src/vm/aptos-vm\<close>.

  \<^bold>\<open>How the parts of the node interact.\<close> The elected leader of a round proposes a block on top of a
  quorum certificate. A validator checks the proposal, inserts the block into its tree of pending
  blocks, and asks its safety rules, a service with its own storage, for a vote. The next leader
  collects votes; a quorum of them for one ledger info is a quorum certificate. A validator whose
  timer expires signs a timeout instead, and a quorum of timeouts is a timeout certificate. Either
  certificate moves the round state to a later round. A block with a certified child in the next round
  is committed: the tree moves its root and prunes the other branches. Clients follow the chain of
  validator sets by epoch changes.

  \<^bold>\<open>Conventions.\<close> \<open>Rust_Prelude\<close> has the machine integers, the type \<open>result\<close> with the constructors \<open>Ok\<close>,
  \<open>Err\<close> and \<open>Panic\<close>, and handlers, which pass the state of a mutable receiver on explicitly, on error
  paths too. The workspace is built with overflow checks, so arithmetic that leaves its width is a
  panic. \<open>BTree_Map\<close> has ordered maps, by the locale \<open>ordered_map\<close> and its interpretation; hash maps
  are kept in key order, and where the order of iteration could be seen it is a parameter. Code
  outside the repository is an argument: the record \<open>crypto\<close> (SHA3, BCS, the blst curve
  operations), the record \<open>sdk\<close> (hypersdk and avalanchego), the storage backends, clocks and
  timers. Hypotheses on them (signatures of honest keys are made by their owners, aggregated
  signatures verify, hashes that occur do not collide) are named in the theorems that need them, and
  the witnesses instantiate them.

  \<^bold>\<open>Cryptographic data.\<close> \<open>Hash_Value\<close> is \<^verbatim>\<open>crates/aptos-crypto/src/hash.rs\<close>, \<open>Text_Format\<close> the text of
  hashes and numbers, \<open>Bls\<close> the hashing and signing of structured messages, \<open>Bit_Vec\<close>
  \<^verbatim>\<open>crates/aptos-bitvec\<close>. The lemmas are round trips and the meaning of the bit operations as sets.

  \<^bold>\<open>Validators and ledger infos.\<close> \<open>Validator_Verifier\<close> is \<^verbatim>\<open>types/src/validator_verifier.rs\<close> with aggregate
  signatures and the on-chain validator set: the quorum is two thirds plus one, what a verified
  certificate carries, and that two certificates share an honest signer. \<open>Ledger_Info\<close> is
  \<^verbatim>\<open>block_info.rs\<close>, \<^verbatim>\<open>epoch_state.rs\<close> and \<^verbatim>\<open>ledger_info.rs\<close>. \<open>Accumulator\<close> is the Merkle accumulator and its
  proofs, compared with the tree over the list of leaves. \<open>Epoch_Change\<close> is \<^verbatim>\<open>waypoint.rs\<close>,
  \<^verbatim>\<open>epoch_change.rs\<close>, \<^verbatim>\<open>trusted_state.rs\<close> and \<^verbatim>\<open>state_proof.rs\<close>: a light client only follows certified chains.

  \<^bold>\<open>Messages.\<close> \<open>Quorum_Cert\<close>, \<open>Timeout_Certs\<close>, \<open>Block\<close> and \<open>Consensus_Msgs\<close> are the data of
  \<^verbatim>\<open>consensus/consensus-types\<close>, with what a verified certificate, timeout certificate, block, retrieval
  response or vote guarantees.

  \<^bold>\<open>Safety.\<close> \<open>Safety_Storage\<close> is the secure key/value storage and \<^verbatim>\<open>persistent_safety_storage.rs\<close> over a
  backend that may fail at any access, with the JSON encoding as far as reads depend on it; \<open>Safety_Rules\<close> is
  \<^verbatim>\<open>safety_rules.rs\<close> and \<^verbatim>\<open>safety_rules_2chain.rs\<close>, with the exact conditions of a vote; \<open>Safety_Service\<close> is the
  service over histories of requests, faults and restarts, where a restart runs the start-up of
  \<^verbatim>\<open>safety_rules_manager.rs\<close>. They show that the stored data never go back, that a validator votes once per round
  and that its timeouts remember its votes, as long as no start-up initializes the storage again, and that a read
  fault at start-up can make it do so. \<open>Two_Chain\<close> is the abstract argument of the commit rule as a locale, and
  \<open>Two_Chain_Safety\<close> interprets it for epochs whose honest validators are these services: committed
  blocks lie on one chain, for every adversary within the limits that theory lists.

  \<^bold>\<open>Progress.\<close> \<open>Pending_Votes\<close> is \<^verbatim>\<open>consensus/src/pending_votes.rs\<close> and \<open>Round_State\<close> is
  \<^verbatim>\<open>consensus/src/liveness/round_state.rs\<close>. \<open>Round_Progress\<close> shows that the votes, or the timeouts, of a
  quorum that does not equivocate yield a certificate that verifies, and that rounds only advance.

  \<^bold>\<open>The block tree.\<close> \<open>Block_Tree\<close> is \<^verbatim>\<open>consensus/src/block_storage/block_tree.rs\<close>. Its two loops over links
  are partial functions; no fuel is used. \<open>Block_Tree_Run\<close> shows, for every tree that the operations
  build from blocks whose parents have smaller rounds, that the loops return, that a path is found
  exactly for descendants, and that a commit prunes exactly the blocks that are not below the committed
  one; and that a block inserted on top of a pruned one is never removed.

  \<^bold>\<open>Leaders.\<close> \<open>Leader_Election\<close> is the elections of \<^verbatim>\<open>consensus/src/liveness\<close>: one accepted proposal per
  round, and the draw of a leader in proportion to voting power and reputation. The binary search of
  the standard library is a total function with a termination proof.

  \<^bold>\<open>The Index VM.\<close> \<open>Index_Storage\<close> is \<^verbatim>\<open>src/storage\<close> with the ledger it implements; the laws of the hypersdk
  are the locale \<open>index_sdk\<close>. \<open>Index_Vm\<close> is authorization, genesis, the six actions, the record of
  accepted blocks and the queries. \<open>Index_Ledger\<close> specifies every action on the ledger and shows that the
  byte-level code refines it. \<open>Index_Run\<close> has the runs of the chain, and \<open>Index_Properties\<close> what they
  guarantee: locked balances pay for the state, funds are conserved, others are spared, permissions
  are needed, no panics, and three requests that can never succeed or go wrong.

  \<^bold>\<open>Not modelled.\<close>
  \<^item> The Move virtual machine and its adapter, and the executor: consensus sees an execution result as the
    accumulator extension proof a voter is shown, or as an opaque value in the block tree.
  \<^item> The block store, the round manager, the quorum store and the commit pipeline: asynchronous tasks that
    exchange messages with the modelled components over channels. What they check before a call is
    stated where it is used (\<open>commit_ready\<close> of the block tree, the callers of the safety rules).
  \<^item> Storage engines, state sync, mempool, network, API and tooling: input and output around the protocol.
  \<^item> \<^verbatim>\<open>ExponentialTimeInterval\<close> and the chain health ratio, which compute with floating point numbers: the
    interval of a round and the ratio are parameters.
  \<^item> Sparse Merkle proofs, the Vault and on-disk backends of the secure storage, remote safety rules, and the
    client, configuration and command line of the Index VM.
  \<^item> Logging and metrics everywhere, except where computing a metric can panic.
\<close>

end
